(* ===== verification/Prelude.thy ===== *)
theory Prelude imports Main "HOL-Library.Word" "HOL-Library.Multiset" begin

text \<open>
  What every component of the development shares: the errors a C statement of
  the repository can end in, the sequencing of fallible steps, pointers and the
  C heap, machine integers, and the contract of the C library's \<open>qsort\<close>.

  A fallible step returns \<open>c_error + 'a\<close>: \<open>Inl\<close> of what went wrong, or
  \<open>Inr\<close> of the result. \<open>Exit n\<close> is a call of \<open>exit (n)\<close>; the other errors
  are the undefined behaviours the sources can reach (a read through NULL, a
  read of freed or never allocated memory, of an uninitialised slot, or outside
  an array, a signed overflow) and a failing \<open>assert\<close>.
\<close>

named_theorems res_simps "sequencing of fallible steps"
named_theorems heap_simps "reads and writes of the heap"

datatype c_error =
    Null_Deref
  | Dangling
  | Uninit_Read
  | Out_Of_Bounds
  | Int_Overflow
  | Assert_Failed
  | Exit int

type_synonym 'a res = "c_error + 'a"
type_synonym byte = "8 word"
type_synonym uint32 = "32 word"
type_synonym ptr = "nat option"

section \<open>Sequencing fallible steps\<close>

fun bindr :: "'a res \<Rightarrow> ('a \<Rightarrow> 'b res) \<Rightarrow> 'b res" where
  "bindr (Inl e) f = Inl e"
| "bindr (Inr x) f = f x"

definition check :: "bool \<Rightarrow> c_error \<Rightarrow> unit res" where
  "check b e = (if b then Inr () else Inl e)"

lemma bindr_eq_Inr [res_simps]: "bindr m f = Inr y \<longleftrightarrow> (\<exists>x. m = Inr x \<and> f x = Inr y)"
  by (cases m) auto

lemma bindr_eq_Inl [res_simps]:
  "bindr m f = Inl e \<longleftrightarrow> m = Inl e \<or> (\<exists>x. m = Inr x \<and> f x = Inl e)"
  by (cases m) auto

lemma bindr_assoc: "bindr (bindr m f) g = bindr m (\<lambda>x. bindr (f x) g)"
  by (cases m) auto

lemma bindr_cong [fundef_cong]:
  "m = m' \<Longrightarrow> (\<And>x. m' = Inr x \<Longrightarrow> f x = f' x) \<Longrightarrow> bindr m f = bindr m' f'"
  by (cases m') auto

lemma check_eq_Inr [simp]: "check b e = Inr u \<longleftrightarrow> b"
  by (simp add: check_def)

lemma check_True [simp]: "check True e = Inr ()"
  by (simp add: check_def)

lemma check_False [simp]: "check False e = Inl e"
  by (simp add: check_def)

text \<open>\<open>mapr f xs\<close> runs \<open>f\<close> over a list from left to right.\<close>

primrec mapr :: "('a \<Rightarrow> 'b res) \<Rightarrow> 'a list \<Rightarrow> 'b list res" where
  "mapr f [] = Inr []"
| "mapr f (x # xs) = bindr (f x) (\<lambda>y. bindr (mapr f xs) (\<lambda>ys. Inr (y # ys)))"

lemma mapr_Inr: "(\<And>x. x \<in> set xs \<Longrightarrow> f x = Inr (g x)) \<Longrightarrow> mapr f xs = Inr (map g xs)"
  by (induction xs) auto

lemma mapr_Inl:
  "x \<in> set xs \<Longrightarrow> f x = Inl e \<Longrightarrow> (\<And>y. y \<in> set xs \<Longrightarrow> f y = Inl e \<or> f y = Inr (g y)) \<Longrightarrow>
   mapr f xs = Inl e"
proof (induction xs)
  case (Cons z zs)
  from Cons.prems(3) [of z] consider "f z = Inl e" | "f z = Inr (g z)" by auto
  then show ?case
  proof cases
    case 1
    then show ?thesis by simp
  next
    case 2
    with Cons.prems(1,2) have "x \<in> set zs" by auto
    moreover have "\<And>y. y \<in> set zs \<Longrightarrow> f y = Inl e \<or> f y = Inr (g y)"
      using Cons.prems(3) by simp
    ultimately have "mapr f zs = Inl e" using Cons.IH Cons.prems(2) by blast
    with 2 show ?thesis by simp
  qed
qed simp

section \<open>Machine integers\<close>

text \<open>
  A C \<open>int\<close> is an \<open>int\<close> in the range of 32 bits; \<open>c_int\<close> makes the result of a
  signed operation an error when it leaves the range.
\<close>

definition int32_ok :: "int \<Rightarrow> bool" where
  "int32_ok x \<longleftrightarrow> -(2 ^ 31) \<le> x \<and> x < 2 ^ 31"

definition c_int :: "int \<Rightarrow> int res" where
  "c_int x = (if int32_ok x then Inr x else Inl Int_Overflow)"

lemma c_int_Inr [simp]: "int32_ok x \<Longrightarrow> c_int x = Inr x"
  by (simp add: c_int_def)

text \<open>Four bytes of memory read as an \<open>int\<close>: little endian, two's complement.\<close>

definition int_of_bytes :: "byte list \<Rightarrow> int" where
  "int_of_bytes bs = signed_take_bit 31 (horner_sum uint 256 bs)"

lemma int_of_bytes_range: "int32_ok (int_of_bytes bs)"
  unfolding int_of_bytes_def int32_ok_def
  using signed_take_bit_int_less_exp [of 31 "horner_sum uint 256 bs"]
    signed_take_bit_int_greater_eq_minus_exp [of 31 "horner_sum uint 256 bs"]
  by simp

section \<open>Pointers and the heap\<close>

text \<open>
  A pointer is NULL (\<open>None\<close>) or an address; a heap maps the addresses of the live
  objects of one C type to their contents. \<open>free\<close> removes an address.
\<close>

fun load :: "(nat \<rightharpoonup> 'a) \<Rightarrow> ptr \<Rightarrow> 'a res" where
  "load h None = Inl Null_Deref"
| "load h (Some a) = (case h a of None \<Rightarrow> Inl Dangling | Some v \<Rightarrow> Inr v)"

fun store :: "(nat \<rightharpoonup> 'a) \<Rightarrow> ptr \<Rightarrow> ('a \<Rightarrow> 'a) \<Rightarrow> (nat \<rightharpoonup> 'a) res" where
  "store h None f = Inl Null_Deref"
| "store h (Some a) f = (case h a of None \<Rightarrow> Inl Dangling | Some v \<Rightarrow> Inr (h(a \<mapsto> f v)))"

fun free_ptr :: "(nat \<rightharpoonup> 'a) \<Rightarrow> ptr \<Rightarrow> (nat \<rightharpoonup> 'a) res" where
  "free_ptr h None = Inr h"
| "free_ptr h (Some a) = (if h a = None then Inl Dangling else Inr (h(a := None)))"

lemma load_eq_Inr [heap_simps]: "load h p = Inr v \<longleftrightarrow> (\<exists>a. p = Some a \<and> h a = Some v)"
  by (cases p) (auto split: option.splits)

lemma store_eq_Inr [heap_simps]:
  "store h p f = Inr h' \<longleftrightarrow> (\<exists>a v. p = Some a \<and> h a = Some v \<and> h' = h(a \<mapsto> f v))"
  by (cases p) (auto split: option.splits)

lemma load_Some [simp]: "h a = Some v \<Longrightarrow> load h (Some a) = Inr v"
  by simp

lemma store_Some [simp]: "h a = Some v \<Longrightarrow> store h (Some a) f = Inr (h(a \<mapsto> f v))"
  by simp

text \<open>An allocator that returns the address above all live ones.\<close>

definition fresh_address :: "(nat \<rightharpoonup> 'a) \<Rightarrow> ptr" where
  "fresh_address h = Some (Suc (Max (insert 0 (dom h))))"

lemma fresh_address_free: "finite (dom h) \<Longrightarrow> \<exists>a. fresh_address h = Some a \<and> h a = None"
proof -
  assume "finite (dom h)"
  then have "a \<le> Max (insert 0 (dom h))" if "h a \<noteq> None" for a
    using that by (intro Max_ge) auto
  then have "h (Suc (Max (insert 0 (dom h)))) = None" by (metis Suc_n_not_le_n)
  then show ?thesis by (simp add: fresh_address_def)
qed

text \<open>How an update of a list changes the number of its elements with \<open>P\<close>.\<close>

lemma filter_update:
  assumes "i < length xs"
  shows "length (filter P (xs[i := y])) + (if P (xs ! i) then 1 else 0) = length (filter P xs) + (if P y then 1 else 0)"
proof -
  obtain l b r where "xs = l @ b # r" "length l = i"
    using id_take_nth_drop [OF assms] assms by (metis length_take min.absorb4)
  then show ?thesis by auto
qed

section \<open>Scanning with a stride of four\<close>

lemma ex_step: "(\<exists>k. P (p + 4 * int k)) \<longleftrightarrow> P p \<or> (\<exists>k. P (p + 4 + 4 * int k))"
proof -
  have "(\<exists>k. Q k) \<longleftrightarrow> Q 0 \<or> (\<exists>k. Q (Suc k))" for Q :: "nat \<Rightarrow> bool"
    by (metis not0_implies_Suc)
  from this [of "\<lambda>k. P (p + 4 * int k)"] show ?thesis by (simp add: algebra_simps)
qed

section \<open>Repeated steps\<close>

text \<open>\<open>repeat_step f k s\<close> runs the fallible step \<open>f\<close> \<open>k\<close> times.\<close>

primrec repeat_step :: "('s \<Rightarrow> 's res) \<Rightarrow> nat \<Rightarrow> 's \<Rightarrow> 's res" where
  "repeat_step f 0 s = Inr s"
| "repeat_step f (Suc k) s = bindr (f s) (repeat_step f k)"

text \<open>
  The contract of a fair scheduler of \<open>m\<close> threads: a yield hands the processor from the
  thread at position \<open>i\<close> to the one at position \<open>i + 1\<close>, and from the last to the first.
\<close>

locale cyclic_yield =
  fixes yield :: "'s \<Rightarrow> 's res" and running :: "'s \<Rightarrow> nat \<Rightarrow> bool" and m :: nat
  assumes yield_next: "running s i \<Longrightarrow> i < m \<Longrightarrow>
    \<exists>s'. yield s = Inr s' \<and> running s' (Suc i mod m)"
begin

lemma yields_cycle:
  "running s i \<Longrightarrow> i < m \<Longrightarrow> \<exists>s'. repeat_step yield k s = Inr s' \<and> running s' ((i + k) mod m)"
proof (induction k arbitrary: s i)
  case (Suc k)
  from yield_next [OF Suc.prems] obtain s1 where
    s1: "yield s = Inr s1" "running s1 (Suc i mod m)" by blast
  have "Suc i mod m < m" using Suc.prems(2) by simp
  from Suc.IH [OF s1(2) this] s1(1) show ?case by (simp add: mod_simps)
qed simp

text \<open>Every thread of the cycle runs again within \<open>m\<close> yields.\<close>

lemma yields_reach:
  assumes "running s i" and "i < m" and "j < m"
  shows "\<exists>k < m. \<exists>s'. repeat_step yield k s = Inr s' \<and> running s' j"
proof -
  define k where "k = (j + m - i) mod m"
  have "(i + k) mod m = (i + (j + m - i)) mod m" by (simp add: k_def mod_simps)
  also have "\<dots> = j" using assms(2,3) by simp
  finally have "(i + k) mod m = j" .
  moreover have "k < m" using assms(2) by (simp add: k_def)
  ultimately show ?thesis using yields_cycle [OF assms(1,2), of k] by auto
qed

end

end
