(* ===== verification/RecImage.thy ===== *)
theory RecImage imports Prelude begin

text \<open>
  The disk image of Asmt_6 (recover.c, recover.h) as the program sees it: the
  bytes of the mapped data file, read as C ints and as \<open>struct inode\<close>; the
  search for an inode by owner (\<open>find_inode\<close>) and the check of its block numbers
  (\<open>check_inode\<close>).

  A pointer into the mapping is its offset from \<open>data_file_map_start\<close>, an
  \<open>int\<close> because the code also forms pointers before the mapping. A read outside
  the bytes of the file is the error \<open>Out_Of_Bounds\<close>.
\<close>

section \<open>Constants and data of recover.h\<close>

definition N_DBLOCKS :: nat where "N_DBLOCKS = 12"
definition N_IBLOCKS :: nat where "N_IBLOCKS = 3"
definition BLOCK_SIZE :: int where "BLOCK_SIZE = 1024"

definition GEN_ERROR :: int where "GEN_ERROR = -1"
definition NEG_BYTE_REQ :: int where "NEG_BYTE_REQ = -2"
definition NO_POINTERS_IN_IBLOCK :: int where "NO_POINTERS_IN_IBLOCK = -3"
definition BLOCK_COPY_ERROR :: int where "BLOCK_COPY_ERROR = -4"

definition IS_UNKNOW :: int where "IS_UNKNOW = 0"
definition IS_DBLOCK :: int where "IS_DBLOCK = 1"
definition IS_IBLOCK :: int where "IS_IBLOCK = 2"

lemmas rec_consts = N_DBLOCKS_def N_IBLOCKS_def BLOCK_SIZE_def GEN_ERROR_def
  NEG_BYTE_REQ_def NO_POINTERS_IN_IBLOCK_def BLOCK_COPY_ERROR_def
  IS_UNKNOW_def IS_DBLOCK_def IS_IBLOCK_def

record inode =
  foo :: int
  nlink :: int
  uid :: int
  gid :: int
  fsize :: int
  ctime :: int
  mtime :: int
  atime :: int
  dblocks :: "int list"
  iblocks :: "int list"
  i2block :: int
  i3block :: int

section \<open>Reading the image\<close>

definition read_int :: "byte list \<Rightarrow> int \<Rightarrow> int res" where
  "read_int img p =
     (if 0 \<le> p \<and> p + 4 \<le> int (length img)
      then Inr (int_of_bytes (take 4 (drop (nat p) img)))
      else Inl Out_Of_Bounds)"

text \<open>\<open>memcpy\<close> of \<open>n\<close> bytes out of the mapping.\<close>

definition read_bytes :: "byte list \<Rightarrow> int \<Rightarrow> int \<Rightarrow> byte list res" where
  "read_bytes img p n =
     (if 0 \<le> p \<and> 0 \<le> n \<and> p + n \<le> int (length img)
      then Inr (take (nat n) (drop (nat p) img))
      else Inl Out_Of_Bounds)"

text \<open>Consecutive bytes as an array of ints.\<close>

fun ints_of_bytes :: "byte list \<Rightarrow> int list" where
  "ints_of_bytes (a # b # c # d # bs) = int_of_bytes [a, b, c, d] # ints_of_bytes bs"
| "ints_of_bytes bs = []"

text \<open>The object at \<open>p\<close> read through an \<open>inode_t *\<close>: 25 ints in the order of the struct.\<close>

definition read_inode :: "byte list \<Rightarrow> int \<Rightarrow> inode res" where
  "read_inode img p =
     bindr (read_bytes img p 100) (\<lambda>bs. let w = ints_of_bytes bs in
       Inr \<lparr>foo = w ! 0, nlink = w ! 1, uid = w ! 2, gid = w ! 3, fsize = w ! 4,
            ctime = w ! 5, mtime = w ! 6, atime = w ! 7,
            dblocks = take N_DBLOCKS (drop 8 w),
            iblocks = take N_IBLOCKS (drop 20 w),
            i2block = w ! 23, i3block = w ! 24\<rparr>)"

section \<open>find_inode\<close>

text \<open>
  \<open>search_ptr\<close> steps over the ints from \<open>start_ptr\<close>. The second comparison reads the
  int after \<open>search_ptr\<close>, which the loop bound does not cover. NULL is \<open>None\<close>.
\<close>

function find_inode :: "byte list \<Rightarrow> int \<Rightarrow> int \<Rightarrow> int \<Rightarrow> int \<Rightarrow> int option res" where
  "find_inode img search_ptr end_ptr u g =
     (if search_ptr \<le> end_ptr - 4 then
        bindr (read_int img search_ptr) (\<lambda>a.
          if a = u then
            bindr (read_int img (search_ptr + 4)) (\<lambda>b.
              if b = g then Inr (Some (search_ptr - 8))
              else find_inode img (search_ptr + 4) end_ptr u g)
          else find_inode img (search_ptr + 4) end_ptr u g)
      else Inr None)"
  by pat_completeness auto
termination
  by (relation "measure (\<lambda>(img, p, e, u, g). nat (e - p))") auto

declare find_inode.simps [simp del]

section \<open>check_inode\<close>

text \<open>
  One of the two block loops: \<open>False\<close> at the first block number that is negative or not
  below \<open>max_block_number\<close>.
\<close>

fun blocks_in_range :: "int \<Rightarrow> int list \<Rightarrow> bool" where
  "blocks_in_range mx [] = True"
| "blocks_in_range mx (b # bs) = (if b < 0 \<or> b \<ge> mx then False else blocks_in_range mx bs)"

definition check_inode :: "int \<Rightarrow> inode \<Rightarrow> int" where
  "check_inode mx node =
     (if \<not> blocks_in_range mx (dblocks node) then GEN_ERROR
      else if \<not> blocks_in_range mx (iblocks node) then GEN_ERROR
      else if i2block node < 0 \<or> i2block node \<ge> mx then GEN_ERROR
      else if i3block node < 0 \<or> i3block node \<ge> mx then GEN_ERROR
      else 0)"

section \<open>Lemmas\<close>

lemma length_ints_of_bytes [simp]: "length (ints_of_bytes bs) = length bs div 4"
  by (induction bs rule: ints_of_bytes.induct) auto

lemma ints_of_bytes_Cons:
  "4 \<le> length bs \<Longrightarrow> ints_of_bytes bs = int_of_bytes (take 4 bs) # ints_of_bytes (drop 4 bs)"
proof -
  assume "4 \<le> length bs"
  then obtain a b c d cs where "bs = a # b # c # d # cs"
    by (auto simp: numeral_eq_Suc Suc_le_length_iff)
  then show ?thesis by simp
qed

lemma ints_of_bytes_nth:
  "4 * i + 4 \<le> length bs \<Longrightarrow> ints_of_bytes bs ! i = int_of_bytes (take 4 (drop (4 * i) bs))"
proof (induction i arbitrary: bs)
  case 0
  then show ?case by (simp add: ints_of_bytes_Cons)
next
  case (Suc i)
  then show ?case by (simp add: ints_of_bytes_Cons [of bs] add.commute)
qed

lemma ints_of_bytes_replicate_0: "ints_of_bytes (replicate (4 * n) 0) = replicate n 0"
proof (induction n)
  case (Suc n)
  have "replicate (4 * Suc n) (0::byte) = 0 # 0 # 0 # 0 # replicate (4 * n) 0"
    by (simp add: numeral_eq_Suc)
  then show ?case using Suc by (simp add: int_of_bytes_def)
qed simp

lemma read_int_cases:
  "read_int img p = Inl Out_Of_Bounds \<or> (\<exists>a. read_int img p = Inr a)"
  by (simp add: read_int_def)

lemma read_int_Inr_iff:
  "(\<exists>a. read_int img p = Inr a) \<longleftrightarrow> 0 \<le> p \<and> p + 4 \<le> int (length img)"
  by (simp add: read_int_def)

lemma read_bytes_length: "read_bytes img p n = Inr bs \<Longrightarrow> length bs = nat n"
  by (auto simp: read_bytes_def split: if_splits)

lemma blocks_in_range_iff: "blocks_in_range mx bs \<longleftrightarrow> (\<forall>b \<in> set bs. 0 \<le> b \<and> b < mx)"
  by (induction bs) auto

lemma check_inode_values: "check_inode mx node = 0 \<or> check_inode mx node = GEN_ERROR"
  by (simp add: check_inode_def)

lemma check_inode_ok_iff:
  "check_inode mx node = 0 \<longleftrightarrow>
     (\<forall>b \<in> set (dblocks node @ iblocks node @ [i2block node, i3block node]). 0 \<le> b \<and> b < mx)"
  by (auto simp: check_inode_def blocks_in_range_iff GEN_ERROR_def)

lemma read_inode_lengths:
  assumes "read_inode img p = Inr f"
  shows "length (dblocks f) = 12" and "length (iblocks f) = 3"
proof -
  from assms obtain bs where bs: "read_bytes img p 100 = Inr bs"
    and f: "dblocks f = take 12 (drop 8 (ints_of_bytes bs))"
      "iblocks f = take 3 (drop 20 (ints_of_bytes bs))"
    by (auto simp: read_inode_def bindr_eq_Inr Let_def N_DBLOCKS_def N_IBLOCKS_def)
  from bs have "length bs = 100" by (auto dest: read_bytes_length)
  with f show "length (dblocks f) = 12" and "length (iblocks f) = 3" by simp_all
qed

text \<open>An owner pair at offset \<open>p\<close>: the int at \<open>p\<close> is the uid, the next one the gid.\<close>

definition owner_at :: "byte list \<Rightarrow> int \<Rightarrow> int \<Rightarrow> int \<Rightarrow> bool" where
  "owner_at img u g p \<longleftrightarrow> read_int img p = Inr u \<and> read_int img (p + 4) = Inr g"

text \<open>One turn of the loop, by what is found at \<open>search_ptr\<close>.\<close>

lemma find_inode_end: "\<not> p \<le> e - 4 \<Longrightarrow> find_inode img p e u g = Inr None"
  by (subst find_inode.simps) simp

lemma find_inode_hit:
  "p \<le> e - 4 \<Longrightarrow> owner_at img u g p \<Longrightarrow> find_inode img p e u g = Inr (Some (p - 8))"
  by (subst find_inode.simps) (simp add: owner_at_def)

lemma find_inode_miss:
  assumes "p \<le> e - 4" and "\<not> owner_at img u g p" and "read_int img p = Inr a"
    and "a = u \<Longrightarrow> \<exists>b. read_int img (p + 4) = Inr b"
  shows "find_inode img p e u g = find_inode img (p + 4) e u g"
  using assms by (subst find_inode.simps) (auto simp: owner_at_def)

text \<open>
  The three ways the search ends: at the first owner pair; past the last int, in a read
  beyond the mapping; past the last int, with NULL.
\<close>

lemma owner_at_bound: "owner_at img u g p \<Longrightarrow> 0 \<le> p \<and> p + 8 \<le> int (length img)"
  by (auto simp: owner_at_def read_int_def split: if_splits)

lemma find_inode_cases:
  assumes "0 \<le> p" and "e = int (length img)"
  shows "(\<exists>k. owner_at img u g (p + 4 * int k) \<and> (\<forall>j < k. \<not> owner_at img u g (p + 4 * int j)) \<and>
           find_inode img p e u g = Inr (Some (p + 4 * int k - 8)))
       \<or> (\<forall>k. \<not> owner_at img u g (p + 4 * int k)) \<and>
           (if \<exists>k. read_int img (p + 4 * int k) = Inr u \<and> e < p + 4 * int k + 8
            then find_inode img p e u g = Inl Out_Of_Bounds
            else find_inode img p e u g = Inr None)"
  using assms
proof (induction "nat (e - p)" arbitrary: p rule: less_induct)
  case (less p)
  let ?o = "owner_at img u g" and ?f = "find_inode img p e u g"
  let ?over = "\<lambda>q. read_int img q = Inr u \<and> e < q + 8"
  consider (stop) "\<not> p \<le> e - 4" | (hit) "p \<le> e - 4" "?o p"
    | (over) "p \<le> e - 4" "\<not> ?o p" "?over p"
    | (miss) "p \<le> e - 4" "\<not> ?o p" "\<not> ?over p" by blast
  then show ?case
  proof cases
    case stop
    then have "\<not> ?o (p + 4 * int k)" "\<not> ?over (p + 4 * int k)" for k
      using less.prems by (auto dest: owner_at_bound simp: read_int_def)
    with stop show ?thesis by (simp add: find_inode_end)
  next
    case hit
    then show ?thesis by (intro disjI1 exI [of _ 0]) (simp add: find_inode_hit)
  next
    case over
    then have "?f = Inl Out_Of_Bounds" using less.prems
      by (subst find_inode.simps) (auto simp: read_int_def)
    moreover have "\<not> ?o (p + 4 * int k)" for k
      using over less.prems by (cases k) (auto dest: owner_at_bound)
    ultimately show ?thesis using over by (intro disjI2) (auto intro: exI [of _ 0])
  next
    case miss
    with less.prems obtain a where a: "read_int img p = Inr a" by (auto simp: read_int_def)
    have "a = u \<Longrightarrow> \<exists>b. read_int img (p + 4) = Inr b"
      using miss a less.prems by (auto simp: read_int_def)
    then have f: "?f = find_inode img (p + 4) e u g"
      using miss(1,2) a by (intro find_inode_miss) auto
    have "nat (e - (p + 4)) < nat (e - p)" "0 \<le> p + 4" using miss less.prems by auto
    from less.hyps [OF this less.prems(2)] show ?thesis
    proof (elim disjE exE conjE)
      fix k assume k: "?o (p + 4 + 4 * int k)" "\<forall>j<k. \<not> ?o (p + 4 + 4 * int j)"
        "find_inode img (p + 4) e u g = Inr (Some (p + 4 + 4 * int k - 8))"
      have "\<not> ?o (p + 4 * int j)" if "j < Suc k" for j
        using that k(2) miss(2) by (cases j) (auto simp: algebra_simps)
      with k f show ?thesis
        by (intro disjI1 exI [of _ "Suc k"]) (simp add: algebra_simps)
    next
      assume none: "\<forall>k. \<not> ?o (p + 4 + 4 * int k)"
        and r: "if \<exists>k. ?over (p + 4 + 4 * int k) then find_inode img (p + 4) e u g = Inl Out_Of_Bounds
          else find_inode img (p + 4) e u g = Inr None"
      from none miss(2) have "\<not> ?o (p + 4 * int k)" for k
        using ex_step [of ?o p] by blast
      moreover have "(\<exists>k. ?over (p + 4 * int k)) \<longleftrightarrow> (\<exists>k. ?over (p + 4 + 4 * int k))"
        using ex_step [of ?over p] miss(3) by blast
      ultimately show ?thesis using r f by auto
    qed
  qed
qed

end
