(* ===== verification/RecCopy.thy ===== *)
theory RecCopy imports RecImage begin

text \<open>
  The copying routines of recover.c: \<open>copy_dblock\<close>, \<open>unwind_iblock\<close> and
  \<open>copy_i1block\<close>, over a state that holds the globals they use and the output file.

  What the C library decides is a parameter, the record \<open>rec_env\<close>: whether a
  \<open>malloc\<close> of n bytes succeeds and how many of n bytes an \<open>fwrite\<close> accepts after a
  given output. \<open>unwind_iblock\<close> reads the int behind its array \<open>block_buffer\<close> when all
  256 entries are block numbers: that is an error of the model, \<open>Out_Of_Bounds\<close>.
\<close>

section \<open>State\<close>

record rec_env =
  malloc_ok :: "nat \<Rightarrow> bool"
  fwrite_count :: "byte list \<Rightarrow> nat \<Rightarrow> nat"

record rec_state =
  data_map :: "byte list"
  max_block_number :: int
  used_block_array :: "int list"
  out_file :: "byte list"

section \<open>Operations\<close>

text \<open>\<open>used_block_array[block_num] = v\<close>.\<close>

definition mark_block :: "rec_state \<Rightarrow> int \<Rightarrow> int \<Rightarrow> rec_state res" where
  "mark_block s b v =
     (if 0 \<le> b \<and> b < int (length (used_block_array s))
      then Inr (s\<lparr>used_block_array := (used_block_array s)[nat b := v]\<rparr>)
      else Inl Out_Of_Bounds)"

text \<open>\<open>fwrite\<close> appends the bytes it accepts and returns their number.\<close>

definition fwrite_bytes :: "rec_env \<Rightarrow> rec_state \<Rightarrow> byte list \<Rightarrow> int \<times> rec_state" where
  "fwrite_bytes env s bs =
     (let n = min (fwrite_count env (out_file s) (length bs)) (length bs)
      in (int n, s\<lparr>out_file := out_file s @ take n bs\<rparr>))"

definition copy_dblock :: "rec_env \<Rightarrow> rec_state \<Rightarrow> int \<Rightarrow> int \<Rightarrow> (int \<times> rec_state) res" where
  "copy_dblock env s block_num bytes0 =
     (if bytes0 < 0 then Inr (NEG_BYTE_REQ, s)
      else let bytes = (if bytes0 > BLOCK_SIZE then BLOCK_SIZE else bytes0) in
        if \<not> malloc_ok env (nat bytes) then Inr (GEN_ERROR, s)
        else
          bindr (c_int (BLOCK_SIZE * block_num)) (\<lambda>off.
          bindr (read_bytes (data_map s) off bytes) (\<lambda>copy_buffer.
          let (written, s1) = fwrite_bytes env s copy_buffer in
          if written \<noteq> bytes then Inr (BLOCK_COPY_ERROR, s1)
          else bindr (mark_block s1 block_num IS_DBLOCK) (\<lambda>s2. Inr (bytes, s2)))))"

text \<open>The scan of \<open>unwind_iblock\<close>: the position of the first entry that is not a block number.\<close>

fun scan_valid :: "int \<Rightarrow> int list \<Rightarrow> nat" where
  "scan_valid mx [] = 0"
| "scan_valid mx (b # bs) = (if b < 0 \<or> b \<ge> mx then 0 else Suc (scan_valid mx bs))"

text \<open>
  Returns the count (or \<open>NO_POINTERS_IN_IBLOCK\<close>), the filled \<open>block_buffer\<close> and the state.
  The test after the loop reads \<open>block_buffer[block_pos]\<close>, which does not exist when the
  loop ran to its end.
\<close>

definition unwind_iblock :: "rec_env \<Rightarrow> rec_state \<Rightarrow> int \<Rightarrow> (int \<times> int list \<times> rec_state) res" where
  "unwind_iblock env s block_num =
     bindr (c_int (BLOCK_SIZE * block_num)) (\<lambda>off.
     bindr (read_bytes (data_map s) off BLOCK_SIZE) (\<lambda>bs.
     let block_buffer = ints_of_bytes bs;
         block_pos = scan_valid (max_block_number s) block_buffer in
     if block_pos \<ge> length block_buffer then Inl Out_Of_Bounds
     else if block_buffer ! block_pos = 0
     then Inr (NO_POINTERS_IN_IBLOCK, block_buffer, s)
     else bindr (mark_block s block_num IS_IBLOCK) (\<lambda>s1.
       Inr (int block_pos, block_buffer, s1))))"

text \<open>
  The loop of \<open>copy_i1block\<close> over the first \<open>block_count\<close> entries; \<open>None\<close> is the early
  return of \<open>BLOCK_COPY_ERROR\<close>.
\<close>

fun copy_i1_loop ::
  "rec_env \<Rightarrow> rec_state \<Rightarrow> int list \<Rightarrow> int \<Rightarrow> int \<Rightarrow> (int option \<times> rec_state) res" where
  "copy_i1_loop env s [] bytes data_copied = Inr (Some data_copied, s)"
| "copy_i1_loop env s (b # bs) bytes data_copied =
     bindr (copy_dblock env s b (bytes - data_copied)) (\<lambda>(bytes_copied, s1).
       if bytes_copied = BLOCK_COPY_ERROR \<or> bytes_copied = GEN_ERROR then Inr (None, s1)
       else copy_i1_loop env s1 bs bytes (data_copied + bytes_copied))"

definition copy_i1block :: "rec_env \<Rightarrow> rec_state \<Rightarrow> int \<Rightarrow> int \<Rightarrow> (int \<times> rec_state) res" where
  "copy_i1block env s block_num bytes =
     (if bytes < 0 then Inr (NEG_BYTE_REQ, s)
      else bindr (unwind_iblock env s block_num) (\<lambda>(block_count, block_buffer, s1).
        if block_count = NO_POINTERS_IN_IBLOCK then Inr (NO_POINTERS_IN_IBLOCK, s1)
        else bindr (copy_i1_loop env s1 (take (nat block_count) block_buffer) bytes 0)
          (\<lambda>(r, s2). case r of
             None \<Rightarrow> Inr (BLOCK_COPY_ERROR, s2)
           | Some data_copied \<Rightarrow>
               bindr (mark_block s2 block_num IS_IBLOCK) (\<lambda>s3. Inr (data_copied, s3)))))"

section \<open>What a block holds\<close>

definition block_data :: "byte list \<Rightarrow> int \<Rightarrow> byte list" where
  "block_data img b = take 1024 (drop (1024 * nat b) img)"

text \<open>The block numbers an indirect block holds: its entries before the first invalid one.\<close>

definition pointers :: "byte list \<Rightarrow> int \<Rightarrow> int \<Rightarrow> int list" where
  "pointers img mx b = takeWhile (\<lambda>x. 0 \<le> x \<and> x < mx) (ints_of_bytes (block_data img b))"

definition i1_content :: "byte list \<Rightarrow> int \<Rightarrow> int \<Rightarrow> byte list" where
  "i1_content img mx b = concat (map (block_data img) (pointers img mx b))"

text \<open>A full indirect block: all of its 256 entries are block numbers.\<close>

definition full_block :: "byte list \<Rightarrow> int \<Rightarrow> int \<Rightarrow> bool" where
  "full_block img mx b \<longleftrightarrow> length (pointers img mx b) = 256"

text \<open>
  The state in which recovery runs: the globals as \<open>main\<close> sets them up (one counter per
  whole block of the image, an image below 2 GB so that \<open>BLOCK_SIZE * block_num\<close> is an
  \<open>int\<close>) and an environment in which no \<open>malloc\<close> and no \<open>fwrite\<close> fails.
\<close>

definition env_good :: "rec_env \<Rightarrow> bool" where
  "env_good env \<longleftrightarrow> (\<forall>n. malloc_ok env n) \<and> (\<forall>out n. n \<le> fwrite_count env out n)"

definition rec_ok :: "byte list \<Rightarrow> int \<Rightarrow> rec_state \<Rightarrow> bool" where
  "rec_ok img mx s \<longleftrightarrow> data_map s = img \<and> max_block_number s = mx \<and>
     length (used_block_array s) = nat mx \<and> set (used_block_array s) \<subseteq> {0, 1, 2} \<and>
     BLOCK_SIZE * mx \<le> int (length img) \<and> int (length img) < 2 ^ 31"

definition valid_block :: "int \<Rightarrow> int \<Rightarrow> bool" where
  "valid_block mx b \<longleftrightarrow> 0 \<le> b \<and> b < mx"

section \<open>The contract of a block copying routine\<close>

text \<open>
  \<open>copy_dblock\<close> and \<open>copy_i1block\<close> promise the same: asked for \<open>n\<close> bytes of a valid
  block that is not bad they append the first \<open>n\<close> bytes of its content (all of it when it
  is shorter), return how many that were, and keep the state good. A bad block, for
  \<open>copy_i1block\<close> a full one, is a read out of bounds. Every loop of the program that calls
  one of them satisfies the equations of \<open>copy_loop\<close>, so its effect is proved once, here.
\<close>

locale block_copier =
  fixes copy :: "'s \<Rightarrow> int \<Rightarrow> int \<Rightarrow> (int \<times> 's) res"
    and out :: "'s \<Rightarrow> byte list"
    and content :: "int \<Rightarrow> byte list"
    and bad :: "int \<Rightarrow> bool"
    and ok :: "'s \<Rightarrow> bool"
    and valid :: "int \<Rightarrow> bool"
  assumes copy_spec: "ok s \<Longrightarrow> valid b \<Longrightarrow> 0 \<le> n \<Longrightarrow> \<not> bad b \<Longrightarrow>
      \<exists>s'. copy s b n = Inr (min n (int (length (content b))), s') \<and> ok s' \<and>
         out s' = out s @ take (nat n) (content b)"
    and copy_bad: "ok s \<Longrightarrow> valid b \<Longrightarrow> 0 \<le> n \<Longrightarrow> bad b \<Longrightarrow> copy s b n = Inl Out_Of_Bounds"

locale copy_loop = block_copier copy out content bad ok valid
  for copy :: "'s \<Rightarrow> int \<Rightarrow> int \<Rightarrow> (int \<times> 's) res"
    and out :: "'s \<Rightarrow> byte list"
    and content :: "int \<Rightarrow> byte list"
    and bad :: "int \<Rightarrow> bool"
    and ok :: "'s \<Rightarrow> bool"
    and valid :: "int \<Rightarrow> bool" +
  fixes n :: int
    and loop :: "'s \<Rightarrow> int list \<Rightarrow> int \<Rightarrow> ('r \<times> 's) res"
    and ret :: "int \<Rightarrow> 'r"
  assumes loop_Nil: "loop s [] k = Inr (ret k, s)"
    and loop_Cons: "ok s \<Longrightarrow> valid b \<Longrightarrow> 0 \<le> m \<Longrightarrow> copy s b (n - k) = Inr (m, s') \<Longrightarrow>
      loop s (b # bs) k = loop s' bs (k + m)"
    and loop_bad: "ok s \<Longrightarrow> valid b \<Longrightarrow> copy s b (n - k) = Inl Out_Of_Bounds \<Longrightarrow>
      loop s (b # bs) k = Inl Out_Of_Bounds"
begin

lemma loop_spec:
  "ok s \<Longrightarrow> (\<forall>b \<in> set bs. valid b) \<Longrightarrow> k \<le> n \<Longrightarrow> (\<forall>b \<in> set bs. \<not> bad b) \<Longrightarrow>
   \<exists>s'. loop s bs k = Inr (ret (k + min (n - k) (int (length (concat (map content bs))))), s') \<and>
        ok s' \<and> out s' = out s @ take (nat (n - k)) (concat (map content bs))"
proof (induction bs arbitrary: s k)
  case Nil
  then show ?case by (simp add: loop_Nil)
next
  case (Cons b bs)
  let ?c = "content b" and ?d = "concat (map content bs)"
  let ?m = "min (n - k) (int (length ?c))"
  from Cons.prems obtain s1 where s1: "copy s b (n - k) = Inr (?m, s1)" "ok s1"
    "out s1 = out s @ take (nat (n - k)) ?c"
    using copy_spec [of s b "n - k"] by auto
  have m: "0 \<le> ?m" "k + ?m \<le> n" using Cons.prems(3) by simp_all
  from Cons.IH [OF s1(2) _ m(2)] Cons.prems(2,4) obtain s2 where s2:
    "loop s1 bs (k + ?m) = Inr (ret (k + ?m + min (n - (k + ?m)) (int (length ?d))), s2)"
    "ok s2" "out s2 = out s1 @ take (nat (n - (k + ?m))) ?d" by auto
  have split: "nat (n - (k + ?m)) = nat (n - k) - length ?c" by simp
  have total: "k + ?m + min (n - (k + ?m)) (int (length ?d)) =
      k + min (n - k) (int (length (?c @ ?d)))" by simp
  have "loop s (b # bs) k = loop s1 bs (k + ?m)"
    using Cons.prems(1,2) m(1) s1(1) by (intro loop_Cons) auto
  also have "\<dots> = Inr (ret (k + min (n - k) (int (length (?c @ ?d)))), s2)"
    by (simp only: s2(1) total)
  finally have eq: "loop s (b # bs) k = \<dots>" .
  have "out s2 = out s @ take (nat (n - k)) (?c @ ?d)"
    by (simp only: s2(3) s1(3) split append_assoc take_append)
  with eq s2(2) show ?case by auto
qed

lemma loop_out_of_bounds:
  "ok s \<Longrightarrow> (\<forall>b \<in> set bs. valid b) \<Longrightarrow> k \<le> n \<Longrightarrow> (\<exists>b \<in> set bs. bad b) \<Longrightarrow>
   loop s bs k = Inl Out_Of_Bounds"
proof (induction bs arbitrary: s k)
  case (Cons b bs)
  show ?case
  proof (cases "bad b")
    case True
    then have "copy s b (n - k) = Inl Out_Of_Bounds" using Cons.prems by (intro copy_bad) auto
    then show ?thesis using Cons.prems by (intro loop_bad) auto
  next
    case False
    let ?m = "min (n - k) (int (length (content b)))"
    from False Cons.prems obtain s1 where s1: "copy s b (n - k) = Inr (?m, s1)" "ok s1"
      using copy_spec [of s b "n - k"] by auto
    have "loop s (b # bs) k = loop s1 bs (k + ?m)"
      using Cons.prems s1(1) by (intro loop_Cons) auto
    also have "\<dots> = Inl Out_Of_Bounds" using Cons.prems False s1(2) by (intro Cons.IH) auto
    finally show ?thesis .
  qed
qed simp

end

section \<open>The copying routines satisfy it\<close>

lemma scan_valid_takeWhile:
  "scan_valid mx bs = length (takeWhile (\<lambda>x. 0 \<le> x \<and> x < mx) bs)"
  by (induction bs) auto

lemma take_scan_valid:
  "take (scan_valid mx bs) bs = takeWhile (\<lambda>x. 0 \<le> x \<and> x < mx) bs"
  using takeWhile_eq_take [of "\<lambda>x. 0 \<le> x \<and> x < mx" bs] by (simp only: scan_valid_takeWhile)

lemma length_block_data:
  assumes "valid_block mx b" and "BLOCK_SIZE * mx \<le> int (length img)"
  shows "length (block_data img b) = 1024"
proof -
  have "1024 * (b + 1) \<le> 1024 * mx" using assms(1) by (simp add: valid_block_def)
  then have "1024 * b + 1024 \<le> int (length img)" using assms(2) by (simp add: BLOCK_SIZE_def)
  then have "1024 * nat b + 1024 \<le> length img" using assms(1)
    by (simp add: valid_block_def) arith
  then show ?thesis by (simp add: block_data_def)
qed

lemma pointers_valid: "\<forall>x \<in> set (pointers img mx b). valid_block mx x"
  by (auto simp: pointers_def valid_block_def dest: set_takeWhileD)

lemma block_offset:
  assumes "rec_ok img mx s" and "valid_block mx b"
  shows "c_int (BLOCK_SIZE * b) = Inr (BLOCK_SIZE * b)"
    and "0 \<le> n \<Longrightarrow> n \<le> 1024 \<Longrightarrow>
         read_bytes (data_map s) (BLOCK_SIZE * b) n = Inr (take (nat n) (block_data img b))"
proof -
  have b: "0 \<le> b" "b + 1 \<le> mx" using assms(2) by (auto simp: valid_block_def)
  have le: "1024 * b + 1024 \<le> int (length img)" "int (length img) < 2 ^ 31"
    using assms(1) b(2) by (auto simp: rec_ok_def BLOCK_SIZE_def)
  then show "c_int (BLOCK_SIZE * b) = Inr (BLOCK_SIZE * b)"
    using b(1) by (simp add: BLOCK_SIZE_def int32_ok_def)
  assume n: "0 \<le> n" "n \<le> 1024"
  have "nat (1024 * b) = 1024 * nat b" using b(1) by (simp add: nat_mult_distrib)
  then show "read_bytes (data_map s) (BLOCK_SIZE * b) n = Inr (take (nat n) (block_data img b))"
    using assms(1) b(1) n le
    by (simp add: read_bytes_def rec_ok_def BLOCK_SIZE_def block_data_def min_absorb1 nat_le_iff)
qed

lemma mark_block_ok:
  assumes "rec_ok img mx s" and "valid_block mx b" and "v \<in> {0, 1, 2}"
  shows "\<exists>s'. mark_block s b v = Inr s' \<and> rec_ok img mx s' \<and> out_file s' = out_file s"
proof -
  have "nat b < length (used_block_array s)"
    using assms(1,2) by (auto simp: rec_ok_def valid_block_def)
  moreover have "set ((used_block_array s)[nat b := v]) \<subseteq> {0, 1, 2}"
    using assms(1,3) set_update_subset_insert [of "used_block_array s" "nat b" v]
    by (auto simp: rec_ok_def)
  ultimately show ?thesis using assms(1,2)
    by (auto simp: mark_block_def rec_ok_def valid_block_def)
qed

lemma copy_dblock_spec:
  assumes "env_good env \<and> rec_ok img mx s" and b: "valid_block mx b" and n: "0 \<le> n"
  shows "\<exists>s'. copy_dblock env s b n = Inr (min n (int (length (block_data img b))), s') \<and>
    (env_good env \<and> rec_ok img mx s') \<and> out_file s' = out_file s @ take (nat n) (block_data img b)"
proof -
  from assms(1) have env: "env_good env" and ok: "rec_ok img mx s" by simp_all
  define m where "m = (if n > BLOCK_SIZE then BLOCK_SIZE else n)"
  define d where "d = block_data img b"
  have len: "length d = 1024" using b ok unfolding d_def
    by (intro length_block_data [of mx]) (auto simp: rec_ok_def)
  have m: "m = min n (int (length d))" "0 \<le> m" "m \<le> 1024"
    using n len by (auto simp: m_def BLOCK_SIZE_def)
  have tk: "take (nat m) d = take (nat n) d" using m(1) len by (auto simp: min_def)
  have tt: "take (nat m) (take (nat m) d) = take (nat n) d"
    by (subst take_take) (simp only: min.idem tk)
  have l: "length (take (nat m) d) = nat m" using m len by simp
  define s1 where "s1 = s\<lparr>out_file := out_file s @ take (nat n) d\<rparr>"
  have ok1: "rec_ok img mx s1" using ok by (simp add: rec_ok_def s1_def)
  from mark_block_ok [OF this b] obtain s2 where s2: "mark_block s1 b IS_DBLOCK = Inr s2"
    "rec_ok img mx s2" "out_file s2 = out_file s1" by (auto simp: IS_DBLOCK_def)
  have "nat m \<le> fwrite_count env (out_file s) (nat m)" using env by (simp add: env_good_def)
  then have fw: "fwrite_bytes env s (take (nat m) d) = (m, s1)"
    unfolding fwrite_bytes_def l Let_def s1_def
    by (simp only: min_absorb2 tt int_nat_eq m(2) if_True)
  have "read_bytes (data_map s) (BLOCK_SIZE * b) m = Inr (take (nat m) d)"
    using block_offset(2) [OF ok b m(2,3)] by (simp add: d_def)
  then have "copy_dblock env s b n = Inr (m, s2)"
    using n env block_offset(1) [OF ok b] fw s2(1)
    by (simp add: copy_dblock_def m_def [symmetric] Let_def env_good_def)
  then show ?thesis using s2(2,3) env m(1) unfolding d_def s1_def by auto
qed

interpretation dblock: block_copier "copy_dblock env" out_file "block_data img"
    "\<lambda>b. False" "\<lambda>s. env_good env \<and> rec_ok img mx s" "valid_block mx" for env img mx
  by unfold_locales (use copy_dblock_spec in auto)

interpretation dblock_i1: copy_loop "copy_dblock env" out_file "block_data img"
    "\<lambda>b. False" "\<lambda>s. env_good env \<and> rec_ok img mx s" "valid_block mx"
    n "\<lambda>s bs k. copy_i1_loop env s bs n k" Some for env img mx n
  by unfold_locales (auto simp: BLOCK_COPY_ERROR_def GEN_ERROR_def)

lemma read_block:
  assumes "rec_ok img mx s" and "valid_block mx b"
  shows "read_bytes (data_map s) (BLOCK_SIZE * b) BLOCK_SIZE = Inr (block_data img b)"
    and "length (ints_of_bytes (block_data img b)) = 256"
proof -
  have len: "length (block_data img b) = 1024"
    using assms by (intro length_block_data [of mx]) (auto simp: rec_ok_def)
  then show "length (ints_of_bytes (block_data img b)) = 256" by simp
  from len have "take 1024 (block_data img b) = block_data img b" by simp
  then show "read_bytes (data_map s) (BLOCK_SIZE * b) BLOCK_SIZE = Inr (block_data img b)"
    using block_offset(2) [OF assms, of 1024] by (simp add: BLOCK_SIZE_def)
qed

lemma pointers_prefix:
  assumes "rec_ok img mx s" and "valid_block mx b"
  shows "length (pointers img mx b) \<le> 256"
    and "full_block img mx b \<longleftrightarrow> (\<forall>x \<in> set (ints_of_bytes (block_data img b)). valid_block mx x)"
    and "length (pointers img mx b) < 256 \<Longrightarrow>
      \<not> valid_block mx (ints_of_bytes (block_data img b) ! length (pointers img mx b))"
proof -
  let ?buf = "ints_of_bytes (block_data img b)" and ?P = "\<lambda>x. 0 \<le> x \<and> x < mx"
  note len = read_block(2) [OF assms]
  show "length (pointers img mx b) \<le> 256"
    using length_takeWhile_le [of ?P ?buf] by (simp only: pointers_def len)
  show "\<not> valid_block mx (?buf ! length (pointers img mx b))" if "length (pointers img mx b) < 256"
    using that nth_length_takeWhile [of ?P ?buf] len
    by (simp only: pointers_def valid_block_def not_False_eq_True)
  have "full_block img mx b \<longleftrightarrow> takeWhile ?P ?buf = ?buf"
  proof
    assume "full_block img mx b"
    then have "length (takeWhile ?P ?buf) = length ?buf"
      by (simp only: full_block_def pointers_def len)
    then show "takeWhile ?P ?buf = ?buf" using takeWhile_eq_take [of ?P ?buf] by simp
  next
    assume "takeWhile ?P ?buf = ?buf"
    then show "full_block img mx b" by (simp only: full_block_def pointers_def len)
  qed
  then show "full_block img mx b \<longleftrightarrow> (\<forall>x \<in> set ?buf. valid_block mx x)"
    by (simp only: takeWhile_eq_all_conv valid_block_def)
qed

lemma unwind_iblock_spec:
  assumes ok: "rec_ok img mx s" and b: "valid_block mx b" and nf: "\<not> full_block img mx b"
  shows "\<exists>s'. unwind_iblock env s b =
      Inr (int (length (pointers img mx b)), ints_of_bytes (block_data img b), s') \<and>
    rec_ok img mx s' \<and> out_file s' = out_file s"
proof -
  let ?buf = "ints_of_bytes (block_data img b)" and ?n = "length (pointers img mx b)"
  have n: "?n < length ?buf" using pointers_prefix(1) [OF ok b] nf read_block(2) [OF ok b]
    by (simp add: full_block_def)
  have "0 < mx" "max_block_number s = mx" using b ok by (auto simp: valid_block_def rec_ok_def)
  moreover from this(1) have "?buf ! ?n \<noteq> 0"
    using pointers_prefix(3) [OF ok b] n read_block(2) [OF ok b] by (auto simp: valid_block_def)
  moreover have "scan_valid mx ?buf = ?n" by (simp add: scan_valid_takeWhile pointers_def)
  moreover obtain s' where "mark_block s b IS_IBLOCK = Inr s'" "rec_ok img mx s'"
    "out_file s' = out_file s" using mark_block_ok [OF ok b, of IS_IBLOCK] by (auto simp: IS_IBLOCK_def)
  ultimately show ?thesis
    using n read_block(1) [OF ok b] block_offset(1) [OF ok b]
    by (simp add: unwind_iblock_def Let_def)
qed

lemma unwind_iblock_full:
  assumes ok: "rec_ok img mx s" and b: "valid_block mx b" and "full_block img mx b"
  shows "unwind_iblock env s b = Inl Out_Of_Bounds"
proof -
  have "scan_valid mx (ints_of_bytes (block_data img b)) = 256" "max_block_number s = mx"
    using assms(3) ok by (simp_all add: scan_valid_takeWhile pointers_def full_block_def rec_ok_def)
  then show ?thesis using read_block [OF ok b] block_offset(1) [OF ok b]
    by (simp add: unwind_iblock_def Let_def)
qed

lemma take_pointers:
  "take (length (pointers img mx b)) (ints_of_bytes (block_data img b)) = pointers img mx b"
  using takeWhile_eq_take [of "\<lambda>x. 0 \<le> x \<and> x < mx" "ints_of_bytes (block_data img b)"]
  by (simp only: pointers_def)

lemma copy_i1block_spec:
  assumes "env_good env \<and> rec_ok img mx s" and b: "valid_block mx b" and n: "0 \<le> n"
    and "\<not> full_block img mx b"
  shows "\<exists>s'. copy_i1block env s b n = Inr (min n (int (length (i1_content img mx b))), s') \<and>
    (env_good env \<and> rec_ok img mx s') \<and> out_file s' = out_file s @ take (nat n) (i1_content img mx b)"
proof -
  let ?ps = "pointers img mx b" and ?r = "min n (int (length (i1_content img mx b)))"
  from unwind_iblock_spec [of img mx s b env] assms(1,4) b obtain s1 where
    s1: "unwind_iblock env s b = Inr (int (length ?ps), ints_of_bytes (block_data img b), s1)"
      "env_good env \<and> rec_ok img mx s1" "out_file s1 = out_file s" by auto
  from dblock_i1.loop_spec [OF s1(2) pointers_valid [of img mx b] n] obtain s2 where
    s2: "copy_i1_loop env s1 ?ps n 0 = Inr (Some ?r, s2)" "env_good env \<and> rec_ok img mx s2"
      "out_file s2 = out_file s @ take (nat n) (i1_content img mx b)"
    using s1(3) by (auto simp: i1_content_def)
  from mark_block_ok [of img mx s2 b IS_IBLOCK] s2(2) b obtain s3 where
    s3: "mark_block s2 b IS_IBLOCK = Inr s3" "rec_ok img mx s3" "out_file s3 = out_file s2"
    by (auto simp: IS_IBLOCK_def)
  have "copy_i1block env s b n = Inr (?r, s3)"
    using n s1(1) s2(1) s3(1)
    by (simp add: copy_i1block_def take_pointers NO_POINTERS_IN_IBLOCK_def)
  with s2 s3 show ?thesis by auto
qed

lemma copy_i1block_full:
  assumes "rec_ok img mx s" and "valid_block mx b" and "0 \<le> n" and "full_block img mx b"
  shows "copy_i1block env s b n = Inl Out_Of_Bounds"
  using unwind_iblock_full [OF assms(1,2,4), of env] assms(3) by (simp add: copy_i1block_def)

interpretation i1block: block_copier "copy_i1block env" out_file "i1_content img mx"
    "full_block img mx" "\<lambda>s. env_good env \<and> rec_ok img mx s" "valid_block mx" for env img mx
  by unfold_locales (use copy_i1block_spec copy_i1block_full in auto)

end
