(* ===== verification/RecExtract.thy ===== *)
theory RecExtract imports RecCopy begin

text \<open>
  The part of recover.c's \<open>main\<close> that copies the data of one checked inode \<open>f\<close> to its
  output file: the direct blocks, the indirect blocks, the doubly and the triply indirect
  block, each stage entered while \<open>data_copied < f->size\<close>. \<open>Inl (Exit (-1))\<close> is the
  \<open>exit (-1)\<close> of a failed copy. \<open>data_copied\<close> (\<open>k\<close> below) is threaded through the loops.
\<close>

section \<open>The loops\<close>

text \<open>Direct blocks: stop at the first negative number.\<close>

fun direct_loop ::
  "rec_env \<Rightarrow> rec_state \<Rightarrow> int \<Rightarrow> int list \<Rightarrow> int \<Rightarrow> (int \<times> rec_state) res" where
  "direct_loop env s sz [] k = Inr (k, s)"
| "direct_loop env s sz (b # bs) k =
     (if b \<ge> 0 then
        bindr (copy_dblock env s b (sz - k)) (\<lambda>(bytes_copied, s1).
          if bytes_copied = GEN_ERROR \<or> bytes_copied = BLOCK_COPY_ERROR then Inl (Exit (-1))
          else if bytes_copied \<ge> 0 then direct_loop env s1 sz bs (k + bytes_copied)
          else direct_loop env s1 sz bs k)
      else Inr (k, s))"

text \<open>Indirect blocks of the inode.\<close>

fun indirect_loop ::
  "rec_env \<Rightarrow> rec_state \<Rightarrow> int \<Rightarrow> int list \<Rightarrow> int \<Rightarrow> (int \<times> rec_state) res" where
  "indirect_loop env s sz [] k = Inr (k, s)"
| "indirect_loop env s sz (b # bs) k =
     (if b \<ge> 0 then
        bindr (copy_i1block env s b (sz - k)) (\<lambda>(bytes_copied, s1).
          if bytes_copied = BLOCK_COPY_ERROR then Inl (Exit (-1))
          else if bytes_copied \<ge> 0 then indirect_loop env s1 sz bs (k + bytes_copied)
          else indirect_loop env s1 sz bs k)
      else Inr (k, s))"

text \<open>
  The loop over \<open>i1block_buffer\<close>: a number above \<open>st_size / BLOCK_SIZE\<close> is skipped.
\<close>

fun i1_buffer_loop ::
  "rec_env \<Rightarrow> rec_state \<Rightarrow> int \<Rightarrow> int list \<Rightarrow> int \<Rightarrow> (int \<times> rec_state) res" where
  "i1_buffer_loop env s sz [] k = Inr (k, s)"
| "i1_buffer_loop env s sz (b # bs) k =
     (if b \<ge> 0 then
        if b > int (length (data_map s)) div BLOCK_SIZE then i1_buffer_loop env s sz bs k
        else
          bindr (copy_i1block env s b (sz - k)) (\<lambda>(bytes_copied, s1).
            if bytes_copied = BLOCK_COPY_ERROR then Inl (Exit (-1))
            else if bytes_copied \<ge> 0 then i1_buffer_loop env s1 sz bs (k + bytes_copied)
            else i1_buffer_loop env s1 sz bs k)
      else Inr (k, s))"

definition double_stage :: "rec_env \<Rightarrow> rec_state \<Rightarrow> inode \<Rightarrow> int \<Rightarrow> (int \<times> rec_state) res" where
  "double_stage env s f k =
     bindr (unwind_iblock env s (i2block f)) (\<lambda>(i1block_count, i1block_buffer, s1).
       if i1block_count = NO_POINTERS_IN_IBLOCK then Inl (Exit (-1))
       else i1_buffer_loop env s1 (fsize f) (take (nat i1block_count) i1block_buffer) k)"

text \<open>
  The loop over \<open>i2block_buffer\<close>. Every turn unwinds \<open>f->i2block\<close>, not the entry of the
  buffer it is at: the entry only decides whether the turn is skipped.
\<close>

fun i2_buffer_loop ::
  "rec_env \<Rightarrow> rec_state \<Rightarrow> inode \<Rightarrow> int list \<Rightarrow> int \<Rightarrow> (int \<times> rec_state) res" where
  "i2_buffer_loop env s f [] k = Inr (k, s)"
| "i2_buffer_loop env s f (b # bs) k =
     (if b \<ge> 0 then
        if b > int (length (data_map s)) div BLOCK_SIZE then i2_buffer_loop env s f bs k
        else
          bindr (unwind_iblock env s (i2block f)) (\<lambda>(i1block_count, i1block_buffer, s1).
            if i1block_count = NO_POINTERS_IN_IBLOCK then Inl (Exit (-1))
            else
              bindr (i1_buffer_loop env s1 (fsize f) (take (nat i1block_count) i1block_buffer) k)
                (\<lambda>(k', s2). i2_buffer_loop env s2 f bs k'))
      else i2_buffer_loop env s f bs k)"

definition triple_stage :: "rec_env \<Rightarrow> rec_state \<Rightarrow> inode \<Rightarrow> int \<Rightarrow> (int \<times> rec_state) res" where
  "triple_stage env s f k =
     bindr (unwind_iblock env s (i3block f)) (\<lambda>(i2block_count, i2block_buffer, s1).
       if i2block_count = NO_POINTERS_IN_IBLOCK then Inl (Exit (-1))
       else i2_buffer_loop env s1 f (take (nat i2block_count) i2block_buffer) k)"

definition extract_file :: "rec_env \<Rightarrow> rec_state \<Rightarrow> inode \<Rightarrow> (int \<times> rec_state) res" where
  "extract_file env s f =
     bindr (direct_loop env s (fsize f) (take N_DBLOCKS (dblocks f)) 0) (\<lambda>(k1, s1).
     bindr (if k1 < fsize f then indirect_loop env s1 (fsize f) (take N_IBLOCKS (iblocks f)) k1
            else Inr (k1, s1)) (\<lambda>(k2, s2).
     bindr (if k2 < fsize f then double_stage env s2 f k2 else Inr (k2, s2)) (\<lambda>(k3, s3).
     if k3 < fsize f then triple_stage env s3 f k3 else Inr (k3, s3))))"

section \<open>The loops satisfy the copying contract\<close>

interpretation direct: copy_loop "copy_dblock env" out_file "block_data img"
    "\<lambda>b. False" "\<lambda>s. env_good env \<and> rec_ok img mx s" "valid_block mx" n "\<lambda>s bs k. direct_loop env s n bs k"
    "\<lambda>k. k" for env img mx n
  by unfold_locales (auto simp: rec_consts valid_block_def)

interpretation indirect: copy_loop "copy_i1block env" out_file "i1_content img mx"
    "full_block img mx" "\<lambda>s. env_good env \<and> rec_ok img mx s" "valid_block mx" n "\<lambda>s bs k. indirect_loop env s n bs k"
    "\<lambda>k. k" for env img mx n
  by unfold_locales (auto simp: rec_consts valid_block_def)

text \<open>The range check of the buffer loops never fires on a number that \<open>unwind_iblock\<close> accepted.\<close>

lemma range_check_redundant:
  assumes "rec_ok img mx s" and "valid_block mx b"
  shows "\<not> b > int (length (data_map s)) div BLOCK_SIZE"
proof -
  have "mx \<le> int (length img) div 1024" using assms(1)
    by (auto simp: rec_ok_def BLOCK_SIZE_def)
  with assms show ?thesis by (auto simp: rec_ok_def valid_block_def BLOCK_SIZE_def)
qed

interpretation i1_buffer: copy_loop "copy_i1block env" out_file "i1_content img mx"
    "full_block img mx" "\<lambda>s. env_good env \<and> rec_ok img mx s" "valid_block mx" n "\<lambda>s bs k. i1_buffer_loop env s n bs k"
    "\<lambda>k. k" for env img mx n
  using range_check_redundant
  by unfold_locales (auto simp: rec_consts valid_block_def)

section \<open>What the stages write\<close>

definition i2_content :: "byte list \<Rightarrow> int \<Rightarrow> int \<Rightarrow> byte list" where
  "i2_content img mx b = concat (map (i1_content img mx) (pointers img mx b))"

text \<open>
  The blocks that are unwound on the way: the doubly indirect block and all its indirect
  blocks, whether or not anything is left to copy.
\<close>

definition i2_blocks :: "byte list \<Rightarrow> int \<Rightarrow> int \<Rightarrow> int list" where
  "i2_blocks img mx b = b # pointers img mx b"

abbreviation i2_full :: "byte list \<Rightarrow> int \<Rightarrow> int \<Rightarrow> bool" where
  "i2_full img mx b \<equiv> \<exists>x \<in> set (i2_blocks img mx b). full_block img mx x"

text \<open>One unwinding of the doubly indirect block, as both last stages do it.\<close>

lemma unwind_then_buffer:
  assumes ok: "env_good env \<and> rec_ok img mx s" and b: "valid_block mx b" and k: "k \<le> n"
    and nf: "\<not> i2_full img mx b"
  shows "\<exists>s1 s2. unwind_iblock env s b =
      Inr (int (length (pointers img mx b)), ints_of_bytes (block_data img b), s1) \<and>
    i1_buffer_loop env s1 n (pointers img mx b) k =
      Inr (k + min (n - k) (int (length (i2_content img mx b))), s2) \<and>
    (env_good env \<and> rec_ok img mx s2) \<and>
    out_file s2 = out_file s @ take (nat (n - k)) (i2_content img mx b)"
proof -
  from unwind_iblock_spec [of img mx s b env] ok b nf obtain s1 where
    s1: "unwind_iblock env s b =
        Inr (int (length (pointers img mx b)), ints_of_bytes (block_data img b), s1)"
      "env_good env \<and> rec_ok img mx s1" "out_file s1 = out_file s" by (auto simp: i2_blocks_def)
  from i1_buffer.loop_spec [OF s1(2) pointers_valid [of img mx b] k] s1 nf show ?thesis
    by (auto simp: i2_content_def i2_blocks_def)
qed

lemma unwind_then_buffer_full:
  assumes ok: "env_good env \<and> rec_ok img mx s" and b: "valid_block mx b" and k: "k \<le> n"
    and f: "i2_full img mx b"
  shows "bindr (unwind_iblock env s b) (\<lambda>(c, buf, s1).
      if c = NO_POINTERS_IN_IBLOCK then Inl (Exit (-1))
      else i1_buffer_loop env s1 n (take (nat c) buf) k) = Inl Out_Of_Bounds"
proof (cases "full_block img mx b")
  case True
  then show ?thesis using unwind_iblock_full [of img mx s b env] ok b by simp
next
  case False
  from unwind_iblock_spec [of img mx s b env] ok b False obtain s1 where
    s1: "unwind_iblock env s b =
        Inr (int (length (pointers img mx b)), ints_of_bytes (block_data img b), s1)"
      "env_good env \<and> rec_ok img mx s1" by auto
  have "\<exists>x \<in> set (pointers img mx b). full_block img mx x" using f False by (auto simp: i2_blocks_def)
  from i1_buffer.loop_out_of_bounds [OF s1(2) pointers_valid [of img mx b] k this] s1
  show ?thesis by (simp add: take_pointers NO_POINTERS_IN_IBLOCK_def)
qed

lemma double_stage_spec:
  assumes "env_good env \<and> rec_ok img mx s" and "valid_block mx (i2block f)" and "k \<le> fsize f"
    and "\<not> i2_full img mx (i2block f)"
  shows "\<exists>s'. double_stage env s f k =
      Inr (k + min (fsize f - k) (int (length (i2_content img mx (i2block f)))), s') \<and>
    (env_good env \<and> rec_ok img mx s') \<and>
    out_file s' = out_file s @ take (nat (fsize f - k)) (i2_content img mx (i2block f))"
  using unwind_then_buffer [OF assms]
  by (auto simp: double_stage_def take_pointers NO_POINTERS_IN_IBLOCK_def)

lemma i1_buffer_loop_shift:
  "i1_buffer_loop env s n bs (j + k) =
     bindr (i1_buffer_loop env s (n - k) bs j) (\<lambda>(m, s'). Inr (m + k, s'))"
proof (induction bs arbitrary: s j)
  case (Cons b bs)
  have n: "n - (j + k) = n - k - j" by simp
  show ?case
  proof (cases "copy_i1block env s b (n - k - j)")
    case (Inr r)
    obtain m s1 where "r = (m, s1)" by (cases r)
    then show ?thesis using Inr Cons.IH [of s j] Cons.IH [of s1 j] Cons.IH [of s1 "j + m"]
      by (simp add: n add.assoc add.commute [of k m])
  next
    case (Inl e)
    then show ?thesis using Cons.IH [of s j] by (simp add: n)
  qed
qed simp

lemma double_stage_full:
  assumes "env_good env \<and> rec_ok img mx s" and "valid_block mx (i2block f)" and "k \<le> fsize f"
    and "i2_full img mx (i2block f)"
  shows "double_stage env s f k = Inl Out_Of_Bounds"
  using unwind_then_buffer_full [OF assms] by (simp add: double_stage_def)

text \<open>
  One turn of the loop over \<open>i2block_buffer\<close>, seen as the copying of a block: whatever the
  entry, its content is what the doubly indirect block of the inode leads to.
\<close>

definition copy_double_again ::
  "rec_env \<Rightarrow> inode \<Rightarrow> rec_state \<Rightarrow> int \<Rightarrow> int \<Rightarrow> (int \<times> rec_state) res" where
  "copy_double_again env f s b n =
     bindr (unwind_iblock env s (i2block f)) (\<lambda>(i1block_count, i1block_buffer, s1).
       if i1block_count = NO_POINTERS_IN_IBLOCK then Inl (Exit (-1))
       else i1_buffer_loop env s1 n (take (nat i1block_count) i1block_buffer) 0)"

lemma copy_double_again_spec:
  assumes "env_good env \<and> rec_ok img mx s \<and> valid_block mx (i2block f)" and "0 \<le> n"
    and "\<not> i2_full img mx (i2block f)"
  shows "\<exists>s'. copy_double_again env f s b n =
      Inr (min n (int (length (i2_content img mx (i2block f)))), s') \<and>
    (env_good env \<and> rec_ok img mx s' \<and> valid_block mx (i2block f)) \<and>
    out_file s' = out_file s @ take (nat n) (i2_content img mx (i2block f))"
  using unwind_then_buffer [of env img mx s "i2block f" 0 n] assms
  by (auto simp: copy_double_again_def take_pointers NO_POINTERS_IN_IBLOCK_def)

lemma i2_buffer_loop_Cons:
  assumes "env_good env \<and> rec_ok img mx s \<and> valid_block mx (i2block f)"
    and "valid_block mx b" and "copy_double_again env f s b (fsize f - k) = Inr (m, s')"
  shows "i2_buffer_loop env s f (b # bs) k = i2_buffer_loop env s' f bs (k + m)"
proof -
  have "\<not> b > int (length (data_map s)) div BLOCK_SIZE" "b \<ge> 0"
    using range_check_redundant [of img mx s b] assms(1,2) by (auto simp: valid_block_def)
  moreover from assms(3) obtain c buf s1 where
    "unwind_iblock env s (i2block f) = Inr (c, buf, s1)" "c \<noteq> NO_POINTERS_IN_IBLOCK"
    "i1_buffer_loop env s1 (fsize f - k) (take (nat c) buf) 0 = Inr (m, s')"
    by (auto simp: copy_double_again_def bindr_eq_Inr split: if_splits)
  ultimately show ?thesis
    using i1_buffer_loop_shift [of env s1 "fsize f" "take (nat c) buf" 0 k]
    by (simp add: add.commute)
qed

lemma copy_double_again_full:
  assumes "env_good env \<and> rec_ok img mx s \<and> valid_block mx (i2block f)" and "0 \<le> n"
    and "i2_full img mx (i2block f)"
  shows "copy_double_again env f s b n = Inl Out_Of_Bounds"
  using unwind_then_buffer_full [of env img mx s "i2block f" 0 n] assms
  by (simp add: copy_double_again_def)

lemma i2_buffer_loop_bad:
  assumes "env_good env \<and> rec_ok img mx s \<and> valid_block mx (i2block f)"
    and "valid_block mx b" and bad: "copy_double_again env f s b (fsize f - k) = Inl e"
  shows "i2_buffer_loop env s f (b # bs) k = Inl e"
proof -
  have r: "\<not> b > int (length (data_map s)) div BLOCK_SIZE" "b \<ge> 0"
    using range_check_redundant [of img mx s b] assms(1,2) by (auto simp: valid_block_def)
  show ?thesis
  proof (cases "unwind_iblock env s (i2block f)")
    case (Inl e')
    with r bad show ?thesis by (simp add: copy_double_again_def)
  next
    case (Inr x)
    obtain c buf s1 where x: "x = (c, buf, s1)" by (cases x) auto
    show ?thesis
    proof (cases "c = NO_POINTERS_IN_IBLOCK")
      case True
      with r bad Inr x show ?thesis by (simp add: copy_double_again_def)
    next
      case False
      with bad Inr x have "i1_buffer_loop env s1 (fsize f - k) (take (nat c) buf) 0 = Inl e"
        by (simp add: copy_double_again_def)
      with r Inr x False show ?thesis
        using i1_buffer_loop_shift [of env s1 "fsize f" "take (nat c) buf" 0 k] by simp
    qed
  qed
qed

interpretation i2_buffer: copy_loop "copy_double_again env f" out_file
    "\<lambda>b. i2_content img mx (i2block f)" "\<lambda>b. i2_full img mx (i2block f)"
    "\<lambda>s. env_good env \<and> rec_ok img mx s \<and> valid_block mx (i2block f)" "valid_block mx"
    "fsize f" "\<lambda>s bs k. i2_buffer_loop env s f bs k" "\<lambda>k. k" for env f img mx
proof (unfold_locales, goal_cases)
  case 1
  then show ?case by (intro copy_double_again_spec)
next
  case 2
  then show ?case by (intro copy_double_again_full)
next
  case 4
  then show ?case by (intro i2_buffer_loop_Cons)
next
  case 5
  then show ?case by (intro i2_buffer_loop_bad)
qed simp

definition i3_content_as_coded :: "byte list \<Rightarrow> int \<Rightarrow> inode \<Rightarrow> byte list" where
  "i3_content_as_coded img mx f =
     concat (map (\<lambda>b. i2_content img mx (i2block f)) (pointers img mx (i3block f)))"

lemma triple_stage_spec:
  assumes "env_good env \<and> rec_ok img mx s" and "valid_block mx (i2block f)"
    and "valid_block mx (i3block f)" and k: "k \<le> fsize f"
    and nf: "\<not> i2_full img mx (i2block f)" "\<not> full_block img mx (i3block f)"
  shows "\<exists>s'. triple_stage env s f k =
      Inr (k + min (fsize f - k) (int (length (i3_content_as_coded img mx f))), s') \<and>
    (env_good env \<and> rec_ok img mx s') \<and>
    out_file s' = out_file s @ take (nat (fsize f - k)) (i3_content_as_coded img mx f)"
proof -
  from unwind_iblock_spec [of img mx s "i3block f" env] assms obtain s1 where
    s1: "unwind_iblock env s (i3block f) = Inr (int (length (pointers img mx (i3block f))),
        ints_of_bytes (block_data img (i3block f)), s1)"
      "env_good env \<and> rec_ok img mx s1 \<and> valid_block mx (i2block f)" "out_file s1 = out_file s"
    by auto
  have "\<forall>b \<in> set (pointers img mx (i3block f)). \<not> i2_full img mx (i2block f)" using nf by blast
  from i2_buffer.loop_spec [OF s1(2) pointers_valid [of img mx "i3block f"] k this] s1 show ?thesis
    by (auto simp: triple_stage_def take_pointers NO_POINTERS_IN_IBLOCK_def i3_content_as_coded_def)
qed

lemma triple_stage_full:
  assumes "env_good env \<and> rec_ok img mx s" and "valid_block mx (i3block f)"
    and "full_block img mx (i3block f)"
  shows "triple_stage env s f k = Inl Out_Of_Bounds"
  using unwind_iblock_full [of img mx s "i3block f" env] assms by (simp add: triple_stage_def)

section \<open>The whole extraction\<close>

text \<open>
  The outcome of copying up to some stage: out of bounds when one of the blocks unwound so
  far is full, else the first \<open>n\<close> bytes of the data of the stages so far.
\<close>

definition copied ::
  "bool \<Rightarrow> int \<Rightarrow> byte list \<Rightarrow> byte list \<Rightarrow> (rec_state \<Rightarrow> bool) \<Rightarrow> (int \<times> rec_state) res \<Rightarrow> bool" where
  "copied bad n data out0 ok r \<longleftrightarrow>
     (if bad then r = Inl Out_Of_Bounds
      else \<exists>s'. r = Inr (min n (int (length data)), s') \<and> ok s' \<and>
             out_file s' = out0 @ take (nat n) data)"

text \<open>A stage is entered only when the data of the stages before it is shorter than the file.\<close>

lemma next_stage:
  assumes c: "copied B n done out0 ok r" and n: "0 \<le> n"
    and bad: "\<And>s k. ok s \<Longrightarrow> k \<le> n \<Longrightarrow> \<not> B \<Longrightarrow> int (length done) < n \<Longrightarrow> C \<Longrightarrow>
      st s k = Inl Out_Of_Bounds"
    and good: "\<And>s k. ok s \<Longrightarrow> k \<le> n \<Longrightarrow> \<not> B \<Longrightarrow> int (length done) < n \<Longrightarrow> \<not> C \<Longrightarrow>
      \<exists>s'. st s k = Inr (k + min (n - k) (int (length d)), s') \<and> ok s' \<and>
           out_file s' = out_file s @ take (nat (n - k)) d"
  shows "copied (B \<or> int (length done) < n \<and> C) n (done @ d) out0 ok
    (bindr r (\<lambda>(k, s). if k < n then st s k else Inr (k, s)))"
proof (cases B)
  case True
  then show ?thesis using c by (simp add: copied_def)
next
  case False
  define k where "k = min n (int (length done))"
  from False c obtain s where r: "r = Inr (k, s)" "ok s" "out_file s = out0 @ take (nat n) done"
    by (auto simp: copied_def k_def)
  show ?thesis
  proof (cases "int (length done) < n")
    case True
    then have k: "k = int (length done)" "k < n" "k \<le> n" by (auto simp: k_def)
    note bad = bad [OF r(2) k(3) False True] and good = good [OF r(2) k(3) False True]
    show ?thesis
    proof (cases C)
      case True
      with bad r(1) k(2) \<open>int (length done) < n\<close> show ?thesis by (simp add: copied_def)
    next
      case nC: False
      from good [OF nC] obtain s' where "st s k = Inr (k + min (n - k) (int (length d)), s')" "ok s'"
        "out_file s' = out_file s @ take (nat (n - k)) d" by blast
      then show ?thesis using r k nC False by (auto simp: copied_def nat_diff_distrib)
    qed
  next
    case nl: False
    then have "k = n" "nat n \<le> length done" using n by (auto simp: k_def)
    then show ?thesis using r nl False by (auto simp: copied_def)
  qed
qed

text \<open>The data of the direct blocks, up to the indirect, and up to the doubly indirect block.\<close>

definition direct_data :: "byte list \<Rightarrow> inode \<Rightarrow> byte list" where
  "direct_data img f = concat (map (block_data img) (dblocks f))"

definition indirect_data :: "byte list \<Rightarrow> int \<Rightarrow> inode \<Rightarrow> byte list" where
  "indirect_data img mx f = direct_data img f @ concat (map (i1_content img mx) (iblocks f))"

definition double_data :: "byte list \<Rightarrow> int \<Rightarrow> inode \<Rightarrow> byte list" where
  "double_data img mx f = indirect_data img mx f @ i2_content img mx (i2block f)"

definition extracted_data :: "byte list \<Rightarrow> int \<Rightarrow> inode \<Rightarrow> byte list" where
  "extracted_data img mx f = double_data img mx f @ i3_content_as_coded img mx f"

text \<open>
  The blocks that the extraction hands to \<open>unwind_iblock\<close>: a level of indirection is
  unwound, completely, exactly when the levels before it hold less data than the file.
\<close>

definition unwound_blocks :: "byte list \<Rightarrow> int \<Rightarrow> inode \<Rightarrow> int list" where
  "unwound_blocks img mx f =
     (if int (length (direct_data img f)) < fsize f then iblocks f else []) @
     (if int (length (indirect_data img mx f)) < fsize f then i2_blocks img mx (i2block f) else []) @
     (if int (length (double_data img mx f)) < fsize f then [i3block f] else [])"

definition unwinds_full :: "byte list \<Rightarrow> int \<Rightarrow> inode \<Rightarrow> bool" where
  "unwinds_full img mx f \<longleftrightarrow> (\<exists>b \<in> set (unwound_blocks img mx f). full_block img mx b)"

lemma extract_file_spec:
  assumes ok: "env_good env \<and> rec_ok img mx s" and chk: "check_inode mx f = 0"
    and len: "length (dblocks f) = 12" "length (iblocks f) = 3" and n: "0 \<le> fsize f"
  shows "copied (unwinds_full img mx f) (fsize f) (extracted_data img mx f) (out_file s)
    (\<lambda>s. env_good env \<and> rec_ok img mx s) (extract_file env s f)"
proof -
  let ?ok = "\<lambda>s. env_good env \<and> rec_ok img mx s" and ?n = "fsize f"
  define B2 where "B2 \<longleftrightarrow> int (length (direct_data img f)) < ?n \<and> (\<exists>b \<in> set (iblocks f). full_block img mx b)"
  define B3 where "B3 \<longleftrightarrow> int (length (indirect_data img mx f)) < ?n \<and> i2_full img mx (i2block f)"
  from chk have v: "\<forall>b \<in> set (dblocks f). valid_block mx b" "\<forall>b \<in> set (iblocks f). valid_block mx b"
    "valid_block mx (i2block f)" "valid_block mx (i3block f)"
    by (auto simp: check_inode_ok_iff valid_block_def)
  let ?r1 = "direct_loop env s ?n (dblocks f) 0"
  let ?r2 = "bindr ?r1 (\<lambda>(k, s). if k < ?n then indirect_loop env s ?n (iblocks f) k else Inr (k, s))"
  let ?r3 = "bindr ?r2 (\<lambda>(k, s). if k < ?n then double_stage env s f k else Inr (k, s))"
  let ?r4 = "bindr ?r3 (\<lambda>(k, s). if k < ?n then triple_stage env s f k else Inr (k, s))"
  have c1: "copied False ?n (direct_data img f) (out_file s) ?ok ?r1"
    using direct.loop_spec [OF ok v(1) n] by (auto simp: copied_def direct_data_def)
  have "copied (False \<or> B2) ?n (indirect_data img mx f) (out_file s) ?ok ?r2"
    unfolding B2_def indirect_data_def
  proof (rule next_stage [OF c1 n], goal_cases)
    case (1 s k)
    show ?case by (rule indirect.loop_out_of_bounds [OF 1(1) v(2) 1(2,5)])
  next
    case (2 s k)
    then have "\<forall>b \<in> set (iblocks f). \<not> full_block img mx b" by blast
    then show ?case by (rule indirect.loop_spec [OF 2(1) v(2) 2(2)])
  qed
  then have c2: "copied B2 ?n (indirect_data img mx f) (out_file s) ?ok ?r2" by simp
  have c3: "copied (B2 \<or> B3) ?n (double_data img mx f) (out_file s) ?ok ?r3"
    unfolding B3_def double_data_def
  proof (rule next_stage [OF c2 n], goal_cases)
    case (1 s k)
    show ?case by (rule double_stage_full [OF 1(1) v(3) 1(2,5)])
  next
    case (2 s k)
    show ?case by (rule double_stage_spec [OF 2(1) v(3) 2(2,5)])
  qed
  have nf: "\<not> i2_full img mx (i2block f)"
    if "\<not> (B2 \<or> B3)" "int (length (double_data img mx f)) < ?n"
    using that by (auto simp: B3_def double_data_def)
  have c4: "copied ((B2 \<or> B3) \<or> int (length (double_data img mx f)) < ?n \<and> full_block img mx (i3block f))
      ?n (extracted_data img mx f) (out_file s) ?ok ?r4"
    unfolding extracted_data_def
  proof (rule next_stage [OF c3 n], goal_cases)
    case (1 s k)
    show ?case by (rule triple_stage_full [OF 1(1) v(4) 1(5)])
  next
    case (2 s k)
    show ?case by (rule triple_stage_spec [OF 2(1) v(3,4) 2(2) nf [OF 2(3,4)] 2(5)])
  qed
  have "take N_DBLOCKS (dblocks f) = dblocks f" "take N_IBLOCKS (iblocks f) = iblocks f"
    using len by (simp_all add: N_DBLOCKS_def N_IBLOCKS_def)
  then have "extract_file env s f = ?r4"
    by (simp only: extract_file_def bindr_assoc split_def)
  moreover have "unwinds_full img mx f \<longleftrightarrow>
      (B2 \<or> B3) \<or> int (length (double_data img mx f)) < ?n \<and> full_block img mx (i3block f)"
    by (auto simp: unwinds_full_def unwound_blocks_def B2_def B3_def)
  ultimately show ?thesis using c4 by (simp only:)
qed

text \<open>A negative size copies nothing, whatever the block numbers.\<close>

lemma direct_loop_negative: "sz < 0 \<Longrightarrow> direct_loop env s sz bs 0 = Inr (0, s)"
  by (induction bs) (auto simp: copy_dblock_def rec_consts)

lemma extract_file_negative: "fsize f < 0 \<Longrightarrow> extract_file env s f = Inr (0, s)"
  by (simp add: extract_file_def direct_loop_negative)

lemma extract_file_out:
  assumes "env_good env \<and> rec_ok img mx s" and "check_inode mx f = 0"
    and "length (dblocks f) = 12" "length (iblocks f) = 3"
  shows "extract_file env s f = Inl Out_Of_Bounds \<or>
    (\<exists>k s'. extract_file env s f = Inr (k, s') \<and> rec_ok img mx s' \<and>
      out_file s' = out_file s @ take (nat (fsize f)) (extracted_data img mx f))"
proof (cases "0 \<le> fsize f")
  case True
  from extract_file_spec [OF assms True] show ?thesis by (auto simp: copied_def split: if_splits)
next
  case False
  with assms(1) show ?thesis by (simp add: extract_file_negative)
qed

section \<open>The data the inode describes\<close>

text \<open>What the block pointers mean: the third level goes through the blocks that the triply
  indirect block points to.\<close>

definition file_data :: "byte list \<Rightarrow> int \<Rightarrow> inode \<Rightarrow> byte list" where
  "file_data img mx f =
     double_data img mx f @ concat (map (i2_content img mx) (pointers img mx (i3block f)))"

definition double_capacity :: "byte list \<Rightarrow> int \<Rightarrow> inode \<Rightarrow> nat" where
  "double_capacity img mx f = length (double_data img mx f)"

end
