(* ===== verification/RecExt.thy ===== *)
theory RecExt imports Prelude begin

text \<open>
  \<open>guess_file_extension\<close> of recover.c: up to 12 bytes of the file are read in pairs into
  the array \<open>buffer\<close> of 20 bytes, which is not initialised, and compared with eleven
  signatures in a fixed order. A slot of the array is \<open>None\<close> until it is written; a
  comparison that reads such a slot is the error \<open>Uninit_Read\<close>.
\<close>

section \<open>Reading the head of the file\<close>

text \<open>
  The \<open>while\<close> loop: one \<open>fread\<close> of two bytes per turn; a turn stores its pair at
  \<open>y\<close> and \<open>y + 1\<close>. The loop ends at the first \<open>fread\<close> that does not get two
  bytes, or when \<open>y\<close> has reached 12 (that last pair is read and dropped).
\<close>

fun read_pairs :: "byte list \<Rightarrow> nat \<Rightarrow> byte option list \<Rightarrow> byte option list" where
  "read_pairs (b0 # b1 # bs) y buffer =
     (if y < 12 then read_pairs bs (y + 2) (buffer[y := Some b0, y + 1 := Some b1]) else buffer)"
| "read_pairs bs y buffer = buffer"

definition buffer_size :: nat where "buffer_size = 20"

text \<open>
  One \<open>for\<close> loop over the first \<open>n\<close> bytes of a signature: \<open>check\<close> ends as 1
  (\<open>True\<close>) at the first byte that differs, as 0 when all agree.
\<close>

fun sig_mismatch :: "byte list \<Rightarrow> byte option list \<Rightarrow> bool res" where
  "sig_mismatch [] buf = Inr False"
| "sig_mismatch (x # xs) [] = Inl Out_Of_Bounds"
| "sig_mismatch (x # xs) (b # buf) =
     (case b of None \<Rightarrow> Inl Uninit_Read
      | Some y \<Rightarrow> if x \<noteq> y then Inr True else sig_mismatch xs buf)"

section \<open>Signatures\<close>

definition sigWindowsexecutable :: "byte list" where "sigWindowsexecutable = [0x4D, 0x5A]"
definition sigJPEG :: "byte list" where "sigJPEG = [0x49, 0x46, 0x0]"
definition sigJPG :: "byte list" where
  "sigJPG = [0xFF, 0xD8, 0xFF, 0xE0, 0x00, 0x00, 0x4a, 0x46]"
definition sigTIF :: "byte list" where "sigTIF = [0x49, 0x49, 0x2A, 0x0]"
definition sigTIFF :: "byte list" where "sigTIFF = [0x4D, 0x4D, 0x0, 0x2A]"
definition sigPDF :: "byte list" where "sigPDF = [0x25, 0x50, 0x44, 0x46]"
definition sigPostscript1 :: "byte list" where
  "sigPostscript1 = [0x25, 0x21, 0x50, 0x53, 0x2d, 0x41, 0x64, 0x6f]"
definition sigGIF1 :: "byte list" where "sigGIF1 = [0x47, 0x49, 0x46, 0x38, 0x37, 0x61]"
definition sigGIF2 :: "byte list" where "sigGIF2 = [0x47, 0x49, 0x46, 0x38, 0x39, 0x61]"
definition sigPostscript2 :: "byte list" where
  "sigPostscript2 = [0x50, 0x53, 0x46, 0x2D, 0x33, 0x20, 0x30]"
definition sigPNG :: "byte list" where
  "sigPNG = [0x89, 0x50, 0x4E, 0x47, 0xD, 0xA, 0x1A, 0xA]"

lemmas sig_defs = sigWindowsexecutable_def sigJPEG_def sigJPG_def sigTIF_def sigTIFF_def
  sigPDF_def sigPostscript1_def sigGIF1_def sigGIF2_def sigPostscript2_def sigPNG_def

section \<open>guess_file_extension\<close>

text \<open>
  The argument is the content of the stream, or \<open>None\<close> for a NULL \<open>FILE *\<close>, for which
  the function returns NULL. The exception in the loop for JPG (\<open>i != 4 && i != 5\<close>)
  is always true, as \<open>i < 4\<close> there; the loop for Postscript1 stops after 4 bytes.
\<close>

definition guess_file_extension :: "byte list option \<Rightarrow> string option res" where
  "guess_file_extension source =
     (case source of
        None \<Rightarrow> Inr None
      | Some content \<Rightarrow>
          let buffer = read_pairs content 0 (replicate buffer_size None) in
          bindr (sig_mismatch (take 2 sigWindowsexecutable) buffer) (\<lambda>c1. if \<not> c1 then Inr (Some ''.exe'') else
          bindr (sig_mismatch (take 3 sigJPEG) buffer) (\<lambda>c2. if \<not> c2 then Inr (Some ''.jpeg'') else
          bindr (sig_mismatch (take 4 sigJPG) buffer) (\<lambda>c3. if \<not> c3 then Inr (Some ''.jpg'') else
          bindr (sig_mismatch (take 4 sigTIFF) buffer) (\<lambda>c4. if \<not> c4 then Inr (Some ''.tiff'') else
          bindr (sig_mismatch (take 4 sigPostscript1) buffer) (\<lambda>c5. if \<not> c5 then Inr (Some ''.ps'') else
          bindr (sig_mismatch (take 4 sigPDF) buffer) (\<lambda>c6. if \<not> c6 then Inr (Some ''.pdf'') else
          bindr (sig_mismatch (take 4 sigTIF) buffer) (\<lambda>c7. if \<not> c7 then Inr (Some ''.tif'') else
          bindr (sig_mismatch (take 6 sigGIF1) buffer) (\<lambda>c8. if \<not> c8 then Inr (Some ''.gif'') else
          bindr (sig_mismatch (take 6 sigGIF2) buffer) (\<lambda>c9. if \<not> c9 then Inr (Some ''.gif'') else
          bindr (sig_mismatch (take 7 sigPostscript2) buffer) (\<lambda>c10. if \<not> c10 then Inr (Some ''.ps'') else
          bindr (sig_mismatch (take 8 sigPNG) buffer) (\<lambda>c11. if \<not> c11 then Inr (Some ''.png'') else
          Inr (Some ''.txt'')))))))))))))"

section \<open>The table the code implements\<close>

definition sig_table :: "(byte list \<times> string) list" where
  "sig_table =
     [([0x4D, 0x5A], ''.exe''), ([0x49, 0x46, 0x0], ''.jpeg''),
      ([0xFF, 0xD8, 0xFF, 0xE0], ''.jpg''), ([0x4D, 0x4D, 0x0, 0x2A], ''.tiff''),
      ([0x25, 0x21, 0x50, 0x53], ''.ps''), ([0x25, 0x50, 0x44, 0x46], ''.pdf''),
      ([0x49, 0x49, 0x2A, 0x0], ''.tif''), ([0x47, 0x49, 0x46, 0x38, 0x37, 0x61], ''.gif''),
      ([0x47, 0x49, 0x46, 0x38, 0x39, 0x61], ''.gif''),
      ([0x50, 0x53, 0x46, 0x2D, 0x33, 0x20, 0x30], ''.ps''),
      ([0x89, 0x50, 0x4E, 0x47, 0xD, 0xA, 0x1A, 0xA], ''.png'')]"

definition has_sig :: "byte list \<Rightarrow> byte list \<Rightarrow> bool" where
  "has_sig sig content \<longleftrightarrow> take (length sig) content = sig"

fun table_lookup :: "(byte list \<times> string) list \<Rightarrow> byte list \<Rightarrow> string" where
  "table_lookup [] content = ''.txt''"
| "table_lookup ((sig, ext) # t) content =
     (if has_sig sig content then ext else table_lookup t content)"

text \<open>A run of the comparisons over a table, first match first.\<close>

fun table_scan :: "(byte list \<times> string) list \<Rightarrow> byte option list \<Rightarrow> string option res" where
  "table_scan [] buf = Inr (Some ''.txt'')"
| "table_scan ((sig, ext) # t) buf =
     bindr (sig_mismatch sig buf) (\<lambda>c. if \<not> c then Inr (Some ext) else table_scan t buf)"

lemma guess_table_scan:
  "guess_file_extension (Some content) =
     table_scan sig_table (read_pairs content 0 (replicate buffer_size None))"
  by (simp add: guess_file_extension_def sig_table_def sig_defs Let_def cong: if_cong)

lemma sig_mismatch_Some:
  "length sig \<le> length bs \<Longrightarrow> sig_mismatch sig (map Some bs @ rest) = Inr (\<not> has_sig sig bs)"
proof (induction sig arbitrary: bs)
  case (Cons x xs)
  then obtain y ys where "bs = y # ys" by (cases bs) auto
  with Cons show ?case by (auto simp: has_sig_def)
qed (simp add: has_sig_def)

lemma table_scan_lookup:
  "(\<forall>(sig, ext) \<in> set t. length sig \<le> length bs) \<Longrightarrow>
   table_scan t (map Some bs @ rest) = Inr (Some (table_lookup t bs))"
  by (induction t) (auto simp: sig_mismatch_Some)

lemma read_pairs_fills:
  "length dn = y \<Longrightarrow> even y \<Longrightarrow> y \<le> 12 \<Longrightarrow>
   \<exists>rest. read_pairs bs y (map Some dn @ replicate (20 - y) None) =
     map Some (dn @ take (min (12 - y) (2 * (length bs div 2))) bs) @ rest"
proof (induction bs arbitrary: dn y rule: induct_list012)
  case (3 b0 b1 bs)
  show ?case
  proof (cases "y < 12")
    case True
    with "3.prems"(2) have "y + 2 \<le> 12" by presburger
    then have y: "y + 2 \<le> 12" "length (dn @ [b0, b1]) = y + 2" using "3.prems"(1) by simp_all
    have "replicate (20 - y) None = None # None # replicate (20 - (y + 2)) (None :: byte option)"
      using y(1) by (simp add: replicate_Suc [symmetric] Suc_diff_le del: replicate_Suc)
    then have upd: "(map Some dn @ replicate (20 - y) None)[y := Some b0, y + 1 := Some b1] =
        map Some (dn @ [b0, b1]) @ replicate (20 - (y + 2)) None"
      using "3.prems"(1) by (simp add: list_update_append)
    have "min (12 - y) (2 * (length (b0 # b1 # bs) div 2)) =
        Suc (Suc (min (12 - (y + 2)) (2 * (length bs div 2))))" using y(1) by auto
    moreover obtain rest where
      "read_pairs bs (y + 2) (map Some (dn @ [b0, b1]) @ replicate (20 - (y + 2)) None) =
       map Some ((dn @ [b0, b1]) @ take (min (12 - (y + 2)) (2 * (length bs div 2))) bs) @ rest"
      using "3.IH"(1) [OF y(2) _ y(1)] "3.prems"(2) by auto
    ultimately show ?thesis using True upd by simp
  next
    case False
    with "3.prems"(3) show ?thesis by simp
  qed
qed auto

lemma guess_lookup:
  assumes "8 \<le> length content"
  shows "guess_file_extension (Some content) = Inr (Some (table_lookup sig_table content))"
proof -
  define m where "m = min 12 (2 * (length content div 2))"
  have m: "8 \<le> m" "m \<le> length content" using assms by (auto simp: m_def)
  from read_pairs_fills [of "[]" 0 content] obtain rest where
    "read_pairs content 0 (replicate buffer_size None) = map Some (take m content) @ rest"
    by (auto simp: m_def buffer_size_def)
  moreover have "\<forall>(sig, ext) \<in> set sig_table. length sig \<le> length (take m content)"
    using m by (simp add: sig_table_def)
  ultimately have "guess_file_extension (Some content) =
      Inr (Some (table_lookup sig_table (take m content)))"
    by (simp add: guess_table_scan table_scan_lookup)
  moreover have "has_sig sig (take m content) = has_sig sig content" if "length sig \<le> 8" for sig
    using that m by (simp add: has_sig_def min_absorb1)
  ultimately show ?thesis by (simp add: sig_table_def)
qed

text \<open>No two signatures of the table are prefixes of one file: the order does not matter.\<close>

lemma has_sig_prefix:
  assumes "has_sig a content" and "has_sig b content" and "length a \<le> length b"
  shows "take (length a) b = a"
proof -
  have "take (length a) (take (length b) content) = take (length a) content"
    by (simp only: take_take min_absorb1 [OF assms(3)])
  then show ?thesis using assms(1,2) by (simp only: has_sig_def)
qed

lemma sig_table_disjoint:
  assumes "(sig, ext) \<in> set sig_table" and "(sig', ext') \<in> set sig_table"
    and "has_sig sig content" and "has_sig sig' content"
  shows "sig = sig'"
proof -
  have prefix: "take (length a) b = a \<Longrightarrow> length a \<le> length b \<Longrightarrow> a = b"
    if "(a, e) \<in> set sig_table" "(b, e') \<in> set sig_table" for a b e e'
    using that unfolding sig_table_def by auto
  show ?thesis
  proof (cases "length sig \<le> length sig'")
    case True
    with assms has_sig_prefix prefix show ?thesis by blast
  next
    case False
    then have "length sig' \<le> length sig" by simp
    with assms has_sig_prefix prefix show ?thesis by metis
  qed
qed

lemma table_lookup_cases:
  "(\<exists>(sig, ext) \<in> set t. has_sig sig content \<and> table_lookup t content = ext) \<or>
   (\<forall>(sig, ext) \<in> set t. \<not> has_sig sig content) \<and> table_lookup t content = ''.txt''"
proof (induction t)
  case (Cons p t)
  obtain sig ext where "p = (sig, ext)" by (cases p)
  with Cons show ?case by (cases "has_sig sig content") auto
qed simp

lemma sig_table_functional:
  "(sig, ext) \<in> set sig_table \<Longrightarrow> (sig, ext') \<in> set sig_table \<Longrightarrow> ext = ext'"
  unfolding sig_table_def by auto

lemma table_lookup_order:
  assumes "set t = set sig_table"
  shows "table_lookup t content = table_lookup sig_table content"
proof (cases "\<exists>(sig, ext) \<in> set sig_table. has_sig sig content")
  case True
  then obtain sig ext where e: "(sig, ext) \<in> set sig_table" "has_sig sig content" by auto
  have "table_lookup t' content = ext" if t': "set t' = set sig_table" for t'
  proof -
    from table_lookup_cases [of t' content] e t' obtain sig' where
      "(sig', table_lookup t' content) \<in> set sig_table" "has_sig sig' content" by auto
    then show ?thesis using e sig_table_disjoint sig_table_functional by metis
  qed
  then show ?thesis using assms by metis
next
  case False
  with assms table_lookup_cases [of t content] table_lookup_cases [of sig_table content]
  show ?thesis by auto
qed

end
