(* ===== verification/Decimal.thy ===== *)
theory Decimal imports Prelude begin

text \<open>Numbers as text: \<open>printf ("%d")\<close> and \<open>atoi\<close>, and that \<open>atoi\<close> reads what \<open>%d\<close> printed.\<close>

text \<open>\<open>%d\<close> of a non-negative \<open>int\<close>.\<close>

fun dec :: "nat \<Rightarrow> string" where
  "dec n = (if n < 10 then [char_of (48 + n)] else dec (n div 10) @ [char_of (48 + n mod 10)])"

declare dec.simps [simp del]

text \<open>\<open>%i\<close> of an \<open>int\<close>.\<close>

definition dec_int :: "int \<Rightarrow> string" where
  "dec_int x = (if x < 0 then CHR ''-'' # dec (nat (- x)) else dec (nat x))"

definition newline :: string where
  "newline = [CHR 0x0A]"

text \<open>\<open>atoi\<close>: white space, an optional sign, digits.\<close>

fun atoi_digits :: "string \<Rightarrow> int \<Rightarrow> int" where
  "atoi_digits [] acc = acc"
| "atoi_digits (c # cs) acc =
     (let d = of_char c :: nat in
      if 48 \<le> d \<and> d \<le> 57 then atoi_digits cs (10 * acc + int (d - 48)) else acc)"

definition atoi :: "string \<Rightarrow> int" where
  "atoi str =
     (let cs = dropWhile (\<lambda>c. c = CHR '' '' \<or> (9 \<le> (of_char c :: nat) \<and> (of_char c :: nat) \<le> 13)) str in
      case cs of
        [] \<Rightarrow> 0
      | c # rest \<Rightarrow>
          if c = CHR ''-'' then - atoi_digits rest 0
          else if c = CHR ''+'' then atoi_digits rest 0
          else atoi_digits cs 0)"

section \<open>Lemmas\<close>

lemma of_char_digit: "n < 10 \<Longrightarrow> (of_char (char_of (48 + n :: nat) :: char) :: nat) = 48 + n"
  by simp

lemma dec_digits: "c \<in> set (dec n) \<Longrightarrow> 48 \<le> (of_char c :: nat) \<and> (of_char c :: nat) \<le> 57"
proof (induction n rule: dec.induct)
  case (1 n)
  have d: "n mod 10 < 10" by simp
  show ?case
  proof (cases "n < 10")
    case True
    with 1(2) show ?thesis using of_char_digit [OF True] by (subst (asm) dec.simps) auto
  next
    case False
    then have "dec n = dec (n div 10) @ [char_of (48 + n mod 10)]" by (subst dec.simps) simp
    with 1 False show ?thesis using of_char_digit [OF d] by auto
  qed
qed

lemma dec_nonempty [simp]: "dec n \<noteq> []"
  by (subst dec.simps) simp

lemma atoi_digits_snoc:
  "(\<And>c. c \<in> set cs \<Longrightarrow> 48 \<le> (of_char c :: nat) \<and> (of_char c :: nat) \<le> 57) \<Longrightarrow>
   atoi_digits (cs @ ds) acc = atoi_digits ds (atoi_digits cs acc)"
  by (induction cs arbitrary: acc) (auto simp: Let_def)

lemma atoi_digits_dec: "atoi_digits (dec n) 0 = int n"
proof (induction n rule: dec.induct)
  case (1 n)
  have d: "n mod 10 < 10" by simp
  show ?case
  proof (cases "n < 10")
    case True
    then have "dec n = [char_of (48 + n)]" by (subst dec.simps) simp
    then show ?thesis using of_char_digit [OF True] True by (simp add: Let_def)
  next
    case False
    then have "dec n = dec (n div 10) @ [char_of (48 + n mod 10)]" by (subst dec.simps) simp
    then have "atoi_digits (dec n) 0 = atoi_digits [char_of (48 + n mod 10)] (int (n div 10))"
      by (simp only: atoi_digits_snoc [OF dec_digits] 1 [OF False])
    also have "\<dots> = 10 * int (n div 10) + int (n mod 10)"
      unfolding atoi_digits.simps of_char_digit [OF d] Let_def using d by simp
    also have "\<dots> = int n" by presburger
    finally show ?thesis .
  qed
qed

text \<open>A space in front is skipped.\<close>

lemma atoi_dec: "atoi (CHR '' '' # dec n) = int n"
proof -
  obtain c cs where c: "dec n = c # cs" by (cases "dec n") auto
  then have "48 \<le> (of_char c :: nat)" using dec_digits [of c n] by simp
  then have "c \<noteq> CHR '' ''" "c \<noteq> CHR ''-''" "c \<noteq> CHR ''+''" "\<not> (of_char c :: nat) \<le> 13" by auto
  with atoi_digits_dec [of n] c show ?thesis by (simp add: atoi_def Let_def)
qed

lemma atoi_dec_int [simp]: "atoi (dec_int x) = x"
proof (cases "x < 0")
  case True
  with atoi_digits_dec [of "nat (- x)"] show ?thesis by (simp add: atoi_def dec_int_def)
next
  case False
  obtain c cs where c: "dec (nat x) = c # cs" by (cases "dec (nat x)") auto
  then have "48 \<le> (of_char c :: nat)" using dec_digits [of c "nat x"] by simp
  then have "c \<noteq> CHR '' ''" "c \<noteq> CHR ''-''" "c \<noteq> CHR ''+''" "\<not> (of_char c :: nat) \<le> 13" by auto
  with atoi_digits_dec [of "nat x"] c False show ?thesis by (simp add: atoi_def dec_int_def Let_def)
qed

end
