(* ===== verification/RecMain.thy ===== *)
theory RecMain imports RecExtract RecExt Decimal begin

text \<open>
  The rest of recover.c's \<open>main\<close>: the arguments, the loop that finds one inode after the
  other and writes a file for each that passes \<open>check_inode\<close>, and the final count of the
  blocks by use. The files written are a list of name and content, returned beside how the
  run ended, since a run that ends early leaves the files it has written. A file whose
  extraction does not return (an \<open>exit\<close> or an undefined read in the middle of it) is not
  in the list.

  \<open>rec_sys\<close> extends the environment of the copying routines by what the operating system
  decides: the files that can be opened, whether \<open>mmap\<close> and \<open>munmap\<close> succeed, and
  what becomes of the \<open>fork\<close> and the \<open>execlp\<close> of mv. Messages are not modelled.
\<close>

section \<open>The operating system\<close>

datatype fork_result = Fork_Failed | Exec_Failed | Moved

record rec_sys = rec_env +
  file_content :: "string \<Rightarrow> byte list option"
  mmap_ok :: bool
  munmap_ok :: bool
  fopen_w_ok :: "string \<Rightarrow> bool"
  fopen_r_ok :: "string \<Rightarrow> bool"
  fork_mv :: "string \<Rightarrow> fork_result"

type_synonym out_files = "(string \<times> byte list) list"

section \<open>One inode\<close>

text \<open>
  The body of the loop after \<open>print_inode\<close>: nothing for an invalid inode; else the data
  is extracted into a new file, the extension is guessed from what was written
  (\<open>strcat\<close> of NULL when the file cannot be opened again), and a child process moves
  the file to its new name. Without the move the file keeps its number as name.
\<close>

definition recover_file ::
  "rec_sys \<Rightarrow> inode \<Rightarrow> nat \<Rightarrow> out_files \<Rightarrow> rec_state \<Rightarrow> out_files \<times> rec_state res" where
  "recover_file sys f file_num files s =
     (if check_inode (max_block_number s) f = GEN_ERROR then (files, Inr s)
      else let output_file_name = dec file_num in
        if \<not> fopen_w_ok sys output_file_name then (files, Inl (Exit (-1)))
        else
          case extract_file (rec_env.truncate sys) (s\<lparr>out_file := []\<rparr>) f of
            Inl e \<Rightarrow> (files, Inl e)
          | Inr (data_copied, s1) \<Rightarrow>
              let written = files @ [(output_file_name, out_file s1)] in
              (case guess_file_extension
                  (if fopen_r_ok sys output_file_name then Some (out_file s1) else None) of
                Inl e \<Rightarrow> (written, Inl e)
              | Inr None \<Rightarrow> (written, Inl Null_Deref)
              | Inr (Some ext) \<Rightarrow>
                  let new_file_name = output_file_name @ ext in
                  (case fork_mv sys output_file_name of
                    Fork_Failed \<Rightarrow> (written, Inl (Exit (-1)))
                  | Exec_Failed \<Rightarrow> (written, Inr s1)
                  | Moved \<Rightarrow> (files @ [(new_file_name, out_file s1)], Inr s1))))"

section \<open>The search loop\<close>

lemma find_inode_bounds:
  "find_inode img p e u g = Inr (Some q) \<Longrightarrow> p \<le> q + 8 \<and> q + 12 \<le> e"
proof (induction "nat (e - p)" arbitrary: p rule: less_induct)
  case less
  then have "p \<le> e - 4" by (cases "p \<le> e - 4") (auto simp: find_inode_end)
  moreover from less.prems this
  have "q = p - 8 \<or> find_inode img (p + 4) e u g = Inr (Some q)"
    by (subst (asm) find_inode.simps) (auto simp: bindr_eq_Inr split: if_splits)
  ultimately show ?case using less.hyps [of "p + 4"] by auto
qed

text \<open>
  \<open>search_ptr = f + 1\<close> advances by the size of the struct, 100 bytes, from the inode found.
\<close>

function recover_loop ::
  "rec_sys \<Rightarrow> byte list \<Rightarrow> int \<Rightarrow> int \<Rightarrow> int \<Rightarrow> nat \<Rightarrow> out_files \<Rightarrow> rec_state \<Rightarrow>
   out_files \<times> rec_state res" where
  "recover_loop sys img u g search_ptr file_num files s =
     (case find_inode img search_ptr (int (length img)) u g of
        Inl e \<Rightarrow> (files, Inl e)
      | Inr None \<Rightarrow> (files, Inr s)
      | Inr (Some p) \<Rightarrow>
          (case read_inode img p of
             Inl e \<Rightarrow> (files, Inl e)
           | Inr f \<Rightarrow>
               (case recover_file sys f file_num files s of
                  (files1, Inl e) \<Rightarrow> (files1, Inl e)
                | (files1, Inr s1) \<Rightarrow>
                    recover_loop sys img u g (p + 100) (file_num + 1) files1 s1)))"
  by pat_completeness auto
termination
  by (relation "measure (\<lambda>(sys, img, u, g, p, n, files, s). nat (int (length img) - p))")
    (auto dest!: find_inode_bounds)

declare recover_loop.simps [simp del]

section \<open>The count of the blocks\<close>

record block_counts =
  unused_blocks :: "int list"
  unk_count :: int
  dbk_count :: int
  ibk_count :: int

fun count_loop :: "int list \<Rightarrow> int \<Rightarrow> block_counts \<Rightarrow> block_counts" where
  "count_loop [] pos c = c"
| "count_loop (v # vs) pos c =
     (let c1 = (if v = IS_UNKNOW then c\<lparr>unused_blocks := unused_blocks c @ [pos],
                                       unk_count := unk_count c + 1\<rparr> else c);
          c2 = (if v = IS_DBLOCK then c1\<lparr>dbk_count := dbk_count c1 + 1\<rparr> else c1);
          c3 = (if v = IS_IBLOCK then c2\<lparr>ibk_count := ibk_count c2 + 1\<rparr> else c2)
      in count_loop vs (pos + 1) c3)"

definition count_blocks :: "rec_state \<Rightarrow> block_counts" where
  "count_blocks s = count_loop (take (nat (max_block_number s)) (used_block_array s)) 0
     \<lparr>unused_blocks = [], unk_count = 0, dbk_count = 0, ibk_count = 0\<rparr>"

section \<open>main\<close>

text \<open>
  The set-up from the arguments to the allocated block array. The test of the GID compares
  the pointer \<open>argv[2]\<close>, not the number, with 0: no GID is refused.
\<close>

definition init_state :: "byte list \<Rightarrow> rec_state" where
  "init_state img =
     (let mx = signed_take_bit 31 (int (length img) div BLOCK_SIZE) in
      \<lparr>data_map = img, max_block_number = mx,
       used_block_array = replicate (nat mx) IS_UNKNOW, out_file = []\<rparr>)"

definition recover_main :: "rec_sys \<Rightarrow> string list \<Rightarrow> out_files \<times> block_counts res" where
  "recover_main sys argv =
     (if length argv < 4 then ([], Inl (Exit (-1)))
      else let search_uid = atoi (argv ! 1) in
        if search_uid < 0 then ([], Inl (Exit (-1)))
        else let search_gid = atoi (argv ! 2) in
          case file_content sys (argv ! 3) of
            None \<Rightarrow> ([], Inl (Exit (-1)))
          | Some img \<Rightarrow>
              if \<not> mmap_ok sys then ([], Inl (Exit (-1)))
              else let s0 = init_state img in
                if \<not> malloc_ok sys (nat (max_block_number s0) * 4) then ([], Inl (Exit (-1)))
                else
                  case recover_loop sys img search_uid search_gid 0 0 [] s0 of
                    (files, Inl e) \<Rightarrow> (files, Inl e)
                  | (files, Inr s) \<Rightarrow>
                      let counts = count_blocks s in
                      (files, if \<not> munmap_ok sys then Inl (Exit (-1)) else Inr counts))"

section \<open>Lemmas\<close>

lemma rec_ok_init:
  assumes "int (length img) < 2 ^ 31"
  shows "rec_ok img (int (length img) div 1024) (init_state img)"
    and "max_block_number (init_state img) = int (length img) div 1024"
proof -
  have "signed_take_bit 31 (int (length img) div 1024) = int (length img) div 1024"
    using assms by (intro signed_take_bit_int_eq_self) auto
  then show "rec_ok img (int (length img) div 1024) (init_state img)"
    and "max_block_number (init_state img) = int (length img) div 1024"
    using assms by (auto simp: rec_ok_def init_state_def Let_def BLOCK_SIZE_def IS_UNKNOW_def)
qed

lemma rec_ok_reset: "rec_ok img mx s \<Longrightarrow> rec_ok img mx (s\<lparr>out_file := []\<rparr>)"
  by (simp add: rec_ok_def)

text \<open>A recovered file: the data of an inode of the owner that passes the check.\<close>

definition recovered_data :: "byte list \<Rightarrow> int \<Rightarrow> int \<Rightarrow> int \<Rightarrow> byte list \<Rightarrow> bool" where
  "recovered_data img mx u g d \<longleftrightarrow>
     (\<exists>p f. owner_at img u g (p + 8) \<and> read_inode img p = Inr f \<and> check_inode mx f = 0 \<and>
        d = take (nat (fsize f)) (extracted_data img mx f))"

lemma sig_mismatch_error:
  "sig_mismatch sig buf = Inl e \<Longrightarrow> length sig \<le> length buf \<Longrightarrow> e = Uninit_Read"
  by (induction sig buf rule: sig_mismatch.induct) (auto split: option.splits if_splits)

lemma table_scan_error:
  "table_scan t buf = Inl e \<Longrightarrow> (\<forall>(sig, ext) \<in> set t. length sig \<le> length buf) \<Longrightarrow> e = Uninit_Read"
  by (induction t) (auto simp: bindr_eq_Inl split: if_splits dest: sig_mismatch_error)

lemma length_read_pairs: "length (read_pairs bs y buf) = length buf"
  by (induction bs y buf rule: read_pairs.induct) auto

lemma guess_error: "guess_file_extension (Some content) = Inl e \<Longrightarrow> e = Uninit_Read"
  unfolding guess_table_scan
  by (erule table_scan_error) (simp add: length_read_pairs buffer_size_def sig_table_def)

lemma table_scan_Some: "table_scan t buf = Inr r \<Longrightarrow> \<exists>ext. r = Some ext"
  by (induction t) (auto simp: bindr_eq_Inr split: if_splits)

text \<open>
  The outcomes of one inode: nothing for an invalid one, a read past \<open>block_buffer\<close>, or a
  file with the extracted data, after which the run may still end: at the unwritten bytes of
  the signature buffer, or because the system refuses to open or to fork.
\<close>

lemma recover_file_cases:
  assumes env: "env_good (rec_env.truncate sys)" and ok: "rec_ok img mx s"
    and len: "length (dblocks f) = 12" "length (iblocks f) = 3"
  shows "(check_inode mx f \<noteq> 0 \<and> recover_file sys f n files s = (files, Inr s))
    \<or> recover_file sys f n files s = (files, Inl Out_Of_Bounds)
    \<or> (\<not> fopen_w_ok sys (dec n) \<and> recover_file sys f n files s = (files, Inl (Exit (-1))))
    \<or> (check_inode mx f = 0 \<and> (\<exists>name r. recover_file sys f n files s =
           (files @ [(name, take (nat (fsize f)) (extracted_data img mx f))], r) \<and>
         (case r of Inr s' \<Rightarrow> rec_ok img mx s'
          | Inl e \<Rightarrow> e = Uninit_Read \<or> \<not> fopen_r_ok sys (dec n) \<or> fork_mv sys (dec n) = Fork_Failed)))"
proof (cases "check_inode mx f = 0")
  case False
  then show ?thesis using ok check_inode_values [of mx f]
    by (simp add: recover_file_def rec_ok_def)
next
  case True
  let ?d = "take (nat (fsize f)) (extracted_data img mx f)"
  let ?run = "extract_file (rec_env.truncate sys) (s\<lparr>out_file := []\<rparr>) f"
  have chk: "check_inode (max_block_number s) f \<noteq> GEN_ERROR"
    using True ok by (simp add: rec_ok_def GEN_ERROR_def)
  have "env_good (rec_env.truncate sys) \<and> rec_ok img mx (s\<lparr>out_file := []\<rparr>)"
    using env rec_ok_reset [OF ok] by simp
  from extract_file_out [OF this True len] consider
      (past) "?run = Inl Out_Of_Bounds"
    | (copied) k s1 where "?run = Inr (k, s1)" "rec_ok img mx s1" "out_file s1 = ?d" by auto
  then show ?thesis
  proof cases
    case past
    then show ?thesis using chk by (simp add: recover_file_def Let_def)
  next
    case copied
    have "guess_file_extension (Some ?d) = Inl Uninit_Read \<or>
        (\<exists>ext. guess_file_extension (Some ?d) = Inr (Some ext))"
      using guess_error [of ?d] table_scan_Some unfolding guess_table_scan
      by (metis sum.exhaust)
    then show ?thesis using chk copied True
      by (cases "fopen_r_ok sys (dec n)"; cases "fork_mv sys (dec n)")
        (auto simp: recover_file_def Let_def guess_file_extension_def [of None])
  qed
qed

lemma find_inode_Some_owner:
  assumes "find_inode img p (int (length img)) u g = Inr (Some q)" and "0 \<le> p"
  shows "owner_at img u g (q + 8)"
  using find_inode_cases [OF assms(2) refl, of img u g] assms(1) by (auto split: if_splits)

lemma recover_file_keeps:
  assumes env: "env_good (rec_env.truncate sys)" and ok: "rec_ok img mx s"
    and f: "read_inode img q = Inr f" "owner_at img u g (q + 8)"
    and files: "\<forall>(name, d) \<in> set files. recovered_data img mx u g d"
    and run: "recover_file sys f n files s = (files1, r)"
  shows "(\<forall>s1. r = Inr s1 \<longrightarrow> rec_ok img mx s1) \<and>
    (\<forall>(name, d) \<in> set files1. recovered_data img mx u g d)"
proof -
  have "check_inode mx f = 0 \<Longrightarrow>
      recovered_data img mx u g (take (nat (fsize f)) (extracted_data img mx f))"
    using f by (auto simp: recovered_data_def)
  then show ?thesis
    using recover_file_cases [OF env ok read_inode_lengths [OF f(1)], of n files] run files ok
    by (auto split: sum.splits)
qed

lemma recover_loop_invariant:
  "env_good (rec_env.truncate sys) \<Longrightarrow> rec_ok img mx s \<Longrightarrow> 0 \<le> p \<Longrightarrow>
    (\<forall>(name, d) \<in> set files. recovered_data img mx u g d) \<Longrightarrow>
    recover_loop sys img u g p n files s = (files', r) \<Longrightarrow>
    (\<forall>s'. r = Inr s' \<longrightarrow> rec_ok img mx s') \<and> (\<forall>(name, d) \<in> set files'. recovered_data img mx u g d)"
proof (induction sys img u g p n files s rule: recover_loop.induct)
  case (1 sys img u g p n files s)
  from "1.prems"(5) consider
      (stop) "files' = files" "\<forall>s'. r = Inr s' \<longrightarrow> s' = s"
    | (found) q f files1 r1 where "find_inode img p (int (length img)) u g = Inr (Some q)"
        "read_inode img q = Inr f" "recover_file sys f n files s = (files1, r1)"
        "case r1 of Inl e \<Rightarrow> files' = files1 \<and> r = Inl e
         | Inr s1 \<Rightarrow> recover_loop sys img u g (q + 100) (n + 1) files1 s1 = (files', r)"
    by (subst (asm) recover_loop.simps) (auto split: sum.splits option.splits prod.splits)
  then show ?case
  proof cases
    case stop
    with "1.prems"(2,4) show ?thesis by blast
  next
    case found
    have own: "owner_at img u g (q + 8)" using found(1) "1.prems"(3) by (rule find_inode_Some_owner)
    have q: "0 \<le> q + 100" using find_inode_bounds [OF found(1)] "1.prems"(3) by simp
    note keep = recover_file_keeps [OF "1.prems"(1,2) found(2) own "1.prems"(4) found(3)]
    show ?thesis
    proof (cases r1)
      case (Inl e)
      with keep found(4) show ?thesis by simp
    next
      case (Inr s1)
      from found(4) Inr have rest: "recover_loop sys img u g (q + 100) (n + 1) files1 s1 = (files', r)"
        by simp
      show ?thesis
        by (rule "1.IH" [OF found(1) refl found(2) found(3) [unfolded Inr, symmetric] refl "1.prems"(1) _ q _ rest])
          (use keep Inr in auto)
    qed
  qed
qed

lemma recover_loop_errors:
  "env_good (rec_env.truncate sys) \<Longrightarrow> rec_ok img mx s \<Longrightarrow> 0 \<le> p \<Longrightarrow>
    (\<forall>name. fopen_w_ok sys name \<and> fopen_r_ok sys name \<and> fork_mv sys name \<noteq> Fork_Failed) \<Longrightarrow>
    recover_loop sys img u g p n files s = (files', Inl e) \<Longrightarrow> e = Out_Of_Bounds \<or> e = Uninit_Read"
proof (induction sys img u g p n files s rule: recover_loop.induct)
  case (1 sys img u g p n files s)
  from "1.prems"(5) consider
      (seek) "find_inode img p (int (length img)) u g = Inl e"
    | (head) q where "find_inode img p (int (length img)) u g = Inr (Some q)"
        "read_inode img q = Inl e"
    | (body) q f where "find_inode img p (int (length img)) u g = Inr (Some q)"
        "read_inode img q = Inr f" "recover_file sys f n files s = (files', Inl e)"
    | (rest) q f files1 s1 where "find_inode img p (int (length img)) u g = Inr (Some q)"
        "read_inode img q = Inr f" "recover_file sys f n files s = (files1, Inr s1)"
        "recover_loop sys img u g (q + 100) (n + 1) files1 s1 = (files', Inl e)"
    by (subst (asm) recover_loop.simps) (auto split: sum.splits option.splits prod.splits)
  then show ?case
  proof cases
    case seek
    then show ?thesis using find_inode_cases [OF "1.prems"(3) refl, of img u g]
      by (auto split: if_splits)
  next
    case head
    then show ?thesis by (auto simp: read_inode_def bindr_eq_Inl read_bytes_def Let_def split: if_splits)
  next
    case body
    then show ?thesis
      using recover_file_cases [OF "1.prems"(1,2) read_inode_lengths [OF body(2)], of n files]
        "1.prems"(4) by auto
  next
    case rest
    have q: "0 \<le> q + 100" using find_inode_bounds [OF rest(1)] "1.prems"(3) by simp
    have ok: "rec_ok img mx s1"
      using recover_file_cases [OF "1.prems"(1,2) read_inode_lengths [OF rest(2)], of n files]
        rest(3) "1.prems"(2) by auto
    show ?thesis
      by (rule "1.IH" [OF rest(1) refl rest(2) rest(3)[symmetric] refl "1.prems"(1) ok q "1.prems"(4) rest(4)])
  qed
qed

lemma count_loop_total:
  "set vs \<subseteq> {0, 1, 2} \<Longrightarrow>
   unk_count (count_loop vs pos c) + dbk_count (count_loop vs pos c) + ibk_count (count_loop vs pos c) =
   unk_count c + dbk_count c + ibk_count c + int (length vs)"
proof (induction vs arbitrary: pos c)
  case (Cons v vs)
  then consider "v = 0" | "v = 1" | "v = 2" by auto
  then show ?case using Cons by cases (simp_all add: IS_UNKNOW_def IS_DBLOCK_def IS_IBLOCK_def)
qed simp

lemma count_loop_unused:
  "unused_blocks (count_loop vs pos c) =
   unused_blocks c @ map (\<lambda>i. pos + int i) (filter (\<lambda>i. vs ! i = IS_UNKNOW) [0..<length vs])"
proof (induction vs arbitrary: pos c)
  case (Cons v vs)
  have up: "[0..<length (v # vs)] = 0 # map Suc [0..<length vs]"
    by (simp add: upt_conv_Cons map_Suc_upt del: upt_Suc)
  have "map (\<lambda>i. pos + 1 + int i) is = map (\<lambda>i. pos + int (Suc i)) is" for "is"
    by simp
  then show ?case unfolding up using Cons
    by (simp add: Let_def filter_map o_def IS_UNKNOW_def IS_DBLOCK_def IS_IBLOCK_def)
qed simp

lemma count_blocks_total:
  assumes "rec_ok img mx s" and "0 \<le> mx"
  shows "unk_count (count_blocks s) + dbk_count (count_blocks s) + ibk_count (count_blocks s) = mx"
proof -
  have "set (take (nat mx) (used_block_array s)) \<subseteq> {0, 1, 2}"
    using assms(1) set_take_subset [of "nat mx" "used_block_array s"] by (auto simp: rec_ok_def)
  from count_loop_total [OF this] show ?thesis using assms
    by (simp add: count_blocks_def rec_ok_def)
qed

end
