(* ===== verification/RecProps.thy ===== *)
theory RecProps imports RecMain begin

text \<open>
  The properties of the recovery program (Asmt_6), each with a witness on a small image,
  and the example objects the witnesses use.
\<close>

section \<open>Example objects\<close>

definition ex_env :: rec_env where
  "ex_env = \<lparr>malloc_ok = (\<lambda>n. True), fwrite_count = (\<lambda>out n. n)\<rparr>"

definition ex_sys :: "byte list \<Rightarrow> rec_sys" where
  "ex_sys img = \<lparr>malloc_ok = (\<lambda>n. True), fwrite_count = (\<lambda>out n. n),
     file_content = (\<lambda>name. Some img), mmap_ok = True, munmap_ok = True,
     fopen_w_ok = (\<lambda>name. True), fopen_r_ok = (\<lambda>name. True), fork_mv = (\<lambda>name. Moved)\<rparr>"

text \<open>
  Four blocks: block 0 points to block 1, block 1 is all sevens, block 2 points to block 0
  and block 3 to block 2; the unused entries of the three are -1.
\<close>

definition ex_pointer :: "byte \<Rightarrow> byte list" where
  "ex_pointer n = [n, 0, 0, 0] @ replicate 1020 255"

definition ex_img :: "byte list" where
  "ex_img = ex_pointer 1 @ replicate 1024 7 @ ex_pointer 0 @ ex_pointer 2"

definition ex_state :: rec_state where
  "ex_state = \<lparr>data_map = ex_img, max_block_number = 4, used_block_array = [0, 0, 0, 0],
     out_file = []\<rparr>"

definition ex_inode :: "int \<Rightarrow> inode" where
  "ex_inode sz = \<lparr>foo = 0, nlink = 1, uid = 7, gid = 9, fsize = sz, ctime = 0, mtime = 0,
     atime = 0, dblocks = [1, 0, 1, 0, 0, 0, 0, 0, 0, 0, 0, 0], iblocks = [0, 0, 0],
     i2block = 2, i3block = 3\<rparr>"

text \<open>An image whose indirect blocks mark their unused entries with 0, and hence are full.\<close>

definition ex_zeros :: rec_state where
  "ex_zeros = \<lparr>data_map = replicate 4096 0, max_block_number = 4,
     used_block_array = [0, 0, 0, 0], out_file = []\<rparr>"

lemma ex_env_good: "env_good ex_env"
  by (simp add: env_good_def ex_env_def)

lemma ex_sys_good: "env_good (rec_env.truncate (ex_sys img))"
  by (simp add: env_good_def ex_sys_def rec_env.truncate_def)

lemma ex_state_ok: "rec_ok ex_img 4 ex_state"
  by (simp add: rec_ok_def ex_state_def ex_img_def ex_pointer_def BLOCK_SIZE_def)

lemma ex_zeros_ok: "rec_ok (replicate 4096 0) 4 ex_zeros"
  by (simp add: rec_ok_def ex_zeros_def BLOCK_SIZE_def)

lemma ex_inode_ok: "check_inode 4 (ex_inode n) = 0" "length (dblocks (ex_inode n)) = 12"
  "length (iblocks (ex_inode n)) = 3" "fsize (ex_inode n) = n"
  by (simp_all add: check_inode_ok_iff ex_inode_def)

lemma ex_blocks:
  "block_data ex_img 0 = ex_pointer 1" "block_data ex_img 1 = replicate 1024 7"
  "block_data ex_img 2 = ex_pointer 0" "block_data ex_img 3 = ex_pointer 2"
  by (simp_all add: block_data_def ex_img_def ex_pointer_def)

lemma ex_pointers:
  "pointers ex_img 4 0 = [1]" "pointers ex_img 4 1 = []"
  "pointers ex_img 4 2 = [0]" "pointers ex_img 4 3 = [2]"
proof -
  have e: "replicate 1020 (255::byte) = [255, 255, 255, 255] @ replicate 1016 255"
    "replicate 1024 (7::byte) = [7, 7, 7, 7] @ replicate 1020 7"
    by (simp_all add: replicate_add [symmetric] numeral_eq_Suc)
  have v: "int_of_bytes [255, 255, 255, 255] = -1" "int_of_bytes [7, 7, 7, 7] = 117901063"
    "int_of_bytes [1, 0, 0, 0] = 1" "int_of_bytes [0, 0, 0, 0] = 0" "int_of_bytes [2, 0, 0, 0] = 2"
    by code_simp+
  show "pointers ex_img 4 0 = [1]" "pointers ex_img 4 1 = []"
    "pointers ex_img 4 2 = [0]" "pointers ex_img 4 3 = [2]"
    by (simp_all only: pointers_def ex_blocks ex_pointer_def e) (simp_all add: v)
qed

lemma ex_contents:
  "i1_content ex_img 4 0 = replicate 1024 7" "i2_content ex_img 4 2 = replicate 1024 7"
  by (simp_all add: i1_content_def i2_content_def ex_pointers ex_blocks)

lemma ex_lengths:
  "length (direct_data ex_img (ex_inode n)) = 12288"
  "length (indirect_data ex_img 4 (ex_inode n)) = 15360"
  "length (double_data ex_img 4 (ex_inode n)) = 16384"
  by (simp_all add: direct_data_def indirect_data_def double_data_def ex_inode_def
      ex_blocks ex_contents ex_pointer_def)

lemma ex_not_full: "\<not> unwinds_full ex_img 4 (ex_inode n)"
  by (auto simp: unwinds_full_def unwound_blocks_def i2_blocks_def full_block_def ex_inode_def
      ex_pointers split: if_splits)

lemma ex_zeros_full: "full_block (replicate 4096 0) 4 0"
proof -
  have "ints_of_bytes (block_data (replicate 4096 0) 0) = replicate 256 0"
    using ints_of_bytes_replicate_0 [of 256] by (simp add: block_data_def)
  then show ?thesis using pointers_prefix(2) [OF ex_zeros_ok, of 0] by (simp add: valid_block_def)
qed

lemma ex_zeros_unwinds_full: "unwinds_full (replicate 4096 0) 4 (ex_inode 16000)"
proof -
  have "length (block_data (replicate 4096 0) b) = 1024" if "valid_block 4 b" for b
    using that by (rule length_block_data) (simp add: BLOCK_SIZE_def)
  then have "length (direct_data (replicate 4096 0) (ex_inode 16000)) = 12288"
    by (simp add: direct_data_def ex_inode_def valid_block_def)
  then show ?thesis using ex_zeros_full by (simp add: unwinds_full_def unwound_blocks_def ex_inode_def)
qed

section \<open>Extraction\<close>

text \<open>
  C1. Extraction of an inode that passes \<open>check_inode\<close> writes exactly the file the inode
  describes, or reads past a buffer. Assumed are a \<open>malloc\<close> and an \<open>fwrite\<close> that never
  fail, the globals as \<open>main\<close> sets them up for an image below 2 GB, and a file that fits
  into its direct, indirect and doubly indirect blocks. When none of the indirect blocks it
  has to unwind is full (all 256 entries block numbers), \<open>extract_file\<close> returns with
  \<open>size\<close> bytes copied, and the output file has grown by the first \<open>size\<close> bytes of the
  blocks in the order of the pointers. When one of them is full, the outcome is the read of
  \<open>block_buffer[256]\<close>. A level is unwound exactly when the levels before it hold less
  data than the file has.
\<close>

theorem extract_file_refines:
  assumes "env_good env" and "rec_ok img mx s" and "check_inode mx f = 0"
    and "length (dblocks f) = 12" and "length (iblocks f) = 3"
    and "0 \<le> fsize f" and "nat (fsize f) \<le> double_capacity img mx f"
  shows "if \<exists>b \<in> set (unwound_blocks img mx f). full_block img mx b
    then extract_file env s f = Inl Out_Of_Bounds
    else \<exists>s'. extract_file env s f = Inr (fsize f, s') \<and> rec_ok img mx s' \<and>
      out_file s' = out_file s @ take (nat (fsize f)) (file_data img mx f)"
proof -
  have "take (nat (fsize f)) (extracted_data img mx f) = take (nat (fsize f)) (file_data img mx f)"
    using assms(7) by (simp add: extracted_data_def file_data_def double_capacity_def)
  moreover have "min (fsize f) (int (length (extracted_data img mx f))) = fsize f"
    using assms(6,7) by (simp add: extracted_data_def double_capacity_def)
  ultimately show ?thesis
    using extract_file_spec [of env img mx s f] assms(1-6) by (auto simp: copied_def unwinds_full_def)
qed

theorem extract_file_refines_witness:
  "(\<exists>s'. extract_file ex_env ex_state (ex_inode 16000) = Inr (16000, s') \<and> rec_ok ex_img 4 s' \<and>
      out_file s' = take 16000 (file_data ex_img 4 (ex_inode 16000))) \<and>
   extract_file ex_env ex_zeros (ex_inode 16000) = Inl Out_Of_Bounds"
proof
  have "nat (fsize (ex_inode 16000)) \<le> double_capacity ex_img 4 (ex_inode 16000)"
    by (simp add: double_capacity_def ex_lengths ex_inode_ok(4))
  from extract_file_refines [OF ex_env_good ex_state_ok ex_inode_ok(1-3) _ this]
  show "\<exists>s'. extract_file ex_env ex_state (ex_inode 16000) = Inr (16000, s') \<and> rec_ok ex_img 4 s' \<and>
      out_file s' = take 16000 (file_data ex_img 4 (ex_inode 16000))"
    using ex_not_full [of 16000] by (simp add: ex_inode_ok(4) ex_state_def unwinds_full_def)
  show "extract_file ex_env ex_zeros (ex_inode 16000) = Inl Out_Of_Bounds"
    using extract_file_spec [of ex_env _ 4 ex_zeros "ex_inode 16000"] ex_env_good ex_zeros_ok
      ex_inode_ok [of 16000] ex_zeros_unwinds_full by (auto simp: copied_def)
qed

text \<open>
  C2. The third level of indirection is not followed. Under the assumptions of C1, but for a
  file of any size: unless one of the indirect blocks to unwind is full (then the program
  reads past \<open>block_buffer\<close>), it appends past the doubly indirect block the data of the
  doubly indirect block again, once for every pointer of the triply indirect block, up to
  \<open>size\<close> bytes in all. The blocks which those pointers name are never read, so a file that
  needs the third level is not recovered.
\<close>

theorem triple_level_repeats_double:
  assumes "env_good env" and "rec_ok img mx s" and "check_inode mx f = 0"
    and "length (dblocks f) = 12" and "length (iblocks f) = 3" and "0 \<le> fsize f"
  shows "if \<exists>b \<in> set (unwound_blocks img mx f). full_block img mx b
    then extract_file env s f = Inl Out_Of_Bounds
    else \<exists>k s'. extract_file env s f = Inr (k, s') \<and>
      out_file s' = out_file s @ take (nat (fsize f))
        (concat (map (block_data img) (dblocks f)) @ concat (map (i1_content img mx) (iblocks f)) @
         concat (replicate (1 + length (pointers img mx (i3block f))) (i2_content img mx (i2block f))))"
proof -
  have "extracted_data img mx f =
      concat (map (block_data img) (dblocks f)) @ concat (map (i1_content img mx) (iblocks f)) @
      concat (replicate (1 + length (pointers img mx (i3block f))) (i2_content img mx (i2block f)))"
    by (simp add: extracted_data_def double_data_def indirect_data_def direct_data_def
        i3_content_as_coded_def map_replicate_const)
  with extract_file_spec [of env img mx s f] assms show ?thesis
    by (auto simp: copied_def unwinds_full_def)
qed

theorem triple_level_repeats_double_witness:
  "\<exists>k s'. extract_file ex_env ex_state (ex_inode 17000) = Inr (k, s') \<and>
    out_file s' = take 17000
      (concat (map (block_data ex_img) (dblocks (ex_inode 17000))) @
       concat (map (i1_content ex_img 4) (iblocks (ex_inode 17000))) @
       concat (replicate 2 (replicate 1024 7)))"
proof -
  have "0 \<le> fsize (ex_inode 17000)" by (simp add: ex_inode_ok(4))
  note run = triple_level_repeats_double [OF ex_env_good ex_state_ok ex_inode_ok(1-3) this]
  have "length (pointers ex_img 4 (i3block (ex_inode 17000))) = 1"
    "i2_content ex_img 4 (i2block (ex_inode 17000)) = replicate 1024 7"
    by (simp_all add: ex_inode_def ex_pointers ex_contents)
  then show ?thesis using run ex_not_full [of 17000]
    by (simp only: unwinds_full_def if_False ex_inode_ok(4)) (simp add: ex_state_def numeral_2_eq_2)
qed

section \<open>The whole program\<close>

text \<open>
  C3. Everything \<open>main\<close> writes comes from an inode of the owner asked for, however the run
  ends. When \<open>malloc\<close> and \<open>fwrite\<close> do not fail and the image is below 2 GB, each file
  that the run has written, whether it returns, exits or ends in an undefined read, holds the
  extracted data of an inode whose uid and gid fields are the two arguments and which passed
  \<open>check_inode\<close> (a file whose extraction is cut off by the read past \<open>block_buffer\<close> has no
  defined content and is not among them); and when the run returns, the final report
  partitions the blocks of the image into unknown, data and indirect blocks.
\<close>

theorem recover_main_sound:
  assumes "env_good (rec_env.truncate sys)" and "file_content sys (argv ! 3) = Some img"
    and "int (length img) < 2 ^ 31" and "recover_main sys argv = (files, r)"
  shows "(\<forall>(name, d) \<in> set files.
      recovered_data img (int (length img) div 1024) (atoi (argv ! 1)) (atoi (argv ! 2)) d) \<and>
    (\<forall>c. r = Inr c \<longrightarrow> unk_count c + dbk_count c + ibk_count c = int (length img) div 1024)"
proof -
  let ?mx = "int (length img) div 1024"
  from assms(2,4) consider (none) "files = []" "\<exists>e. r = Inl e"
    | (run) r' where
      "recover_loop sys img (atoi (argv ! 1)) (atoi (argv ! 2)) 0 0 [] (init_state img) = (files, r')"
      "\<forall>c. r = Inr c \<longrightarrow> (\<exists>s. r' = Inr s \<and> c = count_blocks s)"
    by (auto simp: recover_main_def Let_def split: if_splits prod.splits sum.splits)
  then show ?thesis
  proof cases
    case none
    then show ?thesis by auto
  next
    case run
    from recover_loop_invariant [OF assms(1) rec_ok_init(1) [OF assms(3)] _ _ run(1)]
    have "\<forall>s. r' = Inr s \<longrightarrow> rec_ok img ?mx s"
      "\<forall>(name, d) \<in> set files. recovered_data img ?mx (atoi (argv ! 1)) (atoi (argv ! 2)) d" by auto
    with run(2) count_blocks_total [of img ?mx] show ?thesis by force
  qed
qed

text \<open>A small image: an inode of uid 7 and gid 9 with 10 bytes of data in block 0.\<close>

definition ex_disk :: "byte list" where
  "ex_disk = [1,0,0,0, 1,0,0,0, 7,0,0,0, 9,0,0,0, 10,0,0,0] @ replicate 1004 0"

definition ex_disk_inode :: inode where
  "ex_disk_inode = \<lparr>foo = 1, nlink = 1, uid = 7, gid = 9, fsize = 10, ctime = 0, mtime = 0, atime = 0,
     dblocks = replicate 12 0, iblocks = replicate 3 0, i2block = 0, i3block = 0\<rparr>"

lemma ex_disk_length: "length ex_disk = 1024"
  by (simp add: ex_disk_def)

lemma ex_disk_zeros:
  assumes "read_int ex_disk p = Inr a" and "20 \<le> p"
  shows "a = 0"
proof -
  from assms(2) obtain n where n: "nat p = 20 + n"
    by (metis le_iff_add nat_le_iff nat_numeral nat_mono)
  have "drop 20 ex_disk = replicate 1004 0" by (simp add: ex_disk_def)
  then have "drop (20 + n) ex_disk = replicate (1004 - n) 0"
    by (metis add.commute drop_drop drop_replicate)
  moreover have "p + 4 \<le> 1024" and a: "a = int_of_bytes (take 4 (drop (nat p) ex_disk))"
    using assms(1) by (auto simp: read_int_def ex_disk_length split: if_splits)
  ultimately have "a = int_of_bytes (replicate 4 0)" using n assms(2)
    by (simp add: min_absorb1)
  also have "\<dots> = 0" by code_simp
  finally show ?thesis .
qed

lemma ex_disk_run:
  "find_inode ex_disk 0 1024 7 9 = Inr (Some 0)"
  "read_inode ex_disk 0 = Inr ex_disk_inode"
  "recover_file (ex_sys ex_disk) ex_disk_inode 0 [] (init_state ex_disk) =
     ([(''0.txt'', [1,0,0,0,1,0,0,0,7,0])],
       Inr \<lparr>data_map = ex_disk, max_block_number = 1, used_block_array = [1],
        out_file = [1,0,0,0,1,0,0,0,7,0]\<rparr>)"
  by code_simp+

lemma ex_disk_rest: "find_inode ex_disk 100 1024 7 9 = Inr None"
proof -
  have no: "read_int ex_disk (100 + 4 * int k) \<noteq> Inr 7" for k
    using ex_disk_zeros [of "100 + 4 * int k" 7] by auto
  then have "\<not> owner_at ex_disk 7 9 (100 + 4 * int k)" for k
    by (simp add: owner_at_def)
  with no find_inode_cases [of 100 1024 ex_disk 7 9] ex_disk_length show ?thesis by auto
qed

lemma ex_disk_main:
  "recover_main (ex_sys ex_disk) [''recover'', ''7'', ''9'', ''disk''] =
     ([(''0.txt'', [1,0,0,0,1,0,0,0,7,0])],
       Inr \<lparr>unused_blocks = [], unk_count = 0, dbk_count = 1, ibk_count = 0\<rparr>)"
proof -
  have "atoi ''7'' = 7" "atoi ''9'' = 9" by code_simp+
  moreover have "recover_loop (ex_sys ex_disk) ex_disk 7 9 0 0 [] (init_state ex_disk) =
      ([(''0.txt'', [1,0,0,0,1,0,0,0,7,0])],
        Inr \<lparr>data_map = ex_disk, max_block_number = 1, used_block_array = [1],
         out_file = [1,0,0,0,1,0,0,0,7,0]\<rparr>)"
    by (simp add: recover_loop.simps ex_disk_length ex_disk_run ex_disk_rest)
  ultimately show ?thesis
    by (simp add: recover_main_def ex_sys_def [of ex_disk] Let_def)
      (simp add: ex_sys_def count_blocks_def IS_UNKNOW_def IS_DBLOCK_def IS_IBLOCK_def)
qed

theorem recover_main_sound_witness:
  "recovered_data ex_disk 1 (atoi ''7'') (atoi ''9'') [1,0,0,0,1,0,0,0,7,0] \<and>
   recover_main (ex_sys ex_disk) [''recover'', ''7'', ''9'', ''disk''] =
     ([(''0.txt'', [1,0,0,0,1,0,0,0,7,0])],
       Inr \<lparr>unused_blocks = [], unk_count = 0, dbk_count = 1, ibk_count = 0\<rparr>)"
  using recover_main_sound [OF ex_sys_good _ _ ex_disk_main, of ex_disk] ex_disk_main
  by (simp add: ex_sys_def ex_disk_length)



section \<open>Searching and checking inodes\<close>

text \<open>
  C5. \<open>find_inode\<close> finds the first inode of the owner: it returns \<open>f\<close> exactly when the
  int pair (uid, gid) stands 8 bytes after \<open>f\<close>, at a multiple of 4 bytes from the start, and at
  no earlier one. Both must match, though recover.h promises an inode in which either does.
\<close>

theorem find_inode_first:
  assumes "0 \<le> start"
  shows "find_inode img start (int (length img)) u g = Inr (Some f) \<longleftrightarrow>
    (\<exists>k. f = start + 4 * int k - 8 \<and> owner_at img u g (start + 4 * int k) \<and>
       (\<forall>j < k. \<not> owner_at img u g (start + 4 * int j)))"
    (is "?l \<longleftrightarrow> (\<exists>k. f = ?f k \<and> ?first k)")
proof -
  have uniq: "k = k'" if "?first k" "?first k'" for k k'
    using that by (metis linorder_neqE_nat)
  from find_inode_cases [OF assms refl, of img u g] show ?thesis
  proof (elim disjE exE conjE)
    fix k assume "owner_at img u g (start + 4 * int k)"
      "\<forall>j<k. \<not> owner_at img u g (start + 4 * int j)"
      and r: "find_inode img start (int (length img)) u g = Inr (Some (?f k))"
    then have k: "?first k" by blast
    show ?thesis
    proof
      assume ?l
      with r k show "\<exists>k. f = ?f k \<and> ?first k" by auto
    next
      assume "\<exists>k. f = ?f k \<and> ?first k"
      then obtain k' where "f = ?f k'" "?first k'" by blast
      with uniq [OF k] r show ?l by auto
    qed
  qed (auto split: if_splits)
qed

theorem find_inode_first_witness:
  "find_inode [7,0,0,0, 7,0,0,0, 9,0,0,0] 0 12 7 9 = Inr (Some (-4)) \<longleftrightarrow>
    (\<exists>k. -4 = 0 + 4 * int k - 8 \<and> owner_at [7,0,0,0, 7,0,0,0, 9,0,0,0] 7 9 (0 + 4 * int k) \<and>
       (\<forall>j < k. \<not> owner_at [7,0,0,0, 7,0,0,0, 9,0,0,0] 7 9 (0 + 4 * int j)))"
  using find_inode_first [of 0 "[7,0,0,0, 7,0,0,0, 9,0,0,0]" 7 9 "-4"] by simp

text \<open>
  The search reads past the end of the mapping exactly when no inode of the owner is left
  and the last int it looks at equals the uid: the loop bound leaves room for one int, the
  body reads two.
\<close>

theorem find_inode_reads_past_end:
  assumes "0 \<le> start"
  shows "find_inode img start (int (length img)) u g = Inl Out_Of_Bounds \<longleftrightarrow>
    (\<forall>k. \<not> owner_at img u g (start + 4 * int k)) \<and>
    (\<exists>k. read_int img (start + 4 * int k) = Inr u \<and> int (length img) < start + 4 * int k + 8)"
  using find_inode_cases [OF assms refl, of img u g] by (auto split: if_splits)

theorem find_inode_reads_past_end_witness:
  "find_inode [1,0,0,0, 7,0,0,0] 0 8 7 9 = Inl Out_Of_Bounds \<longleftrightarrow>
    (\<forall>k. \<not> owner_at [1,0,0,0, 7,0,0,0] 7 9 (0 + 4 * int k)) \<and>
    (\<exists>k. read_int [1,0,0,0, 7,0,0,0] (0 + 4 * int k) = Inr 7 \<and> 8 < 0 + 4 * int k + 8)"
  using find_inode_reads_past_end [of 0 "[1,0,0,0, 7,0,0,0]" 7 9] by simp

section \<open>Copying\<close>

text \<open>
  Every branch of \<open>copy_dblock\<close> on a block of the image: a negative request and a failed
  \<open>malloc\<close> change nothing and return their codes; a short \<open>fwrite\<close> leaves its bytes in the
  output, returns \<open>BLOCK_COPY_ERROR\<close> and does not mark the block; otherwise the first
  min(bytes, 1024) bytes of the block are appended, their number is returned and the block
  is marked as a data block.
\<close>

theorem copy_dblock_branches:
  assumes "rec_ok img mx s" and "valid_block mx b"
  shows "copy_dblock env s b bytes =
    (let n = min bytes 1024; d = take (nat n) (block_data img b);
         w = fwrite_count env (out_file s) (length d) in
     if bytes < 0 then Inr (NEG_BYTE_REQ, s)
     else if \<not> malloc_ok env (nat n) then Inr (GEN_ERROR, s)
     else if w < length d then Inr (BLOCK_COPY_ERROR, s\<lparr>out_file := out_file s @ take w d\<rparr>)
     else Inr (n, s\<lparr>out_file := out_file s @ d,
                    used_block_array := (used_block_array s)[nat b := IS_DBLOCK]\<rparr>))"
proof (cases "bytes < 0")
  case False
  define n where "n = min bytes 1024"
  define d where "d = take (nat n) (block_data img b)"
  have n: "0 \<le> n" "n \<le> 1024" "(if bytes > BLOCK_SIZE then BLOCK_SIZE else bytes) = n"
    using False by (auto simp: n_def BLOCK_SIZE_def)
  have "length (block_data img b) = 1024"
    using assms by (intro length_block_data [of mx]) (auto simp: rec_ok_def)
  then have len: "int (length d) = n" using n by (simp add: d_def)
  have rd: "read_bytes (data_map s) (BLOCK_SIZE * b) n = Inr d"
    using block_offset(2) [OF assms n(1,2)] by (simp add: d_def)
  have "int (nat b) = b" "nat b < length (used_block_array s)"
    using assms by (auto simp: valid_block_def rec_ok_def)
  then have mark: "mark_block (s\<lparr>out_file := out\<rparr>) b IS_DBLOCK =
      Inr (s\<lparr>out_file := out, used_block_array := (used_block_array s)[nat b := IS_DBLOCK]\<rparr>)" for out
    using assms(2) by (auto simp: mark_block_def valid_block_def)
  let ?w = "fwrite_count env (out_file s) (length d)"
  have short: "?w < length d \<Longrightarrow> fwrite_bytes env s d = (int ?w, s\<lparr>out_file := out_file s @ take ?w d\<rparr>)"
    by (simp add: fwrite_bytes_def min_absorb1 Let_def)
  have full: "\<not> ?w < length d \<Longrightarrow> fwrite_bytes env s d = (n, s\<lparr>out_file := out_file s @ d\<rparr>)"
    using len by (simp add: fwrite_bytes_def min_absorb2 Let_def)
  have "copy_dblock env s b bytes =
     (if \<not> malloc_ok env (nat n) then Inr (GEN_ERROR, s)
      else if ?w < length d then Inr (BLOCK_COPY_ERROR, s\<lparr>out_file := out_file s @ take ?w d\<rparr>)
      else Inr (n, s\<lparr>out_file := out_file s @ d,
                     used_block_array := (used_block_array s)[nat b := IS_DBLOCK]\<rparr>))"
    using False len short full mark
    by (cases "?w < length d") (simp_all add: copy_dblock_def n(3) block_offset(1) [OF assms] rd)
  then show ?thesis using False by (simp add: Let_def n_def [symmetric] d_def [symmetric])
qed (simp add: copy_dblock_def)

theorem copy_dblock_branches_witness:
  "copy_dblock ex_env ex_state 1 3 =
     Inr (3, ex_state\<lparr>out_file := [7, 7, 7], used_block_array := [0, 1, 0, 0]\<rparr>)"
proof -
  have "valid_block 4 1" by (simp add: valid_block_def)
  moreover have "take 3 (block_data ex_img 1) = [7, 7, 7]"
    by (simp add: ex_blocks numeral_eq_Suc)
  ultimately show ?thesis
    using copy_dblock_branches [OF ex_state_ok, of 1 ex_env 3]
    by (simp add: ex_env_def ex_state_def IS_DBLOCK_def)
qed

text \<open>
  C6. \<open>unwind_iblock\<close> works only on blocks that end in an invalid number. On a block of the
  image all of whose 256 entries are block numbers, which is every indirect block whose unused
  entries are 0, it reads \<open>block_buffer[256]\<close>, behind the array. On any other it returns
  the position of the first invalid entry and marks the block as indirect; it never returns
  \<open>NO_POINTERS_IN_IBLOCK\<close>, not even when the first entry is invalid already, because the
  entry it compares with 0 is one that the loop has found not to be a block number.
\<close>

theorem unwind_iblock_cases:
  assumes "rec_ok img mx s" and "valid_block mx b"
  shows "if \<forall>x \<in> set (ints_of_bytes (block_data img b)). valid_block mx x
    then unwind_iblock env s b = Inl Out_Of_Bounds
    else \<exists>n < 256. unwind_iblock env s b = Inr (int n, ints_of_bytes (block_data img b),
        s\<lparr>used_block_array := (used_block_array s)[nat b := IS_IBLOCK]\<rparr>) \<and>
      (\<forall>i < n. valid_block mx (ints_of_bytes (block_data img b) ! i)) \<and>
      \<not> valid_block mx (ints_of_bytes (block_data img b) ! n)"
proof (cases "full_block img mx b")
  case True
  then show ?thesis using pointers_prefix(2) [OF assms] unwind_iblock_full [OF assms] by simp
next
  case False
  let ?buf = "ints_of_bytes (block_data img b)" and ?n = "length (pointers img mx b)"
  have n: "?n < 256" using pointers_prefix(1) [OF assms] False by (simp add: full_block_def)
  have pre: "pointers img mx b ! i = ?buf ! i" if "i < ?n" for i
    using that by (simp add: pointers_def takeWhile_nth)
  have "valid_block mx (?buf ! i)" if "i < ?n" for i
    using pointers_valid [of img mx b] that by (simp add: pre [symmetric])
  moreover obtain s' where s': "unwind_iblock env s b = Inr (int ?n, ?buf, s')"
    using unwind_iblock_spec [OF assms False, of env] by blast
  moreover have "mark_block s b IS_IBLOCK = Inr s'"
    using s' by (auto simp: unwind_iblock_def bindr_eq_Inr Let_def NO_POINTERS_IN_IBLOCK_def split: if_splits)
  then have "s' = s\<lparr>used_block_array := (used_block_array s)[nat b := IS_IBLOCK]\<rparr>"
    by (auto simp: mark_block_def split: if_splits)
  ultimately show ?thesis
    using n False pointers_prefix(2) [OF assms] pointers_prefix(3) [OF assms n] by auto
qed

theorem unwind_iblock_cases_witness:
  "unwind_iblock ex_env ex_zeros 0 = Inl Out_Of_Bounds \<and>
   (\<exists>n < 256. unwind_iblock ex_env ex_state 1 = Inr (int n, ints_of_bytes (replicate 1024 7),
      ex_state\<lparr>used_block_array := [0, 2, 0, 0]\<rparr>))"
proof
  have "\<forall>x \<in> set (ints_of_bytes (block_data (replicate 4096 0) 0)). valid_block 4 x"
    using ex_zeros_full pointers_prefix(2) [OF ex_zeros_ok, of 0] by (simp add: valid_block_def)
  then show "unwind_iblock ex_env ex_zeros 0 = Inl Out_Of_Bounds"
    using unwind_iblock_cases [OF ex_zeros_ok, of 0 ex_env] by (simp add: valid_block_def)
  have v: "valid_block 4 1" by (simp add: valid_block_def)
  have "\<not> full_block ex_img 4 1" by (simp add: full_block_def ex_pointers)
  then have "\<not> (\<forall>x \<in> set (ints_of_bytes (block_data ex_img 1)). valid_block 4 x)"
    using pointers_prefix(2) [OF ex_state_ok v] by simp
  from unwind_iblock_cases [OF ex_state_ok v, of ex_env, unfolded if_not_P [OF this], unfolded ex_blocks]
  show "\<exists>n < 256. unwind_iblock ex_env ex_state 1 = Inr (int n, ints_of_bytes (replicate 1024 7),
      ex_state\<lparr>used_block_array := [0, 2, 0, 0]\<rparr>)"
    by (auto simp: ex_blocks ex_state_def IS_IBLOCK_def)
qed

section \<open>Guessing the file type\<close>

text \<open>
  On a file of at least 8 bytes \<open>guess_file_extension\<close> is a total table lookup in which the
  order of the comparisons does not matter: for any arrangement of the signature table the
  result is the extension of the signature the file starts with, and .txt without one.
\<close>

theorem guess_order_independent:
  assumes "8 \<le> length content" and "set table = set sig_table"
  shows "guess_file_extension (Some content) = Inr (Some (table_lookup table content))"
  using guess_lookup [OF assms(1)] table_lookup_order [OF assms(2)] by simp

theorem guess_order_independent_witness:
  "guess_file_extension (Some [0x47, 0x49, 0x46, 0x38, 0x39, 0x61, 1, 2]) =
     Inr (Some (table_lookup (rev sig_table) [0x47, 0x49, 0x46, 0x38, 0x39, 0x61, 1, 2])) \<and>
   table_lookup (rev sig_table) [0x47, 0x49, 0x46, 0x38, 0x39, 0x61, 1, 2] = ''.gif''"
proof
  show "guess_file_extension (Some [0x47, 0x49, 0x46, 0x38, 0x39, 0x61, 1, 2]) =
     Inr (Some (table_lookup (rev sig_table) [0x47, 0x49, 0x46, 0x38, 0x39, 0x61, 1, 2]))"
    by (rule guess_order_independent) simp_all
qed (simp add: sig_table_def has_sig_def)

text \<open>
  A recovered file of fewer than two bytes makes \<open>guess_file_extension\<close> compare bytes of its
  buffer that were never written.
\<close>

theorem guess_short_file_uninit:
  assumes "length content < 2"
  shows "guess_file_extension (Some content) = Inl Uninit_Read"
proof -
  from assms have "content = [] \<or> (\<exists>b. content = [b])"
    by (cases content rule: remdups_adj.cases) auto
  then show ?thesis
    by (auto simp: guess_table_scan sig_table_def buffer_size_def numeral_eq_Suc)
qed

theorem guess_short_file_uninit_witness: "guess_file_extension (Some [0x4D]) = Inl Uninit_Read"
  by (rule guess_short_file_uninit) simp

section \<open>Arguments\<close>

text \<open>
  The GID argument is never refused: with everything else in order, a negative GID reaches
  the search like any other (the code tests the pointer \<open>argv[2]\<close> instead of the number), while
  a negative UID exits.
\<close>

theorem gid_not_checked:
  assumes "4 \<le> length argv" and "file_content sys (argv ! 3) = Some img" and "mmap_ok sys"
    and "munmap_ok sys" and "\<forall>n. malloc_ok sys n"
  shows "recover_main sys argv =
    (if atoi (argv ! 1) < 0 then ([], Inl (Exit (-1)))
     else case recover_loop sys img (atoi (argv ! 1)) (atoi (argv ! 2)) 0 0 [] (init_state img) of
            (files, Inl e) \<Rightarrow> (files, Inl e)
          | (files, Inr s) \<Rightarrow> (files, Inr (count_blocks s)))"
  using assms by (simp add: recover_main_def Let_def)

theorem gid_not_checked_witness:
  "recover_main (ex_sys []) [''recover'', ''7'', ''-9'', ''disk''] =
     ([], Inr \<lparr>unused_blocks = [], unk_count = 0, dbk_count = 0, ibk_count = 0\<rparr>) \<and> atoi ''-9'' = -9"
proof -
  have "atoi ''7'' = 7" and a: "atoi ''-9'' = -9" by code_simp+
  moreover have "recover_loop (ex_sys []) [] 7 (-9) 0 0 [] (init_state []) = ([], Inr (init_state []))"
    by (simp add: recover_loop.simps find_inode_end)
  moreover have "count_blocks (init_state []) =
      \<lparr>unused_blocks = [], unk_count = 0, dbk_count = 0, ibk_count = 0\<rparr>" by code_simp
  ultimately show ?thesis
    using gid_not_checked [of "[''recover'', ''7'', ''-9'', ''disk'']" "ex_sys []" "[]"]
    by (simp add: ex_sys_def)
qed

end
