(* ===== verification/RecPrint.thy ===== *)
theory RecPrint imports RecMain "HOL-Library.Monad_Syntax" begin

text \<open>
  \<open>print_inode\<close> of recover.c, which \<open>main\<close> calls for every inode it finds, and a reader that gets the
  inode back from what was printed. The text of the address, \<open>%p\<close>, is a parameter.
\<close>

section \<open>print_inode\<close>

definition print_field :: "string \<Rightarrow> int \<Rightarrow> string" where
  "print_field label x = label @ '': '' @ dec_int x @ newline"

definition print_blocks :: "nat \<Rightarrow> int list \<Rightarrow> string" where
  "print_blocks n bs =
     concat (map (\<lambda>i. dec_int (bs ! i) @ (if i + 1 \<noteq> n then '', '' else '']'' @ newline)) [0..<n])"

definition print_inode :: "string \<Rightarrow> inode option \<Rightarrow> string" where
  "print_inode address node =
     (case node of
        None \<Rightarrow> ''NULL POINTER'' @ newline
      | Some f \<Rightarrow>
          ''address: '' @ address @ newline @
          print_field ''foo'' (foo f) @ print_field ''nlink'' (nlink f) @
          print_field ''uid'' (uid f) @ print_field ''gid'' (gid f) @
          print_field ''size'' (fsize f) @ print_field ''ctime'' (ctime f) @
          print_field ''mtime'' (mtime f) @ print_field ''atime'' (atime f) @
          ''dblocks: ['' @ print_blocks N_DBLOCKS (dblocks f) @
          ''iblocks: ['' @ print_blocks N_IBLOCKS (iblocks f) @
          print_field ''i2block'' (i2block f) @ print_field ''i3block'' (i3block f))"

section \<open>A reader\<close>

fun expect :: "string \<Rightarrow> string \<Rightarrow> string option" where
  "expect [] s = Some s"
| "expect (c # cs) [] = None"
| "expect (c # cs) (d # ds) = (if c = d then expect cs ds else None)"

definition num_char :: "char \<Rightarrow> bool" where
  "num_char c \<longleftrightarrow> c = CHR ''-'' \<or> (48 \<le> (of_char c :: nat) \<and> (of_char c :: nat) \<le> 57)"

definition scan_int :: "string \<Rightarrow> int \<times> string" where
  "scan_int s = (atoi (takeWhile num_char s), dropWhile num_char s)"

definition scan_field :: "string \<Rightarrow> string \<Rightarrow> (int \<times> string) option" where
  "scan_field label s = do {
     s1 \<leftarrow> expect (label @ '': '') s;
     s2 \<leftarrow> expect newline (snd (scan_int s1));
     Some (fst (scan_int s1), s2) }"

primrec scan_blocks :: "nat \<Rightarrow> string \<Rightarrow> (int list \<times> string) option" where
  "scan_blocks 0 s = Some ([], s)"
| "scan_blocks (Suc n) s = do {
     s1 \<leftarrow> expect (if n \<noteq> 0 then '', '' else '']'' @ newline) (snd (scan_int s));
     (bs, s2) \<leftarrow> scan_blocks n s1;
     Some (fst (scan_int s) # bs, s2) }"

definition scan_inode :: "string \<Rightarrow> inode option" where
  "scan_inode s0 = do {
     s1 \<leftarrow> expect newline (dropWhile (\<lambda>c. c \<noteq> CHR 0x0A) s0);
     (v1, s2) \<leftarrow> scan_field ''foo'' s1;
     (v2, s3) \<leftarrow> scan_field ''nlink'' s2;
     (v3, s4) \<leftarrow> scan_field ''uid'' s3;
     (v4, s5) \<leftarrow> scan_field ''gid'' s4;
     (v5, s6) \<leftarrow> scan_field ''size'' s5;
     (v6, s7) \<leftarrow> scan_field ''ctime'' s6;
     (v7, s8) \<leftarrow> scan_field ''mtime'' s7;
     (v8, s9) \<leftarrow> scan_field ''atime'' s8;
     s10 \<leftarrow> expect ''dblocks: ['' s9;
     (d, s11) \<leftarrow> scan_blocks N_DBLOCKS s10;
     s12 \<leftarrow> expect ''iblocks: ['' s11;
     (i, s13) \<leftarrow> scan_blocks N_IBLOCKS s12;
     (v9, s14) \<leftarrow> scan_field ''i2block'' s13;
     (v10, s15) \<leftarrow> scan_field ''i3block'' s14;
     Some \<lparr>foo = v1, nlink = v2, uid = v3, gid = v4, fsize = v5, ctime = v6, mtime = v7, atime = v8,
       dblocks = d, iblocks = i, i2block = v9, i3block = v10\<rparr> }"

section \<open>The reader reads what was printed\<close>

lemma expect_append [simp]: "expect a (a @ s) = Some s"
  by (induction a) auto

lemma dec_num_char: "c \<in> set (dec_int x) \<Longrightarrow> num_char c"
  using dec_digits by (auto simp: dec_int_def num_char_def split: if_splits)

lemma scan_int_dec_int:
  assumes "s = [] \<or> \<not> num_char (hd s)"
  shows "scan_int (dec_int x @ s) = (x, s)"
proof -
  have "takeWhile num_char s = []" "dropWhile num_char s = s" using assms by (cases s; simp)+
  then show ?thesis using dec_num_char [of _ x] by (simp add: scan_int_def)
qed

lemma scan_int_delimited [simp]:
  "scan_int (dec_int x @ '', '' @ s) = (x, '', '' @ s)"
  "scan_int (dec_int x @ '']'' @ s) = (x, '']'' @ s)"
  "scan_int (dec_int x @ newline @ s) = (x, newline @ s)"
  by (simp_all add: scan_int_dec_int num_char_def newline_def)

lemma scan_field_print [simp]: "scan_field label (print_field label x @ s) = Some (x, s)"
  using expect_append [of "label @ '': ''" "dec_int x @ newline @ s"]
  by (simp add: scan_field_def print_field_def del: append.simps(2))

lemma scan_field_last [simp]: "scan_field label (print_field label x) = Some (x, [])"
  using scan_field_print [of label x "[]"] by simp

lemma print_blocks_Cons:
  "print_blocks (Suc n) (b # bs) = dec_int b @ (if n \<noteq> 0 then '', '' else '']'' @ newline) @ print_blocks n bs"
proof -
  have "[0..<Suc n] = 0 # map Suc [0..<n]" by (simp add: upt_conv_Cons map_Suc_upt del: upt_Suc)
  then show ?thesis by (simp add: print_blocks_def comp_def del: upt_Suc)
qed

lemma scan_blocks_print: "length bs = n \<Longrightarrow> scan_blocks n (print_blocks n bs @ s) = Some (bs, s)"
proof (induction bs arbitrary: n)
  case (Cons b bs)
  then obtain m where m: "n = Suc m" "length bs = m" by auto
  show ?case
  proof (cases "m = 0")
    case True
    have "scan_int (dec_int b @ '']'' @ newline @ s) = (b, ('']'' @ newline) @ s)"
      using scan_int_delimited(2) [of b "newline @ s"] by simp
    moreover have "bs = []" using True m(2) by simp
    ultimately show ?thesis using True m(1)
      by (simp add: print_blocks_def del: append.simps(2)) (simp only: expect_append append_assoc [symmetric], simp)
  next
    case False
    with m(1) show ?thesis using Cons.IH [OF m(2)]
      by (simp add: print_blocks_Cons del: append.simps(2))
  qed
qed (simp add: print_blocks_def)

text \<open>Whatever inode is read from an image, all of its fields are read back from what is printed of it.\<close>

lemma print_inode_reads_back:
  assumes "read_inode img p = Inr f" and "CHR 0x0A \<notin> set address"
  shows "scan_inode (print_inode address (Some f)) = Some f"
proof -
  have "length (dblocks f) = N_DBLOCKS" "length (iblocks f) = N_IBLOCKS"
    using read_inode_lengths [OF assms(1)] by (simp_all add: rec_consts)
  moreover have "dropWhile (\<lambda>c. c \<noteq> CHR 0x0A) (address @ t) = dropWhile (\<lambda>c. c \<noteq> CHR 0x0A) t" for t
    using assms(2) by (intro dropWhile_append2) auto
  then have "dropWhile (\<lambda>c. c \<noteq> CHR 0x0A) (''address: '' @ address @ newline @ s) = newline @ s" for s
    by (simp add: newline_def)
  ultimately show ?thesis
    by (simp add: scan_inode_def print_inode_def scan_blocks_print del: append.simps(2))
qed

end
