(* ===== verification/HeapPath.thy ===== *)
theory HeapPath imports Prelude begin

text \<open>
  Linked structures in the heap, used by the lists of Asmt_1 and Asmt_3 and by the thread
  circle and the wait queues of Asmt_4. A link function \<open>nx\<close> gives for an address of a
  live object the pointer in its \<open>next\<close> field. \<open>path nx p as q\<close> says that following
  \<open>next\<close> from \<open>p\<close> visits the addresses \<open>as\<close> and arrives at \<open>q\<close>: with \<open>q = None\<close>
  it describes a NULL terminated list, with \<open>q = p\<close> a circle.
\<close>

primrec path :: "(nat \<Rightarrow> ptr option) \<Rightarrow> ptr \<Rightarrow> nat list \<Rightarrow> ptr \<Rightarrow> bool" where
  "path nx p [] q \<longleftrightarrow> p = q"
| "path nx p (a # as) q \<longleftrightarrow> p = Some a \<and> (\<exists>r. nx a = Some r \<and> path nx r as q)"

lemma path_append [simp]:
  "path nx p (as @ bs) q \<longleftrightarrow> (\<exists>r. path nx p as r \<and> path nx r bs q)"
  by (induction as arbitrary: p) auto

lemma path_cong:
  "(\<And>a. a \<in> set as \<Longrightarrow> nx a = nx' a) \<Longrightarrow> path nx p as q \<longleftrightarrow> path nx' p as q"
  by (induction as arbitrary: p) auto

lemma path_fun_upd [simp]: "a \<notin> set as \<Longrightarrow> path (nx(a := v)) p as q \<longleftrightarrow> path nx p as q"
  by (rule path_cong) auto

text \<open>A path up to its last element, and the link of that.\<close>

lemma path_last:
  "as \<noteq> [] \<Longrightarrow> path nx p as q \<longleftrightarrow> path nx p (butlast as) (Some (last as)) \<and> nx (last as) = Some q"
  by (cases as rule: rev_cases) auto

lemma path_start: "path nx p as q \<Longrightarrow> p = (case as of [] \<Rightarrow> q | a # _ \<Rightarrow> Some a)"
  by (cases as) auto

lemma path_nonempty: "path nx p as q \<Longrightarrow> as \<noteq> [] \<Longrightarrow> p = Some (hd as)"
  by (cases as) auto

lemma path_live: "path nx p as q \<Longrightarrow> a \<in> set as \<Longrightarrow> nx a \<noteq> None"
  by (induction as arbitrary: p) auto

lemma path_null: "path nx None as None \<longleftrightarrow> as = []"
  by (cases as) auto

text \<open>The list is determined by its start and end when it ends in NULL.\<close>

lemma path_unique: "path nx p as None \<Longrightarrow> path nx p bs None \<Longrightarrow> as = bs"
proof (induction as arbitrary: p bs)
  case Nil
  then show ?case by (cases bs) auto
next
  case (Cons a as)
  then show ?case by (cases bs) auto
qed

lemma path_None_distinct: "path nx p as None \<Longrightarrow> distinct as"
proof (induction as arbitrary: p)
  case (Cons a as)
  then obtain r where r: "nx a = Some r" "path nx r as None" by auto
  have "a \<notin> set as"
  proof
    assume "a \<in> set as"
    then obtain us vs where as: "as = us @ a # vs" by (auto simp: in_set_conv_decomp)
    with r have "path nx r vs None" by auto
    with r(2) have "as = vs" by (rule path_unique)
    with as have "length vs = length us + 1 + length vs" by simp
    then show False by simp
  qed
  with Cons r show ?case by auto
qed simp

text \<open>Taking an element out of a NULL terminated list: its predecessor is tied to its successor.\<close>

lemma path_remove:
  assumes "path nx p (us @ [u] @ a # vs) None" and "nx a = Some q"
    and "\<And>b. b \<in> set (us @ u # vs) \<Longrightarrow> nx' b = (if b = u then Some q else nx b)"
  shows "path nx' p (us @ u # vs) None"
proof -
  have dist: "distinct (us @ [u] @ a # vs)" using path_None_distinct [OF assms(1)] .
  from assms(1,2) have "path nx p us (Some u)" "path nx q vs None" by auto
  moreover have "path nx p us (Some u) \<longleftrightarrow> path nx' p us (Some u)"
    by (rule path_cong) (use dist assms(3) in auto)
  moreover have "path nx q vs None \<longleftrightarrow> path nx' q vs None"
    by (rule path_cong) (use dist assms(3) in auto)
  moreover have "nx' u = Some q" using assms(3) by simp
  ultimately show ?thesis by auto
qed

lemma last_notin_butlast: "distinct xs \<Longrightarrow> xs \<noteq> [] \<Longrightarrow> last xs \<notin> set (butlast xs)"
  by (cases xs rule: rev_cases) auto

section \<open>Circles\<close>

definition ring :: "(nat \<Rightarrow> ptr option) \<Rightarrow> nat list \<Rightarrow> bool" where
  "ring nx xs \<longleftrightarrow> xs \<noteq> [] \<and> distinct xs \<and> path nx (Some (hd xs)) xs (Some (hd xs))"

lemma ring_rotated:
  "ring nx (us @ vs) \<Longrightarrow> vs \<noteq> [] \<Longrightarrow> path nx (Some (hd vs)) (vs @ us) (Some (hd vs))"
  by (cases us) (auto simp: ring_def dest: path_nonempty)

lemma ring_successor:
  assumes "ring nx (us @ c # vs)"
  shows "nx c = Some (Some (hd (vs @ us @ [c])))"
    and "path nx (Some (hd (vs @ us @ [c]))) (vs @ us) (Some c)"
proof -
  from ring_rotated [OF assms] obtain r where
    r: "nx c = Some r" "path nx r (vs @ us) (Some c)" by auto
  have "r = Some (hd (vs @ us @ [c]))"
  proof (cases "vs @ us = []")
    case False
    then have "hd (vs @ us @ [c]) = hd (vs @ us)" by (metis append_assoc hd_append2)
    with r(2) False show ?thesis by (metis path_nonempty)
  qed (use r in auto)
  with r show "nx c = Some (Some (hd (vs @ us @ [c])))"
    and "path nx (Some (hd (vs @ us @ [c]))) (vs @ us) (Some c)" by simp_all
qed

lemma ring_live: "ring nx xs \<Longrightarrow> a \<in> set xs \<Longrightarrow> nx a \<noteq> None"
  by (auto simp: ring_def dest: path_live)

text \<open>By position: the element after the last is the first.\<close>

lemma ring_next_nth:
  assumes "ring nx xs" and "i < length xs"
  shows "nx (xs ! i) = Some (Some (xs ! (Suc i mod length xs)))"
proof -
  have split: "xs = take i xs @ xs ! i # drop (Suc i) xs" using assms(2) by (rule id_take_nth_drop)
  with assms(1) have "ring nx (take i xs @ xs ! i # drop (Suc i) xs)" by simp
  note succ = ring_successor(1) [OF this]
  show ?thesis
  proof (cases "Suc i < length xs")
    case True
    then show ?thesis using succ by (simp add: hd_drop_conv_nth)
  next
    case False
    with assms(2) have "Suc i = length xs" by simp
    moreover have "hd (take i xs @ [xs ! i]) = xs ! 0"
      using assms(2) by (cases i; cases xs) simp_all
    ultimately show ?thesis using succ by simp
  qed
qed

lemma ring_rotate: "ring nx (us @ vs) \<Longrightarrow> ring nx (vs @ us)"
  using ring_rotated [of nx us vs] by (cases "vs = []") (auto simp: ring_def hd_append)

text \<open>Taking an element out: its predecessor is tied to its successor.\<close>

lemma ring_remove:
  assumes "ring nx (us @ c # vs)" and "us @ vs \<noteq> []"
    and "\<And>a. a \<in> set (us @ vs) \<Longrightarrow>
      nx' a = (if a = last (vs @ us) then Some (Some (hd (vs @ us))) else nx a)"
  shows "ring nx' (us @ vs)"
proof (rule ring_rotate)
  define ws where "ws = vs @ us"
  have ne: "ws \<noteq> []" and dist: "distinct (c # ws)" and set_ws: "set ws = set (us @ vs)"
    using assms(1,2) by (auto simp: ring_def ws_def)
  have "hd (ws @ [c]) = hd ws" using ne by simp
  with ring_successor(2) [OF assms(1)] have "path nx (Some (hd ws)) ws (Some c)"
    by (simp add: ws_def)
  then have "path nx (Some (hd ws)) (butlast ws @ [last ws]) (Some c)" using ne by simp
  then have "path nx (Some (hd ws)) (butlast ws) (Some (last ws))" by auto
  moreover have "nx a = nx' a" if "a \<in> set (butlast ws)" for a
  proof -
    have "distinct (butlast ws @ [last ws])" using ne dist by simp
    then have "a \<noteq> last ws" using that by auto
    then show ?thesis using assms(3) [of a] in_set_butlastD [OF that] set_ws ws_def by auto
  qed
  ultimately have "path nx' (Some (hd ws)) (butlast ws) (Some (last ws))"
    using path_cong [of "butlast ws" nx nx'] by blast
  moreover have "nx' (last ws) = Some (Some (hd ws))"
    using assms(3) [of "last ws"] ne last_in_set [of ws] set_ws ws_def by auto
  ultimately have "path nx' (Some (hd ws)) (butlast ws @ [last ws]) (Some (hd ws))"
    unfolding path_append by auto
  then have "path nx' (Some (hd ws)) ws (Some (hd ws))" using ne by simp
  then show "ring nx' (vs @ us)" using ne dist unfolding ring_def ws_def [symmetric] by simp
qed

end
