(* ===== verification/Qsort.thy ===== *)
theory Qsort imports Prelude begin

text \<open>
  The C library's \<open>qsort\<close>, used by the list of Asmt_1 and Asmt_3 and by the scheduler and
  the mutex of Asmt_4. It is a parameter of the model: a function of the comparison and the
  array. What the standard promises is \<open>qsort_ok\<close>: for a comparison that orders the
  elements consistently the result is a permutation of the array in ascending order; the order of
  elements that compare equal is unspecified.

  The locale \<open>keyed_comparison\<close> is the contract a comparison function fulfils: its sign is
  that of the order of a key. Each comparison function of the sources is shown to be one.
\<close>

type_synonym 'a qsort = "('a \<Rightarrow> 'a \<Rightarrow> int) \<Rightarrow> 'a list \<Rightarrow> 'a list"

definition consistent :: "('a \<Rightarrow> 'a \<Rightarrow> int) \<Rightarrow> 'a set \<Rightarrow> bool" where
  "consistent cmp A \<longleftrightarrow>
     (\<forall>a \<in> A. \<forall>b \<in> A. cmp a b \<le> 0 \<or> cmp b a \<le> 0) \<and>
     (\<forall>a \<in> A. \<forall>b \<in> A. \<forall>c \<in> A. cmp a b \<le> 0 \<longrightarrow> cmp b c \<le> 0 \<longrightarrow> cmp a c \<le> 0)"

lemma consistent_mono: "consistent cmp A \<Longrightarrow> B \<subseteq> A \<Longrightarrow> consistent cmp B"
  unfolding consistent_def by (meson subsetD)

definition qsort_ok :: "'a qsort \<Rightarrow> bool" where
  "qsort_ok qs \<longleftrightarrow> (\<forall>cmp xs. consistent cmp (set xs) \<longrightarrow>
     mset (qs cmp xs) = mset xs \<and> sorted_wrt (\<lambda>a b. cmp a b \<le> 0) (qs cmp xs))"

locale keyed_comparison =
  fixes cmp :: "'a \<Rightarrow> 'a \<Rightarrow> int" and key :: "'a \<Rightarrow> 'k :: linorder" and A :: "'a set"
  assumes cmp_le: "a \<in> A \<Longrightarrow> b \<in> A \<Longrightarrow> cmp a b \<le> 0 \<longleftrightarrow> key a \<le> key b"
begin

lemma consistent_subset: "B \<subseteq> A \<Longrightarrow> consistent cmp B"
  unfolding consistent_def using cmp_le by (meson linear order_trans subsetD)

lemma qsort_mset: "qsort_ok qs \<Longrightarrow> set xs \<subseteq> A \<Longrightarrow> mset (qs cmp xs) = mset xs"
  using consistent_subset by (auto simp: qsort_ok_def)

lemma qsort_set: "qsort_ok qs \<Longrightarrow> set xs \<subseteq> A \<Longrightarrow> set (qs cmp xs) = set xs"
  using qsort_mset mset_eq_setD by blast

lemma qsort_length: "qsort_ok qs \<Longrightarrow> set xs \<subseteq> A \<Longrightarrow> length (qs cmp xs) = length xs"
  using qsort_mset mset_eq_length by blast

lemma qsort_distinct:
  "qsort_ok qs \<Longrightarrow> set xs \<subseteq> A \<Longrightarrow> distinct (qs cmp xs) = distinct xs"
  using qsort_mset mset_eq_imp_distinct_iff by blast

lemma qsort_sorted: "qsort_ok qs \<Longrightarrow> set xs \<subseteq> A \<Longrightarrow> sorted (map key (qs cmp xs))"
proof -
  assume qs: "qsort_ok qs" and xs: "set xs \<subseteq> A"
  then have "sorted_wrt (\<lambda>a b. cmp a b \<le> 0) (qs cmp xs)"
    using consistent_subset by (auto simp: qsort_ok_def)
  then have "sorted_wrt (\<lambda>a b. key a \<le> key b) (qs cmp xs)"
    by (rule sorted_wrt_mono_rel [rotated]) (use qsort_set [OF qs xs] xs cmp_le in blast)
  then show ?thesis by (simp add: sorted_map)
qed

end

section \<open>An instance\<close>

text \<open>Insertion sort fulfils the contract; the witnesses run with it.\<close>

fun insert_cmp :: "('a \<Rightarrow> 'a \<Rightarrow> int) \<Rightarrow> 'a \<Rightarrow> 'a list \<Rightarrow> 'a list" where
  "insert_cmp cmp x [] = [x]"
| "insert_cmp cmp x (y # ys) = (if cmp x y \<le> 0 then x # y # ys else y # insert_cmp cmp x ys)"

definition insertion_sort :: "'a qsort" where
  "insertion_sort cmp xs = foldr (insert_cmp cmp) xs []"

lemma mset_insert_cmp: "mset (insert_cmp cmp x ys) = add_mset x (mset ys)"
  by (induction ys) auto

lemma set_insert_cmp: "set (insert_cmp cmp x ys) = insert x (set ys)"
  by (induction ys) auto

lemma sorted_insert_cmp:
  "consistent cmp (insert x (set ys)) \<Longrightarrow> sorted_wrt (\<lambda>a b. cmp a b \<le> 0) ys \<Longrightarrow>
   sorted_wrt (\<lambda>a b. cmp a b \<le> 0) (insert_cmp cmp x ys)"
proof (induction ys)
  case (Cons y ys)
  have "consistent cmp (insert x (set ys))"
    using Cons.prems(1) by (rule consistent_mono) auto
  with Cons have IH: "sorted_wrt (\<lambda>a b. cmp a b \<le> 0) (insert_cmp cmp x ys)" by simp
  show ?case
  proof (cases "cmp x y \<le> 0")
    case True
    have "cmp x z \<le> 0" if z: "z \<in> set ys" for z
    proof -
      have "cmp y z \<le> 0" using Cons.prems(2) z by simp
      with True show ?thesis using Cons.prems(1) z unfolding consistent_def
        by (meson insertCI list.set_intros)
    qed
    with True Cons.prems(2) show ?thesis by simp
  next
    case False
    then have "cmp y x \<le> 0" using Cons.prems(1) unfolding consistent_def by simp
    with False IH Cons.prems(2) show ?thesis by (simp add: set_insert_cmp)
  qed
qed simp

lemma insertion_sort_ok: "qsort_ok insertion_sort"
proof -
  have "mset (insertion_sort cmp xs) = mset xs \<and> sorted_wrt (\<lambda>a b. cmp a b \<le> 0) (insertion_sort cmp xs)"
    if "consistent cmp (set xs)" for cmp :: "'a \<Rightarrow> 'a \<Rightarrow> int" and xs
    using that
  proof (induction xs)
    case (Cons x xs)
    have "consistent cmp (set xs)" using Cons.prems by (rule consistent_mono) auto
    with Cons have IH: "mset (insertion_sort cmp xs) = mset xs"
      "sorted_wrt (\<lambda>a b. cmp a b \<le> 0) (insertion_sort cmp xs)" by simp_all
    have step: "insertion_sort cmp (x # xs) = insert_cmp cmp x (insertion_sort cmp xs)"
      by (simp add: insertion_sort_def)
    from IH(1) have "set (insertion_sort cmp xs) = set xs" by (rule mset_eq_setD)
    with Cons.prems IH(2) have "sorted_wrt (\<lambda>a b. cmp a b \<le> 0) (insertion_sort cmp (x # xs))"
      unfolding step by (intro sorted_insert_cmp) simp_all
    with IH(1) step show ?case by (simp add: mset_insert_cmp)
  qed (simp add: insertion_sort_def)
  then show ?thesis by (simp add: qsort_ok_def)
qed

end
