(* ===== verification/UThread.thy ===== *)
theory UThread imports HeapPath Qsort begin

text \<open>
  The preemptive user-level threads of Asmt_4 (uthread.c, uthread.h): a circle of threads
  linked through \<open>next\<close>, kept sorted by priority (0 is the highest) from \<open>head_thread\<close> to
  \<open>tail_thread\<close>, with \<open>current_thread\<close> running. The file is compiled for Linux: the
  branches for Apple and FreeBSD are left out, and a thread that exits is freed by
  \<open>free_stack\<close> on the clean-up context.

  The execution of the threads is not modelled, only which of them runs: a context is
  \<open>Captured\<close> (by \<open>getcontext\<close> or \<open>swapcontext\<close>) or starts a function. What the C
  library and the kernel decide is the record \<open>ut_env\<close>; \<open>qsort\<close> is the parameter described in
  theory Qsort.
\<close>

section \<open>State\<close>

datatype ucontext = Captured | Start nat int

record uthread =
  ut_context :: ucontext
  ut_stack :: ptr
  ut_pri :: int
  ut_next :: ptr

type_synonym thread_heap = "nat \<rightharpoonup> uthread"

text \<open>The file-level variables, the live thread structs and the live stacks.\<close>

record sched =
  threads :: thread_heap
  stacks :: "nat \<rightharpoonup> unit"
  current_thread :: ptr
  tail_thread :: ptr
  head_thread :: ptr
  retired_thread :: ptr
  uthread_id :: int
  live_uthreads :: int
  yield_timer :: "int option"
  yield_handler :: bool

text \<open>
  \<open>malloc_thread\<close> and \<open>malloc_stack\<close> give the address \<open>malloc\<close> returns for the live objects,
  \<open>malloc_buf\<close> whether it succeeds for the buffer of \<open>uthread_create\<close>.
\<close>

record ut_env =
  malloc_thread :: "thread_heap \<Rightarrow> ptr"
  malloc_stack :: "(nat \<rightharpoonup> unit) \<Rightarrow> ptr"
  malloc_buf :: "nat \<Rightarrow> bool"
  getcontext_ok :: bool
  setitimer_ok :: bool
  sigaction_ok :: bool
  sort_threads :: "nat qsort"

text \<open>The values of the static variables when the program starts.\<close>

definition sched0 :: sched where
  "sched0 = \<lparr>threads = Map.empty, stacks = Map.empty, current_thread = None, tail_thread = None,
     head_thread = None, retired_thread = None, uthread_id = 0, live_uthreads = 0,
     yield_timer = None, yield_handler = False\<rparr>"

definition TIME_SLICE_USEC :: int where "TIME_SLICE_USEC = 10"

section \<open>uthread_init\<close>

text \<open>
  The struct of a new object has no defined contents; every field is assigned before it is
  read, so the model starts from the assigned values (and \<open>ut_next\<close> NULL where the first
  assignment comes later).
\<close>

definition uthread_init :: "ut_env \<Rightarrow> sched \<Rightarrow> sched res" where
  "uthread_init env s =
     (if current_thread s \<noteq> None then Inr s
      else case malloc_thread env (threads s) of
        None \<Rightarrow> Inl Null_Deref
      | Some main_thread \<Rightarrow>
          if \<not> getcontext_ok env then Inl (Exit (-1))
          else
            bindr (c_int (live_uthreads s + 1)) (\<lambda>live.
            let s1 = s\<lparr>threads := (threads s)(main_thread \<mapsto>
                         \<lparr>ut_context = Captured, ut_stack = None, ut_pri = 9, ut_next = Some main_thread\<rparr>),
                       tail_thread := Some main_thread, current_thread := Some main_thread,
                       live_uthreads := live, yield_timer := Some TIME_SLICE_USEC\<rparr> in
            if \<not> setitimer_ok env then Inl (Exit (-1))
            else if \<not> sigaction_ok env then Inl (Exit (-1))
            else Inr (s1\<lparr>yield_handler := True\<rparr>)))"

section \<open>uthread_create\<close>

text \<open>
  The loop that copies the circle, from \<open>current_thread->next\<close> up to \<open>current_thread\<close>,
  into a buffer in which \<open>n\<close> slots are left.
\<close>

fun collect_ring :: "thread_heap \<Rightarrow> ptr \<Rightarrow> ptr \<Rightarrow> nat \<Rightarrow> nat list res" where
  "collect_ring h current p n =
     (if p = current then Inr []
      else case n of
        0 \<Rightarrow> Inl Out_Of_Bounds
      | Suc n' \<Rightarrow>
          (case p of
            None \<Rightarrow> Inl Null_Deref
          | Some a \<Rightarrow>
              bindr (load h p) (\<lambda>t.
              bindr (collect_ring h current (ut_next t) n') (\<lambda>as. Inr (a # as)))))"

declare collect_ring.simps [simp del]

text \<open>The comparison reads the priorities through the pointers it is given.\<close>

definition pri_of :: "thread_heap \<Rightarrow> nat \<Rightarrow> int" where
  "pri_of h a = (case h a of None \<Rightarrow> 0 | Some t \<Rightarrow> ut_pri t)"

definition uthread_priority_sort :: "thread_heap \<Rightarrow> nat \<Rightarrow> nat \<Rightarrow> int" where
  "uthread_priority_sort h key other =
     (if pri_of h key < pri_of h other then -1
      else if pri_of h key > pri_of h other then 1 else 0)"

text \<open>\<open>buf[pos - 1]->next = buf[pos]\<close> for every \<open>pos\<close>, then the last entry is tied to \<open>last_next\<close>.\<close>

fun retie :: "thread_heap \<Rightarrow> nat list \<Rightarrow> ptr \<Rightarrow> thread_heap res" where
  "retie h [] last_next = Inr h"
| "retie h [a] last_next = store h (Some a) (\<lambda>t. t\<lparr>ut_next := last_next\<rparr>)"
| "retie h (a # b # as) last_next =
     bindr (store h (Some a) (\<lambda>t. t\<lparr>ut_next := Some b\<rparr>)) (\<lambda>h1. retie h1 (b # as) last_next)"

text \<open>
  The new order of the circle: copy, sort, retie. After the copy the buffer holds the circle and
  the new thread; \<open>qsort\<close> is called on \<open>live_uthreads\<close> slots, and its comparison follows every
  one of them, so that a slot which was not written is an \<open>Uninit_Read\<close>. The result is the
  heap, the head and the tail.
\<close>

definition rebuild_circle ::
  "ut_env \<Rightarrow> thread_heap \<Rightarrow> ptr \<Rightarrow> nat \<Rightarrow> nat \<Rightarrow> (thread_heap \<times> nat \<times> nat) res" where
  "rebuild_circle env h current new_thread live =
     bindr (load h current) (\<lambda>cur.
     if \<not> malloc_buf env (live * 8) then Inl Null_Deref
     else
       bindr (collect_ring h current (ut_next cur) live) (\<lambda>others.
       let filled = others @ [the current, new_thread] in
       if length filled > live then Inl Out_Of_Bounds
       else if length filled < live then Inl Uninit_Read
       else
         let thread_buf = sort_threads env (uthread_priority_sort h) filled in
         bindr (retie h thread_buf (Some (hd thread_buf))) (\<lambda>h2.
         bindr (load h2 (Some (last thread_buf))) (\<lambda>tl.
         if ut_next tl \<noteq> Some (hd thread_buf) then Inl Assert_Failed
         else Inr (h2, hd thread_buf, last thread_buf)))))"

definition uthread_create :: "ut_env \<Rightarrow> sched \<Rightarrow> nat \<Rightarrow> int \<Rightarrow> int \<Rightarrow> (int \<times> sched) res" where
  "uthread_create env s func val pri =
     (case malloc_thread env (threads s) of
        None \<Rightarrow> Inl Null_Deref
      | Some new_thread \<Rightarrow>
          if \<not> getcontext_ok env then Inl (Exit (-1))
          else
            let stack = malloc_stack env (stacks s);
                stacks1 = (case stack of None \<Rightarrow> stacks s | Some a \<Rightarrow> (stacks s)(a \<mapsto> ()));
                h1 = (threads s)(new_thread \<mapsto>
                   \<lparr>ut_context = Start func val, ut_stack = stack, ut_pri = pri, ut_next = None\<rparr>) in
            bindr (c_int (live_uthreads s + 1)) (\<lambda>live.
            bindr (rebuild_circle env h1 (current_thread s) new_thread (nat live)) (\<lambda>(h2, hd2, tl2).
            bindr (c_int (uthread_id s + 1)) (\<lambda>id.
            Inr (id, s\<lparr>threads := h2, stacks := stacks1, head_thread := Some hd2,
                       tail_thread := Some tl2, live_uthreads := live, uthread_id := id\<rparr>)))))"

section \<open>uthread_yield\<close>

text \<open>
  \<open>swapcontext\<close> saves the context of the old thread and resumes that of the new one, which
  must be live.
\<close>

definition uthread_yield :: "sched \<Rightarrow> sched res" where
  "uthread_yield s =
     bindr (load (threads s) (current_thread s)) (\<lambda>old.
     if current_thread s = ut_next old then Inr s
     else
       bindr (load (threads s) (ut_next old)) (\<lambda>nxt.
       if ut_pri old < ut_pri nxt \<and> current_thread s = head_thread s then Inr s
       else
         let current' = (if ut_pri old < ut_pri nxt then head_thread s else ut_next old) in
         bindr (store (threads s) (current_thread s) (\<lambda>t. t\<lparr>ut_context := Captured\<rparr>)) (\<lambda>h1.
         bindr (load h1 current') (\<lambda>t.
         Inr (s\<lparr>threads := h1, current_thread := current'\<rparr>)))))"

text \<open>The handler of the timer signal yields for the thread that it interrupts.\<close>

definition uthread_yield_handler :: "int \<Rightarrow> sched \<Rightarrow> sched res" where
  "uthread_yield_handler signum s = uthread_yield s"

section \<open>uthread_exit\<close>

definition free_stack :: "sched \<Rightarrow> sched res" where
  "free_stack s =
     bindr (load (threads s) (retired_thread s)) (\<lambda>retired.
     bindr (free_ptr (stacks s) (ut_stack retired)) (\<lambda>stacks1.
     bindr (free_ptr (threads s) (retired_thread s)) (\<lambda>h1.
     if retired_thread s = current_thread s then Inl (Exit 0)
     else bindr (load h1 (current_thread s)) (\<lambda>t. Inr (s\<lparr>threads := h1, stacks := stacks1\<rparr>)))))"

text \<open>
  The search for the predecessor of \<open>old\<close>, from \<open>prev\<close> on. The loop has no bound: \<open>None\<close>
  is a search that never ends.
\<close>

partial_function (option) find_prev :: "thread_heap \<Rightarrow> ptr \<Rightarrow> ptr \<Rightarrow> ptr res option" where
  "find_prev h prev old =
     (case load h prev of
        Inl e \<Rightarrow> Some (Inl e)
      | Inr t \<Rightarrow> if ut_next t = old then Some (Inr prev) else find_prev h (ut_next t) old)"

declare find_prev.simps [code]

definition set_next :: "sched \<Rightarrow> ptr \<Rightarrow> ptr \<Rightarrow> sched res" where
  "set_next s p q = bindr (store (threads s) p (\<lambda>t. t\<lparr>ut_next := q\<rparr>)) (\<lambda>h. Inr (s\<lparr>threads := h\<rparr>))"

text \<open>The relinking of \<open>uthread_exit\<close> once the predecessor is known.\<close>

definition unlink_after :: "sched \<Rightarrow> ptr \<Rightarrow> ptr \<Rightarrow> sched res" where
  "unlink_after s prev_thread old_thread =
     bindr (load (threads s) old_thread) (\<lambda>old.
     bindr (load (threads s) (ut_next old)) (\<lambda>nxt.
     if ut_pri old < ut_pri nxt then
       bindr (set_next s prev_thread (ut_next old)) (\<lambda>s1. Inr (s1\<lparr>current_thread := head_thread s1\<rparr>))
     else if old_thread = tail_thread s then
       bindr (set_next (s\<lparr>tail_thread := prev_thread\<rparr>) prev_thread (head_thread s)) (\<lambda>s1.
       Inr (s1\<lparr>current_thread := head_thread s1\<rparr>))
     else
       set_next (s\<lparr>current_thread := ut_next old\<rparr>) prev_thread (ut_next old)))"

definition uthread_exit :: "sched \<Rightarrow> sched res option" where
  "uthread_exit s =
     (let old_thread = current_thread s;
          retire = (\<lambda>r. bindr r (\<lambda>s1. free_stack (s1\<lparr>retired_thread := old_thread\<rparr>))) in
      if old_thread = head_thread s then
        Some (retire
          (bindr (load (threads s) old_thread) (\<lambda>old.
           bindr (set_next (s\<lparr>current_thread := ut_next old\<rparr>) (tail_thread s) (ut_next old)) (\<lambda>s1.
           Inr (s1\<lparr>head_thread := current_thread s1\<rparr>)))))
      else
        case find_prev (threads s) (head_thread s) old_thread of
          None \<Rightarrow> None
        | Some (Inl e) \<Rightarrow> Some (Inl e)
        | Some (Inr prev_thread) \<Rightarrow> Some (retire (unlink_after s prev_thread old_thread)))"

section \<open>The circle of threads\<close>

definition next_of :: "thread_heap \<Rightarrow> nat \<Rightarrow> ptr option" where
  "next_of h a = map_option ut_next (h a)"

definition stack_of :: "thread_heap \<Rightarrow> nat \<Rightarrow> ptr" where
  "stack_of h a = (case h a of None \<Rightarrow> None | Some t \<Rightarrow> ut_stack t)"

text \<open>Everything in a heap of threads but the links.\<close>

definition thread_data :: "thread_heap \<Rightarrow> nat \<Rightarrow> (ucontext \<times> ptr \<times> int) option" where
  "thread_data h a = map_option (\<lambda>t. (ut_context t, ut_stack t, ut_pri t)) (h a)"

lemma pri_of_data: "pri_of h a = (case thread_data h a of None \<Rightarrow> 0 | Some (c, st, p) \<Rightarrow> p)"
  by (simp add: pri_of_def thread_data_def split: option.split)

lemma stack_of_data: "stack_of h a = (case thread_data h a of None \<Rightarrow> None | Some (c, st, p) \<Rightarrow> st)"
  by (simp add: stack_of_def thread_data_def split: option.split)

lemma live_data: "h a = None \<longleftrightarrow> thread_data h a = None"
  by (simp add: thread_data_def)

lemma same_data:
  assumes "thread_data h' = thread_data h"
  shows "pri_of h' = pri_of h" and "stack_of h' = stack_of h" and "h' a = None \<longleftrightarrow> h a = None"
  using assms by (simp_all add: fun_eq_iff pri_of_data stack_of_data live_data)

lemma data_relinked [heap_simps]:
  "h a = Some t \<Longrightarrow> thread_data (h(a \<mapsto> t\<lparr>ut_next := q\<rparr>)) = thread_data h"
  by (auto simp: thread_data_def fun_eq_iff)

lemma next_relinked [heap_simps]:
  "next_of (h(a \<mapsto> t\<lparr>ut_next := q\<rparr>)) = (next_of h)(a := Some q)"
  by (auto simp: next_of_def fun_eq_iff)

lemma next_live: "next_of h a = Some q \<Longrightarrow> \<exists>t. h a = Some t \<and> ut_next t = q"
  by (auto simp: next_of_def)

text \<open>
  \<open>circle_ok s xs\<close>: the threads are those of \<open>xs\<close>, linked in a circle in this order, sorted by
  priority; the running thread is one of them, and each has a stack of its own (or none, as
  the main thread). \<open>sched_inv\<close> adds that \<open>head_thread\<close> and \<open>tail_thread\<close> are its ends:
  the former is only set by the first \<open>uthread_create\<close>.
\<close>

definition circle_ok :: "sched \<Rightarrow> nat list \<Rightarrow> bool" where
  "circle_ok s xs \<longleftrightarrow> ring (next_of (threads s)) xs \<and> sorted (map (pri_of (threads s)) xs) \<and>
     current_thread s \<in> Some ` set xs \<and> tail_thread s = Some (last xs) \<and>
     finite (dom (threads s)) \<and> finite (dom (stacks s)) \<and>
     (\<forall>a \<in> set xs. \<forall>k. stack_of (threads s) a = Some k \<longrightarrow> stacks s k \<noteq> None) \<and>
     inj_on (stack_of (threads s)) {a \<in> set xs. stack_of (threads s) a \<noteq> None}"

definition sched_inv :: "sched \<Rightarrow> nat list \<Rightarrow> bool" where
  "sched_inv s xs \<longleftrightarrow> circle_ok s xs \<and> head_thread s = Some (hd xs)"

text \<open>
  No call of the C library fails, and \<open>malloc\<close> returns the address of an object that is not
  live.
\<close>

definition env_fresh :: "ut_env \<Rightarrow> bool" where
  "env_fresh env \<longleftrightarrow>
     (\<forall>h. finite (dom h) \<longrightarrow> (\<exists>a. malloc_thread env h = Some a \<and> h a = None)) \<and>
     (\<forall>st. finite (dom st) \<longrightarrow> (\<exists>a. malloc_stack env st = Some a \<and> st a = None)) \<and>
     (\<forall>n. malloc_buf env n) \<and> getcontext_ok env \<and> setitimer_ok env \<and> sigaction_ok env \<and>
     qsort_ok (sort_threads env)"

interpretation priority: keyed_comparison "uthread_priority_sort h" "pri_of h" UNIV for h
  by unfold_locales (simp add: uthread_priority_sort_def)

section \<open>Building the circle\<close>

lemma collect_ring_path:
  "path (next_of h) p as (Some c) \<Longrightarrow> c \<notin> set as \<Longrightarrow> length as \<le> n \<Longrightarrow>
   collect_ring h (Some c) p n = Inr as"
proof (induction as arbitrary: p n)
  case Nil
  then show ?case by (simp add: collect_ring.simps)
next
  case (Cons a as)
  then obtain t where t: "p = Some a" "h a = Some t" "path (next_of h) (ut_next t) as (Some c)"
    by (auto dest!: next_live)
  from Cons.prems(3) obtain n' where "n = Suc n'" "length as \<le> n'" by (cases n) auto
  with Cons.IH [OF t(3), of n'] Cons.prems(2) t(1,2) show ?case
    by (subst collect_ring.simps) simp
qed

lemma retie_path:
  "distinct as \<Longrightarrow> as \<noteq> [] \<Longrightarrow> \<forall>a \<in> set as. h a \<noteq> None \<Longrightarrow>
   \<exists>h'. retie h as q = Inr h' \<and> path (next_of h') (Some (hd as)) as q \<and>
        thread_data h' = thread_data h \<and> (\<forall>a. a \<notin> set as \<longrightarrow> h' a = h a)"
proof (induction h as q rule: retie.induct)
  case (2 h a q)
  then show ?case by (auto simp: heap_simps)
next
  case (3 h a b as q)
  then obtain t where t: "h a = Some t" by auto
  define h1 where "h1 = h(a \<mapsto> t\<lparr>ut_next := Some b\<rparr>)"
  have st: "store h (Some a) (\<lambda>t. t\<lparr>ut_next := Some b\<rparr>) = Inr h1"
    using t by (simp add: h1_def)
  have "\<forall>c \<in> set (b # as). h1 c \<noteq> None" using "3.prems"(3) by (auto simp: h1_def)
  with "3.IH" [OF st] "3.prems"(1) obtain h' where
    h': "retie h1 (b # as) q = Inr h'" "path (next_of h') (Some b) (b # as) q"
      "thread_data h' = thread_data h1" "\<forall>c. c \<notin> set (b # as) \<longrightarrow> h' c = h1 c" by auto
  have "next_of h' a = Some (Some b)"
    using h'(4) "3.prems"(1) by (simp add: next_of_def h1_def)
  moreover have "\<forall>c. c \<notin> set (a # b # as) \<longrightarrow> h' c = h c" using h'(4) by (simp add: h1_def)
  moreover have "thread_data h' = thread_data h" using h'(3) t by (simp add: h1_def heap_simps)
  ultimately show ?case using st h'(1,2) by auto
qed simp

text \<open>The heap once the circle is retied along \<open>ys\<close>.\<close>

lemma retie_ring:
  assumes "distinct ys" and "ys \<noteq> []" and "\<forall>a \<in> set ys. h a \<noteq> None"
  shows "\<exists>h'. retie h ys (Some (hd ys)) = Inr h' \<and> ring (next_of h') ys \<and>
    thread_data h' = thread_data h \<and> next_of h' (last ys) = Some (Some (hd ys)) \<and>
    dom h' = dom h"
proof -
  from retie_path [OF assms, of "Some (hd ys)"] obtain h' where
    h': "retie h ys (Some (hd ys)) = Inr h'" "path (next_of h') (Some (hd ys)) ys (Some (hd ys))"
      "thread_data h' = thread_data h" by blast
  from h'(2) have "path (next_of h') (Some (hd ys)) (butlast ys @ [last ys]) (Some (hd ys))"
    using assms(2) by simp
  then have "next_of h' (last ys) = Some (Some (hd ys))" by auto
  moreover have "dom h' = dom h" using same_data(3) [OF h'(3)] by (simp add: dom_def)
  ultimately show ?thesis using h' assms(1,2) by (auto simp: ring_def)
qed

lemma circle_okD:
  assumes "circle_ok s xs"
  shows "ring (next_of (threads s)) xs" and "xs \<noteq> []" and "distinct xs"
    and "a \<in> set xs \<Longrightarrow> threads s a \<noteq> None"
  using assms ring_live [of "next_of (threads s)" xs a]
  by (auto simp: circle_ok_def ring_def next_of_def)

lemma circle_stacks:
  assumes "circle_ok s xs"
  shows "a \<in> set xs \<Longrightarrow> stack_of (threads s) a = Some k \<Longrightarrow> stacks s k \<noteq> None"
    and "a \<in> set xs \<Longrightarrow> b \<in> set xs \<Longrightarrow> stack_of (threads s) a = Some k \<Longrightarrow>
         stack_of (threads s) b = Some k \<Longrightarrow> a = b"
  using assms unfolding circle_ok_def inj_on_def by simp_all

lemma circle_split:
  assumes "circle_ok s xs"
  obtains us c vs where "xs = us @ c # vs" and "current_thread s = Some c"
  using assms by (auto simp: circle_ok_def in_set_conv_decomp)

lemma rebuild_circle_runs:
  assumes "path (next_of h) (Some c) (c # as) (Some c)" and "distinct (a # c # as)"
    and "h a \<noteq> None" and "\<And>n. malloc_buf env n" and "qsort_ok (sort_threads env)"
    and "live = length as + 2"
  shows "\<exists>ys h2. rebuild_circle env h (Some c) a live = Inr (h2, hd ys, last ys) \<and>
    mset ys = mset (a # c # as) \<and> ring (next_of h2) ys \<and> sorted (map (pri_of h2) ys) \<and>
    thread_data h2 = thread_data h \<and> dom h2 = dom h"
proof -
  from assms(1) obtain ct where ct: "h c = Some ct" "path (next_of h) (ut_next ct) as (Some c)"
    by (auto dest!: next_live)
  have coll: "collect_ring h (Some c) (ut_next ct) live = Inr as"
    using ct(2) assms(2,6) by (intro collect_ring_path) auto
  let ?buf = "as @ [c, a]"
  define ys where "ys = sort_threads env (uthread_priority_sort h) ?buf"
  have ms: "mset ys = mset ?buf" and sorted: "sorted (map (pri_of h) ys)"
    using priority.qsort_mset [OF assms(5)] priority.qsort_sorted [OF assms(5)]
    by (simp_all add: ys_def)
  have set_ys: "set ys = insert a (insert c (set as))" using mset_eq_setD [OF ms] by auto
  have "distinct ?buf" using assms(2) by auto
  then have "distinct ys" using mset_eq_imp_distinct_iff [OF ms] by simp
  moreover have "ys \<noteq> []" using set_ys by auto
  moreover have "\<forall>x \<in> set ys. h x \<noteq> None"
    using set_ys assms(3) ct path_live [OF ct(2)] by (auto simp: next_of_def)
  ultimately obtain h2 where h2: "retie h ys (Some (hd ys)) = Inr h2" "ring (next_of h2) ys"
    "thread_data h2 = thread_data h" "next_of h2 (last ys) = Some (Some (hd ys))" "dom h2 = dom h"
    using retie_ring by blast
  from h2(4) obtain tl where tl: "h2 (last ys) = Some tl" "ut_next tl = Some (hd ys)"
    by (auto dest!: next_live)
  have "rebuild_circle env h (Some c) a live = Inr (h2, hd ys, last ys)"
    using ct(1) assms(4,6) coll h2(1) tl by (simp add: rebuild_circle_def ys_def [symmetric])
  moreover have "mset ys = mset (a # c # as)" using ms by simp
  ultimately show ?thesis using h2 sorted same_data(1) [OF h2(3)] by auto
qed

text \<open>More live threads counted than linked: the last slots of the buffer stay unwritten.\<close>

lemma rebuild_circle_uninit:
  assumes "path (next_of h) (Some c) (c # as) (Some c)" and "c \<notin> set as"
    and "\<And>n. malloc_buf env n" and "length as + 2 < live"
  shows "rebuild_circle env h (Some c) a live = Inl Uninit_Read"
proof -
  from assms(1) obtain ct where ct: "h c = Some ct" "path (next_of h) (ut_next ct) as (Some c)"
    by (auto dest!: next_live)
  then have "collect_ring h (Some c) (ut_next ct) live = Inr as"
    using assms(2,4) by (intro collect_ring_path) auto
  with ct(1) assms(3,4) show ?thesis by (simp add: rebuild_circle_def)
qed

text \<open>The circle seen from the running thread, after a new thread has been allocated.\<close>

lemma circle_from_current:
  assumes "circle_ok s xs" and "threads s a = None"
  obtains c as where "current_thread s = Some c" and "mset xs = mset (c # as)"
    and "distinct (a # c # as)"
    and "path (next_of ((threads s)(a \<mapsto> t))) (Some c) (c # as) (Some c)"
proof -
  obtain us c vs where xs: "xs = us @ c # vs" and cur: "current_thread s = Some c"
    using circle_split [OF assms(1)] .
  have a: "a \<notin> set xs" using circle_okD(4) [OF assms(1)] assms(2) by blast
  have "path (next_of (threads s)) (Some c) ((c # vs) @ us) (Some c)"
    using ring_rotated [of "next_of (threads s)" us "c # vs"] circle_okD(1) [OF assms(1)] xs by simp
  then have "path (next_of ((threads s)(a \<mapsto> t))) (Some c) ((c # vs) @ us) (Some c)"
    by (subst path_cong [where nx' = "next_of (threads s)"]) (use a xs in \<open>auto simp: next_of_def\<close>)
  with cur xs a circle_okD(3) [OF assms(1)] show thesis by (intro that [of c "vs @ us"]) auto
qed

lemma create_runs:
  assumes "circle_ok s xs" and "env_fresh env" and "live_uthreads s = int (length xs)"
    and "int32_ok (live_uthreads s + 1)"
  shows "\<exists>a k ys h2.
    uthread_create env s func val pri = bindr (c_int (uthread_id s + 1)) (\<lambda>i. Inr (i,
      s\<lparr>threads := h2, stacks := (stacks s)(k \<mapsto> ()), head_thread := Some (hd ys),
        tail_thread := Some (last ys), live_uthreads := live_uthreads s + 1,
        uthread_id := i\<rparr>)) \<and>
    malloc_thread env (threads s) = Some a \<and> threads s a = None \<and> stacks s k = None \<and> mset ys = mset (a # xs) \<and>
    ring (next_of h2) ys \<and> sorted (map (pri_of h2) ys) \<and>
    thread_data h2 = (thread_data (threads s))(a \<mapsto> (Start func val, Some k, pri)) \<and>
    finite (dom h2)"
proof -
  have fin: "finite (dom (threads s))" "finite (dom (stacks s))"
    using assms(1) by (simp_all add: circle_ok_def)
  from assms(2) fin obtain a k where
    a: "malloc_thread env (threads s) = Some a" "threads s a = None" and
    k: "malloc_stack env (stacks s) = Some k" "stacks s k = None"
    unfolding env_fresh_def by blast
  have ok: "\<And>n. malloc_buf env n" "getcontext_ok env" "qsort_ok (sort_threads env)"
    using assms(2) by (auto simp: env_fresh_def)
  define t where "t = \<lparr>ut_context = Start func val, ut_stack = Some k, ut_pri = pri, ut_next = None\<rparr>"
  define h1 where "h1 = (threads s)(a \<mapsto> t)"
  obtain c as where c: "current_thread s = Some c" "mset xs = mset (c # as)"
    "distinct (a # c # as)" "path (next_of h1) (Some c) (c # as) (Some c)"
    using circle_from_current [OF assms(1) a(2)] unfolding h1_def .
  have "h1 a \<noteq> None" by (simp add: h1_def)
  moreover have "length xs = length as + 1" using mset_eq_length [OF c(2)] by simp
  then have live: "nat (live_uthreads s + 1) = length as + 2" using assms(3) by simp
  ultimately obtain ys h2 where
    h2: "rebuild_circle env h1 (Some c) a (nat (live_uthreads s + 1)) = Inr (h2, hd ys, last ys)"
      "mset ys = mset (a # c # as)" "ring (next_of h2) ys" "sorted (map (pri_of h2) ys)"
      "thread_data h2 = thread_data h1" "dom h2 = dom h1"
    using rebuild_circle_runs [OF c(4,3) _ ok(1,3) live] by blast
  have "uthread_create env s func val pri = bindr (c_int (uthread_id s + 1)) (\<lambda>i. Inr (i,
      s\<lparr>threads := h2, stacks := (stacks s)(k \<mapsto> ()), head_thread := Some (hd ys),
        tail_thread := Some (last ys), live_uthreads := live_uthreads s + 1,
        uthread_id := i\<rparr>))"
    using a(1) k(1) ok(2) c(1) assms(4) h2(1)
    by (simp add: uthread_create_def t_def [symmetric] h1_def [symmetric])
  moreover have "thread_data h1 = (thread_data (threads s))(a \<mapsto> (Start func val, Some k, pri))"
    by (simp add: fun_eq_iff thread_data_def h1_def t_def)
  moreover have "finite (dom h2)" using fin(1) h2(6) by (simp add: h1_def)
  moreover have "mset ys = mset (a # xs)" using h2(2) c(2) by simp
  ultimately show ?thesis using a k(2) h2(3-5) by auto
qed

text \<open>The new circle satisfies the invariant: the new thread and its stack are fresh.\<close>

lemma create_inv:
  assumes s: "circle_ok s xs" and a: "threads s a = None" and k: "stacks s k = None"
    and ys: "mset ys = mset (a # xs)" "ring (next_of h2) ys" "sorted (map (pri_of h2) ys)"
    and data: "thread_data h2 = (thread_data (threads s))(a \<mapsto> (ctx, Some k, pri))"
    and fin: "finite (dom h2)"
    and s': "s' = s\<lparr>threads := h2, stacks := (stacks s)(k \<mapsto> ()), head_thread := Some (hd ys),
        tail_thread := Some (last ys), live_uthreads := n, uthread_id := i\<rparr>"
  shows "sched_inv s' ys"
proof -
  have set_ys: "set ys = insert a (set xs)" using mset_eq_setD [OF ys(1)] by simp
  have anew: "a \<notin> set xs" using a circle_okD(4) [OF s] by blast
  have st: "stack_of h2 x = (if x = a then Some k else stack_of (threads s) x)" for x
    by (simp add: stack_of_data data)
  have own: "stack_of (threads s) x \<noteq> Some k" if "x \<in> set xs" for x
    using that s k by (auto simp: circle_ok_def)
  have "current_thread s \<in> Some ` set ys" using s set_ys by (auto simp: circle_ok_def)
  moreover have "\<forall>x \<in> set ys. \<forall>j. stack_of h2 x = Some j \<longrightarrow> ((stacks s)(k \<mapsto> ())) j \<noteq> None"
    using s by (auto simp: st set_ys circle_ok_def)
  moreover have "inj_on (stack_of h2) {x \<in> set ys. stack_of h2 x \<noteq> None}"
    using s own anew by (auto simp: st set_ys circle_ok_def inj_on_def)
  ultimately show ?thesis using s ys(2,3) fin
    by (simp add: sched_inv_def circle_ok_def s')
qed

section \<open>Yielding\<close>

lemma context_saved [heap_simps]:
  assumes "h a = Some t"
  shows "pri_of (h(a \<mapsto> t\<lparr>ut_context := c\<rparr>)) = pri_of h"
    and "stack_of (h(a \<mapsto> t\<lparr>ut_context := c\<rparr>)) = stack_of h"
    and "next_of (h(a \<mapsto> t\<lparr>ut_context := c\<rparr>)) = next_of h"
  using assms by (auto simp: fun_eq_iff pri_of_def stack_of_def next_of_def)

lemma sched_invD:
  assumes "sched_inv s xs"
  shows "circle_ok s xs" and "head_thread s = Some (xs ! 0)" and "xs \<noteq> []" and "distinct xs"
  using assms circle_okD(2,3) [of s xs] by (auto simp: sched_inv_def hd_conv_nth)

text \<open>A change of the running thread and of contexts keeps the invariant.\<close>

lemma sched_inv_switch:
  assumes "sched_inv s xs" and "next_of h = next_of (threads s)"
    and "pri_of h = pri_of (threads s)" and "stack_of h = stack_of (threads s)"
    and "finite (dom h)" and "c \<in> set xs"
  shows "sched_inv (s\<lparr>threads := h, current_thread := Some c\<rparr>) xs"
  using assms by (auto simp: sched_inv_def circle_ok_def)

text \<open>
  The position that runs after a yield at position \<open>i\<close>, from the priorities alone: the next
  one, unless it is of lower priority; then the first.
\<close>

definition next_run :: "int list \<Rightarrow> nat \<Rightarrow> nat" where
  "next_run ps i = (let j = Suc i mod length ps in if ps ! i < ps ! j then 0 else j)"

lemma yield_runs:
  assumes inv: "sched_inv s xs" and i: "i < length xs" and cur: "current_thread s = Some (xs ! i)"
  shows "\<exists>h. uthread_yield s = Inr (s\<lparr>threads := h,
      current_thread := Some (xs ! next_run (map (pri_of (threads s)) xs) i)\<rparr>) \<and>
    next_of h = next_of (threads s) \<and> pri_of h = pri_of (threads s) \<and>
    stack_of h = stack_of (threads s) \<and> finite (dom h) \<and>
    (\<forall>a. a \<noteq> xs ! i \<longrightarrow> h a = threads s a)"
proof -
  let ?h = "threads s" and ?j = "Suc i mod length xs"
  note D = sched_invD [OF inv]
  have j: "?j < length xs" using i by (intro mod_less_divisor) auto
  have live: "?h (xs ! k) \<noteq> None" if "k < length xs" for k
    using circle_okD(4) [OF D(1)] that by simp
  then obtain old nxt hd_t where
    t: "?h (xs ! i) = Some old" "?h (xs ! ?j) = Some nxt" "?h (xs ! 0) = Some hd_t"
    using i j D(3) by (meson length_greater_0_conv not_Some_eq)
  have nx: "ut_next old = Some (xs ! ?j)"
    using ring_next_nth [OF circle_okD(1) [OF D(1)] i] t(1) by (simp add: next_of_def)
  have pri: "pri_of ?h (xs ! i) = ut_pri old" "pri_of ?h (xs ! ?j) = ut_pri nxt"
    using t by (simp_all add: pri_of_def)
  let ?ps = "map (pri_of ?h) xs"
  have run: "next_run ?ps i = (if ut_pri old < ut_pri nxt then 0 else ?j)"
    using i j pri by (simp add: next_run_def)
  have idx: "xs ! i = xs ! k \<longleftrightarrow> i = k" if "k < length xs" for k
    using D(4) i that by (simp add: nth_eq_iff_index_eq)
  have fin: "finite (dom ?h)" using D(1) by (simp add: circle_ok_def)
  show ?thesis
  proof (cases "?j = i \<or> (ut_pri old < ut_pri nxt \<and> i = 0)")
    case True
    have "next_run ?ps i = i" using True run t by auto
    moreover have "uthread_yield s = Inr s"
      using True cur nx t(1,2) D(2) by (auto simp: uthread_yield_def)
    ultimately show ?thesis using cur fin by (intro exI [of _ ?h]) simp
  next
    case False
    define h1 where "h1 = ?h(xs ! i \<mapsto> old\<lparr>ut_context := Captured\<rparr>)"
    have "i \<noteq> 0 \<Longrightarrow> xs ! i \<noteq> xs ! 0" "xs ! i \<noteq> xs ! ?j"
      using False idx [of 0] idx [OF j] D(3) by auto
    then have "uthread_yield s = Inr (s\<lparr>threads := h1,
        current_thread := Some (xs ! next_run ?ps i)\<rparr>)"
      using False cur nx t D(2) run by (auto simp: uthread_yield_def h1_def)
    moreover have "finite (dom h1)" using fin by (simp add: h1_def)
    ultimately show ?thesis using t(1) by (intro exI [of _ h1]) (simp add: h1_def heap_simps)
  qed
qed

lemma next_run_bound: "ps \<noteq> [] \<Longrightarrow> next_run ps i < length ps"
  by (simp add: next_run_def Let_def)

lemma yield_spec:
  assumes "sched_inv s xs" and "i < length xs" and "current_thread s = Some (xs ! i)"
  shows "\<exists>s'. uthread_yield s = Inr s' \<and> sched_inv s' xs \<and>
    current_thread s' = Some (xs ! next_run (map (pri_of (threads s)) xs) i) \<and>
    pri_of (threads s') = pri_of (threads s) \<and> live_uthreads s' = live_uthreads s"
proof -
  from yield_runs [OF assms] obtain h where
    h: "uthread_yield s = Inr (s\<lparr>threads := h,
      current_thread := Some (xs ! next_run (map (pri_of (threads s)) xs) i)\<rparr>)"
      "next_of h = next_of (threads s)" "pri_of h = pri_of (threads s)"
      "stack_of h = stack_of (threads s)" "finite (dom h)" by blast
  have "next_run (map (pri_of (threads s)) xs) i < length xs"
    using next_run_bound [of "map (pri_of (threads s)) xs" i] sched_invD(3) [OF assms(1)] by simp
  with sched_inv_switch [OF assms(1) h(2-5)] h(1,3) show ?thesis by simp
qed

section \<open>Exit\<close>

text \<open>The search from the head finds the predecessor, and ends.\<close>

lemma find_prev_path:
  "path (next_of h) p (us @ [u]) (Some c) \<Longrightarrow> c \<notin> set (us @ [u]) \<Longrightarrow>
   find_prev h p (Some c) = Some (Inr (Some u))"
proof (induction us arbitrary: p)
  case Nil
  then show ?case by (subst find_prev.simps) (auto dest!: next_live)
next
  case (Cons a us)
  then have "p = Some a" "\<exists>r. next_of h a = Some r \<and> path (next_of h) r (us @ [u]) (Some c)" by auto
  then obtain t where t: "p = Some a" "h a = Some t" "path (next_of h) (ut_next t) (us @ [u]) (Some c)"
    by (blast dest: next_live)
  have "ut_next t \<noteq> Some c"
    using path_nonempty [OF t(3)] Cons.prems(2) hd_in_set [of "us @ [u]"] by force
  moreover have "c \<notin> set (us @ [u])" using Cons.prems(2) by auto
  ultimately show ?case using Cons.IH [OF t(3)] t(1,2) by (subst find_prev.simps) simp
qed

text \<open>
  The thread that runs after the one between \<open>us\<close> and \<open>vs\<close> has left: the next one, unless
  there is none or it is of lower priority and the leaving thread was not the head.
\<close>

definition next_after_exit :: "thread_heap \<Rightarrow> nat list \<Rightarrow> nat \<Rightarrow> nat list \<Rightarrow> nat" where
  "next_after_exit h us c vs =
     (if us = [] then hd vs
      else if vs = [] \<or> pri_of h c < pri_of h (hd vs) then hd us else hd vs)"

definition freed_stack :: "thread_heap \<Rightarrow> nat \<Rightarrow> (nat \<rightharpoonup> unit) \<Rightarrow> (nat \<rightharpoonup> unit)" where
  "freed_stack h c st = (case stack_of h c of None \<Rightarrow> st | Some k \<Rightarrow> st(k := None))"

lemma free_stack_runs:
  assumes "threads s c = Some t" and "retired_thread s = Some c" and "current_thread s = Some d"
    and "d \<noteq> c" and "threads s d \<noteq> None" and "\<And>k. ut_stack t = Some k \<Longrightarrow> stacks s k \<noteq> None"
  shows "free_stack s = Inr (s\<lparr>threads := (threads s)(c := None),
    stacks := freed_stack (threads s) c (stacks s)\<rparr>)"
  using assms by (auto simp: free_stack_def freed_stack_def stack_of_def split: option.split)

text \<open>
  The structs around the thread that exits: its own, that of the next one, and that of the one before it,
  in which \<open>next\<close> is set.
\<close>

lemma exit_structs:
  assumes inv: "sched_inv s (us @ c # vs)" and ne: "us @ vs \<noteq> []"
  defines "n \<equiv> hd (vs @ us)" and "p \<equiv> last (vs @ us)"
  obtains old nxt prv where
    "threads s c = Some old" "threads s n = Some nxt" "threads s p = Some prv" "ut_next old = Some n"
    "p \<noteq> c" "n \<in> set (us @ vs)" "us \<noteq> [] \<Longrightarrow> vs = [] \<Longrightarrow> ut_pri nxt \<le> ut_pri old"
proof -
  note C = sched_invD(1) [OF inv]
  have ring: "ring (next_of (threads s)) (us @ c # vs)" and dist: "distinct (us @ c # vs)"
    using circle_okD(1,3) [OF C] .
  have pn: "p \<in> set (us @ vs)" "n \<in> set (us @ vs)"
    using ne last_in_set [of "vs @ us"] hd_in_set [of "vs @ us"] by (auto simp: n_def p_def)
  then obtain old nxt prv where t: "threads s c = Some old" "threads s n = Some nxt" "threads s p = Some prv"
    using circle_okD(4) [OF C, of c] circle_okD(4) [OF C, of n] circle_okD(4) [OF C, of p] by auto
  have "hd (vs @ us @ [c]) = n" using ne by (simp add: hd_append n_def)
  then have "ut_next old = Some n"
    using ring_successor(1) [OF ring] t(1) by (simp add: next_of_def)
  moreover have "ut_pri nxt \<le> ut_pri old" if "us \<noteq> []" "vs = []"
  proof -
    have "pri_of (threads s) (hd us) \<le> pri_of (threads s) c"
      using C that hd_in_set [OF that(1)] by (auto simp: circle_ok_def sorted_append)
    then show ?thesis using t that by (simp add: pri_of_def n_def)
  qed
  moreover have "p \<noteq> c" using dist pn by auto
  ultimately show thesis using that t pn(2) by blast
qed

lemma exit_frees:
  assumes inv: "sched_inv s (us @ c # vs)" and p: "p \<noteq> c" "threads s p = Some prv"
    and s': "threads s' = (threads s)(p \<mapsto> prv\<lparr>ut_next := q\<rparr>)" "stacks s' = stacks s" "retired_thread s' = Some c"
      "current_thread s' = Some d" "d \<in> set (us @ vs)"
  shows "free_stack s' = Inr (s'\<lparr>threads := (threads s')(c := None), stacks := freed_stack (threads s) c (stacks s)\<rparr>)"
proof -
  note C = sched_invD(1) [OF inv]
  obtain old where old: "threads s c = Some old" using circle_okD(4) [OF C, of c] by auto
  have "\<And>k. ut_stack old = Some k \<Longrightarrow> stacks s k \<noteq> None"
    using C old by (auto simp: circle_ok_def stack_of_def)
  moreover have "threads s' c = Some old" "freed_stack (threads s') c (stacks s) = freed_stack (threads s) c (stacks s)"
    using old p s'(1) by (auto simp: freed_stack_def stack_of_def)
  moreover have "threads s' d \<noteq> None" "d \<noteq> c"
    using circle_okD(3) [OF C] circle_okD(4) [OF C, of d] s'(1,5) by auto
  ultimately show ?thesis using free_stack_runs [of s' c old d] s'(2-4) by auto
qed

text \<open>What \<open>find_prev\<close> finds when the thread is not the head, and what is set then.\<close>

lemma exit_find_prev:
  assumes "sched_inv s (us @ c # vs)" and "us \<noteq> []"
  shows "find_prev (threads s) (head_thread s) (Some c) = Some (Inr (Some (last us)))" and "head_thread s \<noteq> Some c"
proof -
  note C = sched_invD(1) [OF assms(1)]
  have hd: "head_thread s = Some (hd us)" using assms by (simp add: sched_inv_def circle_ok_def hd_append)
  have dist: "distinct (us @ c # vs)" by (rule circle_okD(3) [OF C])
  then show "head_thread s \<noteq> Some c" using hd assms(2) hd_in_set [of us] by auto
  have "path (next_of (threads s)) (Some (hd us)) us (Some c)"
    using circle_okD(1) [OF C] assms(2) by (auto simp: ring_def hd_append)
  then have "path (next_of (threads s)) (Some (hd us)) (butlast us @ [last us]) (Some c)"
    using assms(2) by simp
  then show "find_prev (threads s) (head_thread s) (Some c) = Some (Inr (Some (last us)))"
    unfolding hd by (rule find_prev_path)
      (use dist last_in_set [OF assms(2)] in \<open>auto dest: in_set_butlastD\<close>)
qed

lemma exit_unlinks:
  assumes inv: "sched_inv s (us @ c # vs)" and ne: "us \<noteq> []"
    and t: "threads s (last (vs @ us)) = Some prv"
  shows "unlink_after s (Some (last us)) (Some c) =
    Inr (s\<lparr>threads := (threads s)(last (vs @ us) \<mapsto> prv\<lparr>ut_next := Some (hd (vs @ us))\<rparr>),
      current_thread := Some (next_after_exit (threads s) us c vs), tail_thread := Some (last (us @ vs))\<rparr>)"
proof -
  from ne have "us @ vs \<noteq> []" by simp
  from exit_structs [OF inv this] obtain old nxt prv' where
    o: "threads s c = Some old" "threads s (hd (vs @ us)) = Some nxt" "ut_next old = Some (hd (vs @ us))"
      "vs = [] \<Longrightarrow> ut_pri nxt \<le> ut_pri old" using ne by metis
  have ends: "head_thread s = Some (hd us)" "tail_thread s = Some (last (c # vs))"
    using inv ne by (auto simp: sched_inv_def circle_ok_def hd_append)
  have setn: "set_next s' (Some (last (vs @ us))) q = Inr (s'\<lparr>threads := (threads s)(last (vs @ us) \<mapsto> prv\<lparr>ut_next := q\<rparr>)\<rparr>)"
    if "threads s' = threads s" for s' q
    using that t by (simp add: set_next_def)
  show ?thesis
  proof (cases "vs = []")
    case True
    with ne o ends setn [of "s\<lparr>tail_thread := Some (last us)\<rparr>"] show ?thesis
      by (simp add: unlink_after_def next_after_exit_def)
  next
    case False
    have "distinct (us @ c # vs)" by (rule circle_okD(3) [OF sched_invD(1) [OF inv]])
    then have "hd (vs @ us) = hd vs" "last (c # vs) \<noteq> c" using False last_in_set [OF False] by auto
    moreover have "pri_of (threads s) c = ut_pri old" "pri_of (threads s) (hd (vs @ us)) = ut_pri nxt"
      using o by (simp_all add: pri_of_def)
    ultimately show ?thesis
      using False ne o ends setn [of s] setn [of "s\<lparr>current_thread := Some (hd (vs @ us))\<rparr>"]
      by (auto simp: unlink_after_def next_after_exit_def)
  qed
qed

lemma exit_runs:
  assumes inv: "sched_inv s (us @ c # vs)" and cur: "current_thread s = Some c"
    and ne: "us @ vs \<noteq> []"
  shows "\<exists>t. threads s (last (vs @ us)) = Some t \<and> uthread_exit s = Some (Inr
    (s\<lparr>threads := (threads s)(last (vs @ us) \<mapsto> t\<lparr>ut_next := Some (hd (vs @ us))\<rparr>, c := None),
       stacks := freed_stack (threads s) c (stacks s),
       current_thread := Some (next_after_exit (threads s) us c vs),
       head_thread := Some (hd (us @ vs)), tail_thread := Some (last (us @ vs)),
       retired_thread := Some c\<rparr>))"
proof -
  let ?n = "hd (vs @ us)" and ?p = "last (vs @ us)"
  from exit_structs [OF inv ne] obtain old nxt prv where
    t: "threads s c = Some old" "threads s ?n = Some nxt" "threads s ?p = Some prv" "ut_next old = Some ?n"
      "?p \<noteq> c" "?n \<in> set (us @ vs)" by metis
  let ?h1 = "(threads s)(?p \<mapsto> prv\<lparr>ut_next := Some ?n\<rparr>)"
  show ?thesis
  proof (cases "us = []")
    case True
    then have ends: "head_thread s = Some c" "tail_thread s = Some ?p"
      using inv ne by (auto simp: sched_inv_def circle_ok_def)
    let ?s' = "s\<lparr>current_thread := Some ?n, threads := ?h1, head_thread := Some ?n, retired_thread := Some c\<rparr>"
    have "uthread_exit s = Some (free_stack ?s')"
      using cur t ends by (simp add: uthread_exit_def set_next_def Let_def)
    also have "free_stack ?s' = Inr (?s'\<lparr>threads := ?h1(c := None), stacks := freed_stack (threads s) c (stacks s)\<rparr>)"
      using exit_frees [OF inv t(5,3), of ?s' "Some ?n" ?n] t(6) by simp
    finally show ?thesis using t(3) True ne ends(2) by (simp add: next_after_exit_def)
  next
    case False
    let ?s1 = "s\<lparr>threads := ?h1, current_thread := Some (next_after_exit (threads s) us c vs),
        tail_thread := Some (last (us @ vs)), retired_thread := Some c\<rparr>"
    have "uthread_exit s = Some (free_stack ?s1)"
      using cur exit_find_prev [OF inv False] exit_unlinks [OF inv False t(3)] by (simp add: uthread_exit_def Let_def)
    also have "next_after_exit (threads s) us c vs \<in> set (us @ vs)" using False by (auto simp: next_after_exit_def)
    then have "free_stack ?s1 = Inr (?s1\<lparr>threads := ?h1(c := None), stacks := freed_stack (threads s) c (stacks s)\<rparr>)"
      using exit_frees [OF inv t(5,3), of ?s1 "Some ?n"] by simp
    finally show ?thesis
      using t(3) False inv by (simp add: sched_inv_def circle_ok_def hd_append)
  qed
qed

lemma exit_inv:
  assumes inv: "sched_inv s (us @ c # vs)" and ne: "us @ vs \<noteq> []"
    and t: "threads s (last (vs @ us)) = Some t"
    and s': "s' = s\<lparr>threads := (threads s)(last (vs @ us) \<mapsto> t\<lparr>ut_next := Some (hd (vs @ us))\<rparr>, c := None),
       stacks := freed_stack (threads s) c (stacks s),
       current_thread := Some (next_after_exit (threads s) us c vs),
       head_thread := Some (hd (us @ vs)), tail_thread := Some (last (us @ vs)),
       retired_thread := Some c\<rparr>"
  shows "sched_inv s' (us @ vs)"
    and "\<forall>a \<in> set (us @ vs). thread_data (threads s') a = thread_data (threads s) a"
proof -
  let ?h = "threads s" and ?h' = "threads s'"
  note C = sched_invD(1) [OF inv]
  have dist: "distinct (us @ c # vs)" using circle_okD(3) [OF C] .
  have c: "c \<notin> set (us @ vs)" using dist by auto
  have h': "?h' a = (if a = last (vs @ us) then Some (t\<lparr>ut_next := Some (hd (vs @ us))\<rparr>) else ?h a)"
    if "a \<in> set (us @ vs)" for a
    using that c by (auto simp: s')
  show data: "\<forall>a \<in> set (us @ vs). thread_data ?h' a = thread_data ?h a"
    using h' t by (auto simp: thread_data_def)
  have ring: "ring (next_of ?h') (us @ vs)"
  proof (rule ring_remove [OF circle_okD(1) [OF C] ne])
    fix a assume "a \<in> set (us @ vs)"
    with h' show "next_of ?h' a = (if a = last (vs @ us) then Some (Some (hd (vs @ us))) else next_of ?h a)"
      by (simp add: next_of_def)
  qed
  have pri: "pri_of ?h' a = pri_of ?h a" and st: "stack_of ?h' a = stack_of ?h a"
    if "a \<in> set (us @ vs)" for a
    using data that by (simp_all add: pri_of_data stack_of_data)
  have "map (pri_of ?h') (us @ vs) = map (pri_of ?h) (us @ vs)" using pri by auto
  moreover have "sorted (map (pri_of ?h) (us @ vs))"
    using C by (auto simp: circle_ok_def sorted_append)
  ultimately have sorted: "sorted (map (pri_of ?h') (us @ vs))" by (simp only:)
  have run: "current_thread s' \<in> Some ` set (us @ vs)"
    using ne by (auto simp: s' next_after_exit_def)
  have own: "stack_of ?h a \<noteq> stack_of ?h c" if "a \<in> set (us @ vs)" "stack_of ?h a \<noteq> None" for a
    using circle_stacks(2) [OF C, of a c] that c by (cases "stack_of ?h a") auto
  have live: "stacks s k \<noteq> None" if "a \<in> set (us @ vs)" "stack_of ?h a = Some k" for a k
    using circle_stacks(1) [OF C _ that(2)] that(1) by auto
  have stk: "\<forall>a \<in> set (us @ vs). \<forall>k. stack_of ?h' a = Some k \<longrightarrow> stacks s' k \<noteq> None"
  proof (intro ballI allI impI)
    fix a k assume a: "a \<in> set (us @ vs)" and "stack_of ?h' a = Some k"
    then have k: "stack_of ?h a = Some k" by (simp only: st)
    with live [OF a k] own [OF a] show "stacks s' k \<noteq> None"
      by (simp add: s' freed_stack_def split: option.split)
  qed
  have inj: "inj_on (stack_of ?h') {a \<in> set (us @ vs). stack_of ?h' a \<noteq> None}"
  proof (rule inj_onI)
    fix a b assume "a \<in> {a \<in> set (us @ vs). stack_of ?h' a \<noteq> None}"
      "b \<in> {a \<in> set (us @ vs). stack_of ?h' a \<noteq> None}" "stack_of ?h' a = stack_of ?h' b"
    then obtain k where "a \<in> set (us @ c # vs)" "b \<in> set (us @ c # vs)"
      "stack_of ?h a = Some k" "stack_of ?h b = Some k" by (auto simp: st)
    then show "a = b" by (rule circle_stacks(2) [OF C])
  qed
  have fin: "finite (dom ?h')" "finite (dom (stacks s'))"
    using C by (auto simp: s' circle_ok_def freed_stack_def split: option.split)
  have "tail_thread s' = Some (last (us @ vs))" "head_thread s' = Some (hd (us @ vs))"
    by (simp_all add: s')
  with ring sorted run stk inj fin show "sched_inv s' (us @ vs)"
    unfolding sched_inv_def circle_ok_def by blast
qed

lemma exit_spec:
  assumes "sched_inv s (us @ c # vs)" and "current_thread s = Some c" and "us @ vs \<noteq> []"
  shows "\<exists>s'. uthread_exit s = Some (Inr s') \<and> sched_inv s' (us @ vs) \<and>
    current_thread s' = Some (next_after_exit (threads s) us c vs) \<and> threads s' c = None \<and>
    stacks s' = freed_stack (threads s) c (stacks s) \<and>
    (\<forall>a \<in> set (us @ vs). thread_data (threads s') a = thread_data (threads s) a) \<and>
    live_uthreads s' = live_uthreads s \<and> uthread_id s' = uthread_id s"
  using exit_runs [OF assms] exit_inv [OF assms(1,3)] by fastforce

text \<open>The last thread leaves: the process exits with status 0.\<close>

lemma exit_last:
  assumes "sched_inv s [c]"
  shows "uthread_exit s = Some (Inl (Exit 0))"
proof -
  note C = sched_invD(1) [OF assms]
  from circle_okD(4) [OF C, of c] obtain t where t: "threads s c = Some t" by auto
  have cur: "current_thread s = Some c" "tail_thread s = Some c" "head_thread s = Some c"
    using assms by (auto simp: sched_inv_def circle_ok_def)
  have "ut_next t = Some c"
    using circle_okD(1) [OF C] t by (simp add: ring_def next_of_def)
  moreover have "\<And>k. ut_stack t = Some k \<Longrightarrow> stacks s k \<noteq> None"
    using C t by (auto simp: circle_ok_def stack_of_def)
  ultimately show ?thesis using t cur
    by (cases "ut_stack t") (auto simp: uthread_exit_def set_next_def free_stack_def)
qed

end
