(* ===== verification/USched.thy ===== *)
theory USched imports UThread begin

text \<open>
  The scheduler of Asmt_4 over time: which threads run under repeated yields (the class of the
  highest priority takes turns, every other class starves), and the states that can be reached
  from \<open>uthread_init\<close> by any sequence of its operations, with the invariant that holds in all
  of them.
\<close>

section \<open>The class of the highest priority\<close>

text \<open>The number of threads at the head of the circle that share the highest priority.\<close>

definition top_size :: "(nat \<Rightarrow> int) \<Rightarrow> nat list \<Rightarrow> nat" where
  "top_size pr xs = length (takeWhile (\<lambda>a. pr a = pr (hd xs)) xs)"

lemma top_size_bounds:
  assumes "xs \<noteq> []"
  shows "0 < top_size pr xs" and "top_size pr xs \<le> length xs"
  using assms by (cases xs; simp add: top_size_def length_takeWhile_le)+

lemma top_size_in: "i < top_size pr xs \<Longrightarrow> pr (xs ! i) = pr (hd xs)"
  unfolding top_size_def
  using nth_mem [of i "takeWhile (\<lambda>a. pr a = pr (hd xs)) xs"]
    takeWhile_nth [of i "\<lambda>a. pr a = pr (hd xs)" xs]
  by (auto dest: set_takeWhileD)

lemma top_size_out:
  assumes "sorted (map pr xs)" and "top_size pr xs \<le> i" and "i < length xs"
  shows "pr (hd xs) < pr (xs ! i)"
proof -
  let ?m = "top_size pr xs"
  have m: "?m < length xs" using assms(2,3) by simp
  then have "pr (xs ! ?m) \<noteq> pr (hd xs)"
    unfolding top_size_def using nth_length_takeWhile by blast
  moreover have "pr (hd xs) \<le> pr (xs ! ?m)"
  proof -
    from m have "xs \<noteq> []" by auto
    then have "0 < length xs" "hd xs = xs ! 0" by (simp_all add: hd_conv_nth)
    with m show ?thesis using sorted_nth_mono [OF assms(1), of 0 ?m] by simp
  qed
  moreover have "pr (xs ! ?m) \<le> pr (xs ! i)"
    using assms sorted_nth_mono [of "map pr xs" ?m i] by simp
  ultimately show ?thesis by simp
qed

lemma next_run_top:
  assumes "sorted (map pr xs)" and "i < top_size pr xs"
  shows "next_run (map pr xs) i = Suc i mod top_size pr xs"
proof -
  let ?m = "top_size pr xs"
  have ne: "xs \<noteq> []" using assms(2) by (auto simp: top_size_def)
  note b = top_size_bounds [OF ne, of pr]
  have i: "i < length xs" "pr (xs ! i) = pr (hd xs)" using assms(2) b(2) top_size_in by auto
  have hd0: "pr (hd xs) = pr (xs ! 0)" using ne by (simp add: hd_conv_nth)
  show ?thesis
  proof (cases "Suc i < ?m")
    case True
    then have "pr (xs ! Suc i) = pr (hd xs)" "Suc i < length xs" using b(2) top_size_in by auto
    with True i show ?thesis by (simp add: next_run_def)
  next
    case False
    with assms(2) have m: "Suc i = ?m" by simp
    show ?thesis
    proof (cases "?m = length xs")
      case True
      with m i hd0 ne show ?thesis by (simp add: next_run_def)
    next
      case False
      then have lt: "?m < length xs" using b(2) by simp
      then have "pr (hd xs) < pr (xs ! Suc i)" using top_size_out [OF assms(1), of "Suc i"] m by simp
      with m lt i show ?thesis by (simp add: next_run_def)
    qed
  qed
qed

definition runs_at :: "nat list \<Rightarrow> (nat \<Rightarrow> int) \<Rightarrow> sched \<Rightarrow> nat \<Rightarrow> bool" where
  "runs_at xs pr s i \<longleftrightarrow> sched_inv s xs \<and> pri_of (threads s) = pr \<and> i < length xs \<and>
     current_thread s = Some (xs ! i)"

lemma runs_at_yield:
  assumes "runs_at xs pr s i"
  shows "\<exists>s'. uthread_yield s = Inr s' \<and> runs_at xs pr s' (next_run (map pr xs) i)"
proof -
  have "next_run (map pr xs) i < length xs"
    using next_run_bound [of "map pr xs" i] assms
    by (metis length_map length_greater_0_conv gr_implies_not_zero runs_at_def list.size(3))
  with yield_spec [of s xs i] assms show ?thesis by (auto simp: runs_at_def)
qed

lemma runs_at_sorted: "runs_at xs pr s i \<Longrightarrow> sorted (map pr xs) \<and> xs \<noteq> []"
  by (auto simp: runs_at_def sched_inv_def circle_ok_def)

interpretation top_class: cyclic_yield uthread_yield "runs_at xs pr" "top_size pr xs" for xs pr
proof
  fix s i assume "runs_at xs pr s i" "i < top_size pr xs"
  then show "\<exists>s'. uthread_yield s = Inr s' \<and> runs_at xs pr s' (Suc i mod top_size pr xs)"
    using runs_at_yield [of xs pr s i] runs_at_sorted [of xs pr s i] next_run_top [of pr xs i] by simp
qed

text \<open>The only thread of the highest priority never gives up the processor.\<close>

lemma yield_alone:
  assumes inv: "sched_inv s xs" and cur: "current_thread s = head_thread s"
    and top: "top_size (pri_of (threads s)) xs = 1"
  shows "uthread_yield s = Inr s"
proof -
  let ?h = "threads s" and ?j = "Suc 0 mod length xs"
  note D = sched_invD [OF inv]
  have C: "circle_ok s xs" and pos: "0 < length xs" using D by simp_all
  have j: "?j < length xs" using pos by (intro mod_less_divisor)
  then obtain old nxt where t: "?h (xs ! 0) = Some old" "?h (xs ! ?j) = Some nxt"
    using circle_okD(4) [OF C nth_mem [OF pos]] circle_okD(4) [OF C nth_mem [OF j]] by auto
  have nx: "ut_next old = Some (xs ! ?j)"
    using ring_next_nth [OF circle_okD(1) [OF C] pos] t(1) by (simp add: next_of_def)
  show ?thesis
  proof (cases "length xs = 1")
    case True
    then show ?thesis using t nx cur D(2) by (simp add: uthread_yield_def)
  next
    case False
    then have "1 < length xs" using pos by linarith
    then have "?j = 1" "pri_of ?h (hd xs) < pri_of ?h (xs ! 1)"
      using top_size_out [of "pri_of ?h" xs 1] top C by (simp_all add: circle_ok_def)
    then have "ut_pri old < ut_pri nxt" using t D(3) by (simp add: pri_of_def hd_conv_nth)
    then show ?thesis using t nx cur D(2) by (simp add: uthread_yield_def)
  qed
qed

text \<open>From any position, the head of the circle runs within as many yields as there are threads.\<close>

lemma head_reached:
  "runs_at xs pr s i \<Longrightarrow> \<exists>k \<le> (if i = 0 then 0 else length xs - i). \<exists>s'. repeat_step uthread_yield k s = Inr s' \<and> runs_at xs pr s' 0"
proof (induction "length xs - i" arbitrary: i s rule: less_induct)
  case less
  show ?case
  proof (cases "i = 0")
    case True
    with less.prems show ?thesis by (intro exI [of _ 0]) simp
  next
    case False
    have i: "i < length xs" using less.prems by (simp add: runs_at_def)
    from runs_at_yield [OF less.prems] obtain s1 where
      s1: "uthread_yield s = Inr s1" "runs_at xs pr s1 (next_run (map pr xs) i)" by blast
    show ?thesis
    proof (cases "next_run (map pr xs) i = 0")
      case True
      with s1 i False show ?thesis by (intro exI [of _ 1]) simp
    next
      case nz: False
      then have "next_run (map pr xs) i = Suc i" "Suc i < length xs"
        using i by (auto simp: next_run_def Let_def mod_Suc split: if_splits)
      with s1(2) have at: "runs_at xs pr s1 (Suc i)" and dec: "length xs - Suc i < length xs - i"
        by auto
      from less.hyps [OF dec at] obtain k s' where
        "k \<le> length xs - Suc i" "repeat_step uthread_yield k s1 = Inr s'" "runs_at xs pr s' 0"
        by auto
      moreover from this(1) have "Suc k \<le> length xs - i" using \<open>Suc i < length xs\<close> by simp
      ultimately show ?thesis using s1(1) False by (intro exI [of _ "Suc k"]) simp
    qed
  qed
qed

section \<open>Reachable states\<close>

text \<open>The first state, and every state a sequence of calls and timer signals leads to.\<close>

inductive sched_step :: "ut_env \<Rightarrow> sched \<Rightarrow> sched \<Rightarrow> bool" for env where
  create: "uthread_create env s func val pri = Inr (tid, s') \<Longrightarrow> sched_step env s s'"
| yield: "uthread_yield s = Inr s' \<Longrightarrow> sched_step env s s'"
| tick: "uthread_yield_handler signum s = Inr s' \<Longrightarrow> sched_step env s s'"
| exit: "uthread_exit s = Some (Inr s') \<Longrightarrow> sched_step env s s'"

inductive sched_reachable :: "ut_env \<Rightarrow> sched \<Rightarrow> bool" for env where
  init: "uthread_init env sched0 = Inr s \<Longrightarrow> sched_reachable env s"
| step: "sched_reachable env s \<Longrightarrow> sched_step env s s' \<Longrightarrow> sched_reachable env s'"

inductive_cases sched_stepE: "sched_step env s s'"

text \<open>
  The invariant of all of them: a circle, of which \<open>head_thread\<close> is the head unless no thread
  has been created yet; at least as many threads are counted live as are linked.
\<close>

definition reach_inv :: "sched \<Rightarrow> nat list \<Rightarrow> bool" where
  "reach_inv s xs \<longleftrightarrow> circle_ok s xs \<and> int (length xs) \<le> live_uthreads s \<and>
     (head_thread s = Some (hd xs) \<or> head_thread s = None \<and> length xs = 1)"

lemma init_inv:
  assumes "env_fresh env"
  shows "\<exists>a s. uthread_init env sched0 = Inr s \<and> circle_ok s [a] \<and> live_uthreads s = 1 \<and>
    head_thread s = None \<and> uthread_id s = 0 \<and> pri_of (threads s) a = 9"
proof -
  from assms obtain a where "malloc_thread env Map.empty = Some a"
    unfolding env_fresh_def by (metis dom_empty finite.emptyI)
  with assms show ?thesis
    by (auto simp: uthread_init_def sched0_def env_fresh_def int32_ok_def Let_def circle_ok_def
        ring_def next_of_def stack_of_def pri_of_def split: if_splits)
qed

text \<open>With more threads counted than linked \<open>uthread_create\<close> sorts unwritten slots.\<close>

lemma create_uninit:
  assumes C: "circle_ok s xs" and env: "env_fresh env" and lt: "int (length xs) < live_uthreads s"
    and live: "int32_ok (live_uthreads s + 1)"
  shows "uthread_create env s func val pri = Inl Uninit_Read"
proof -
  from C env obtain a k where
    a: "malloc_thread env (threads s) = Some a" "threads s a = None" and
    k: "malloc_stack env (stacks s) = Some k"
    unfolding env_fresh_def circle_ok_def by blast
  have ok: "\<And>n. malloc_buf env n" "getcontext_ok env"
    using env by (auto simp: env_fresh_def)
  define t where "t = \<lparr>ut_context = Start func val, ut_stack = Some k, ut_pri = pri, ut_next = None\<rparr>"
  obtain c as where c: "current_thread s = Some c" "mset xs = mset (c # as)"
    "distinct (a # c # as)" "path (next_of ((threads s)(a \<mapsto> t))) (Some c) (c # as) (Some c)"
    using circle_from_current [OF C a(2)] .
  have "length as + 2 < nat (live_uthreads s + 1)" using lt mset_eq_length [OF c(2)] by simp
  then have "rebuild_circle env ((threads s)(a \<mapsto> t)) (Some c) a (nat (live_uthreads s + 1)) =
      Inl Uninit_Read"
    using rebuild_circle_uninit [OF c(4)] c(3) ok(1) by auto
  then show ?thesis using a(1) k ok(2) live c(1) by (simp add: uthread_create_def t_def)
qed

lemma create_overflow:
  assumes "circle_ok s xs" and "env_fresh env" and "\<not> int32_ok (live_uthreads s + 1)"
  shows "uthread_create env s func val pri = Inl Int_Overflow"
proof -
  from assms(1,2) obtain a where "malloc_thread env (threads s) = Some a" "getcontext_ok env"
    unfolding env_fresh_def circle_ok_def by blast
  with assms(3) show ?thesis by (simp add: uthread_create_def c_int_def Let_def)
qed

lemma create_linked:
  assumes C: "circle_ok s xs" and env: "env_fresh env" and eq: "live_uthreads s = int (length xs)"
    and live: "int32_ok (live_uthreads s + 1)"
  shows "\<exists>a k ys s'. uthread_create env s func val pri =
      (if int32_ok (uthread_id s + 1) then Inr (uthread_id s + 1, s') else Inl Int_Overflow) \<and>
    threads s a = None \<and> mset ys = mset (a # xs) \<and> sched_inv s' ys \<and>
    live_uthreads s' = int (length ys) \<and> current_thread s' = current_thread s \<and>
    thread_data (threads s') = (thread_data (threads s))(a \<mapsto> (Start func val, Some k, pri)) \<and>
    malloc_thread env (threads s) = Some a"
proof -
  from create_runs [OF C env eq live, of func val pri] obtain b k ys h2 where
    run: "uthread_create env s func val pri = bindr (c_int (uthread_id s + 1)) (\<lambda>i. Inr (i,
      s\<lparr>threads := h2, stacks := (stacks s)(k \<mapsto> ()), head_thread := Some (hd ys),
        tail_thread := Some (last ys), live_uthreads := live_uthreads s + 1, uthread_id := i\<rparr>))"
    "threads s b = None" "stacks s k = None" "mset ys = mset (b # xs)"
    "ring (next_of h2) ys" "sorted (map (pri_of h2) ys)"
    "thread_data h2 = (thread_data (threads s))(b \<mapsto> (Start func val, Some k, pri))"
    "finite (dom h2)" "malloc_thread env (threads s) = Some b" by blast
  define s' where "s' = s\<lparr>threads := h2, stacks := (stacks s)(k \<mapsto> ()), head_thread := Some (hd ys),
        tail_thread := Some (last ys), live_uthreads := live_uthreads s + 1,
        uthread_id := uthread_id s + 1\<rparr>"
  have "sched_inv s' ys" by (rule create_inv [OF C run(2-8)]) (simp add: s'_def)
  moreover have "live_uthreads s' = int (length ys)"
    using eq mset_eq_length [OF run(4)] by (simp add: s'_def)
  moreover have "uthread_create env s func val pri =
      (if int32_ok (uthread_id s + 1) then Inr (uthread_id s + 1, s') else Inl Int_Overflow)"
    using run(1) by (simp add: c_int_def s'_def)
  moreover have "current_thread s' = current_thread s" "threads s' = h2" by (simp_all add: s'_def)
  ultimately show ?thesis using run(2,4,7,9) by blast
qed

lemma create_cases:
  assumes inv: "reach_inv s xs" and env: "env_fresh env"
  shows "uthread_create env s func val pri \<in> {Inl Uninit_Read, Inl Int_Overflow} \<or>
    (\<exists>tid s' ys. uthread_create env s func val pri = Inr (tid, s') \<and> reach_inv s' ys \<and>
       sched_inv s' ys \<and> set xs \<subseteq> set ys \<and>
       (\<forall>t \<in> set xs. pri_of (threads s') t = pri_of (threads s) t) \<and>
       (\<exists>a. malloc_thread env (threads s) = Some a \<and> a \<notin> set xs \<and> set ys = insert a (set xs) \<and>
          pri_of (threads s') a = pri))"
proof -
  have C: "circle_ok s xs" and le: "int (length xs) \<le> live_uthreads s"
    using inv by (simp_all add: reach_inv_def)
  consider "\<not> int32_ok (live_uthreads s + 1)"
    | "int32_ok (live_uthreads s + 1)" "int (length xs) < live_uthreads s"
    | "int32_ok (live_uthreads s + 1)" "live_uthreads s = int (length xs)"
    using le by fastforce
  then show ?thesis
  proof cases
    case 1
    with create_overflow [OF C env] show ?thesis by simp
  next
    case 2
    with create_uninit [OF C env] show ?thesis by simp
  next
    case 3
    from create_linked [OF C env 3(2,1), of func val pri] obtain a k ys s' where
      run: "uthread_create env s func val pri =
        (if int32_ok (uthread_id s + 1) then Inr (uthread_id s + 1, s') else Inl Int_Overflow)"
      and s': "sched_inv s' ys" "live_uthreads s' = int (length ys)" "mset ys = mset (a # xs)"
        "threads s a = None"
        "thread_data (threads s') = (thread_data (threads s))(a \<mapsto> (Start func val, Some k, pri))"
        "malloc_thread env (threads s) = Some a"
      by blast
    from s' have "reach_inv s' ys" by (simp add: reach_inv_def sched_inv_def)
    moreover have "set xs \<subseteq> set ys" using mset_eq_setD [OF s'(3)] by auto
    moreover have "\<forall>t \<in> set xs. pri_of (threads s') t = pri_of (threads s) t"
    proof
      fix t assume "t \<in> set xs"
      then have "t \<noteq> a" using circle_okD(4) [OF C, of t] s'(4) by auto
      then show "pri_of (threads s') t = pri_of (threads s) t" by (simp add: pri_of_data s'(5))
    qed
    moreover have "a \<notin> set xs" "set ys = insert a (set xs)"
      using circle_okD(4) [OF C, of a] s'(4) mset_eq_setD [OF s'(3)] by auto
    moreover have "pri_of (threads s') a = pri" by (simp add: pri_of_data s'(5))
    ultimately show ?thesis using run s'(1,6) by auto
  qed
qed

lemma yield_single:
  assumes "circle_ok s [a]"
  shows "uthread_yield s = Inr s"
proof -
  have "current_thread s = Some a" using assms by (auto simp: circle_ok_def)
  moreover have "next_of (threads s) a = Some (Some a)"
    using circle_okD(1) [OF assms] by (simp add: ring_def)
  then obtain t where "threads s a = Some t" "ut_next t = Some a" by (blast dest: next_live)
  ultimately show ?thesis by (simp add: uthread_yield_def)
qed

lemma reach_yield:
  assumes "reach_inv s xs"
  shows "\<exists>s'. uthread_yield s = Inr s' \<and> reach_inv s' xs \<and>
    pri_of (threads s') = pri_of (threads s)"
proof (cases "head_thread s = Some (hd xs)")
  case True
  then have inv: "sched_inv s xs" using assms by (simp add: reach_inv_def sched_inv_def)
  then obtain i where i: "i < length xs" "current_thread s = Some (xs ! i)"
    by (auto simp: sched_inv_def circle_ok_def in_set_conv_nth)
  from yield_spec [OF inv i] assms show ?thesis
    by (auto simp: reach_inv_def sched_inv_def)
next
  case False
  then obtain a where "xs = [a]" using assms by (auto simp: reach_inv_def length_Suc_conv)
  with assms yield_single [of s a] show ?thesis by (auto simp: reach_inv_def)
qed

lemma exit_no_head:
  assumes "head_thread s = None" and "current_thread s = Some c"
  shows "uthread_exit s = Some (Inl Null_Deref)"
  using assms by (subst uthread_exit_def) (auto simp: Let_def find_prev.simps)

lemma reach_exit:
  assumes "reach_inv s xs"
  shows "(\<exists>s' ys. uthread_exit s = Some (Inr s') \<and> reach_inv s' ys \<and> sched_inv s' ys \<and>
      length ys + 1 = length xs \<and>
      (\<forall>t \<in> set xs. current_thread s \<noteq> Some t \<longrightarrow>
         t \<in> set ys \<and> pri_of (threads s') t = pri_of (threads s) t)) \<or>
    (uthread_exit s = Some (Inl (Exit 0)) \<and> length xs = 1) \<or>
    (uthread_exit s = Some (Inl Null_Deref) \<and> head_thread s = None)"
proof (cases "head_thread s = Some (hd xs)")
  case True
  then have inv: "sched_inv s xs" using assms by (simp add: reach_inv_def sched_inv_def)
  obtain us c vs where xs: "xs = us @ c # vs" and cur: "current_thread s = Some c"
    using circle_split [OF sched_invD(1) [OF inv]] .
  show ?thesis
  proof (cases "us @ vs = []")
    case True
    with inv xs exit_last [of s c] show ?thesis by simp
  next
    case False
    from exit_spec [OF inv [unfolded xs] cur False] obtain s' where
      s': "uthread_exit s = Some (Inr s')" "sched_inv s' (us @ vs)" "live_uthreads s' = live_uthreads s"
        "\<forall>a \<in> set (us @ vs). thread_data (threads s') a = thread_data (threads s) a"
      by blast
    have "\<forall>t \<in> set xs. current_thread s \<noteq> Some t \<longrightarrow>
        t \<in> set (us @ vs) \<and> pri_of (threads s') t = pri_of (threads s) t"
      using s'(4) xs cur by (auto simp: pri_of_data)
    moreover have "reach_inv s' (us @ vs)"
      using s'(2,3) assms xs by (auto simp: reach_inv_def sched_inv_def)
    moreover have "length (us @ vs) + 1 = length xs" using xs by simp
    ultimately show ?thesis using s'(1,2) by blast
  qed
next
  case False
  then have "head_thread s = None" using assms by (auto simp: reach_inv_def)
  moreover obtain c where "current_thread s = Some c" using assms by (auto simp: reach_inv_def circle_ok_def)
  ultimately show ?thesis using exit_no_head by simp
qed

text \<open>A thread that leaves takes only itself out of the circle, and is counted live for ever.\<close>

lemma exit_leaves:
  assumes inv: "reach_inv s xs" and cur: "current_thread s = Some c" and run: "uthread_exit s = Some (Inr s')"
  shows "\<exists>ys. reach_inv s' ys \<and> set ys = set xs - {c} \<and> length ys + 1 = length xs \<and>
    live_uthreads s' = live_uthreads s \<and> uthread_id s' = uthread_id s \<and>
    (\<forall>t \<in> set ys. pri_of (threads s') t = pri_of (threads s) t)"
proof -
  have head: "head_thread s = Some (hd xs)"
    using reach_exit [OF inv] run inv exit_no_head [of s c] cur by (auto simp: reach_inv_def)
  then have I: "sched_inv s xs" using inv by (simp add: reach_inv_def sched_inv_def)
  obtain us vs where xs: "xs = us @ c # vs"
    using circle_split [OF sched_invD(1) [OF I]] cur by (metis option.inject)
  have ne: "us @ vs \<noteq> []" using exit_last [of s c] I run xs by auto
  from exit_spec [OF I [unfolded xs] cur ne] run have
    s': "sched_inv s' (us @ vs)" "live_uthreads s' = live_uthreads s"
      "\<forall>a \<in> set (us @ vs). thread_data (threads s') a = thread_data (threads s) a"
      "uthread_id s' = uthread_id s" by auto
  have "distinct xs" using sched_invD(1) [OF I] circle_okD(3) by blast
  then have "set (us @ vs) = set xs - {c}" using xs by auto
  moreover have "reach_inv s' (us @ vs)"
    using s'(1,2) inv xs by (auto simp: reach_inv_def sched_inv_def)
  ultimately show ?thesis using s'(2-4) xs by (intro exI [of _ "us @ vs"]) (auto simp: pri_of_data)
qed

text \<open>
  The only thread of the lowest priority: neither a yield nor the end of another thread lets it run, unless it is
  alone.
\<close>

definition lowest :: "sched \<Rightarrow> nat list \<Rightarrow> nat \<Rightarrow> bool" where
  "lowest s xs m \<longleftrightarrow> m \<in> set xs \<and> (\<forall>t \<in> set xs. t \<noteq> m \<longrightarrow> pri_of (threads s) t < pri_of (threads s) m)"

lemma lowest_not_first:
  assumes "sorted (map (pri_of (threads s)) xs)" and "distinct xs" and "lowest s xs m" and "2 \<le> length xs"
  shows "hd xs \<noteq> m"
proof -
  obtain a b r where xs: "xs = a # b # r" using assms(4) by (cases xs rule: remdups_adj.cases) auto
  with assms(2) have "a \<noteq> b" by simp
  with assms(1,3) xs show ?thesis by (auto simp: lowest_def)
qed

lemma yield_not_lowest:
  assumes inv: "reach_inv s xs" and low: "lowest s xs m" and len: "2 \<le> length xs" and run: "uthread_yield s = Inr s'"
  shows "current_thread s' \<noteq> Some m"
proof
  assume m: "current_thread s' = Some m"
  let ?pr = "pri_of (threads s)" and ?ps = "map (pri_of (threads s)) xs"
  have I: "sched_inv s xs" using inv len by (auto simp: reach_inv_def sched_inv_def)
  note C = sched_invD [OF I]
  obtain i where i: "i < length xs" "current_thread s = Some (xs ! i)"
    using I by (auto simp: sched_inv_def circle_ok_def in_set_conv_nth)
  have m': "xs ! next_run ?ps i = m" using yield_spec [OF I i] run m by simp
  have "sorted ?ps" using I by (simp add: sched_inv_def circle_ok_def)
  then have "hd xs \<noteq> m" using lowest_not_first [OF _ _ low len] C(4) by blast
  moreover have "xs \<noteq> []" using len by auto
  ultimately have n0: "next_run ?ps i \<noteq> 0" using m' by (metis hd_conv_nth)
  then have n: "next_run ?ps i = Suc i" "Suc i < length xs" "\<not> ?pr (xs ! i) < ?pr (xs ! Suc i)"
    using i(1) by (auto simp: next_run_def Let_def mod_Suc split: if_splits)
  with m' low i(1) have "xs ! i = m" by (auto simp: lowest_def)
  with m' n i(1) show False using nth_eq_iff_index_eq [OF C(4), of i "Suc i"] by simp
qed

lemma exit_not_lowest:
  assumes inv: "reach_inv s xs" and low: "lowest s xs m" and len: "3 \<le> length xs"
    and cur: "current_thread s = Some c" "c \<noteq> m" and run: "uthread_exit s = Some (Inr s')"
  shows "current_thread s' \<noteq> Some m"
proof -
  have I: "sched_inv s xs" using inv len by (auto simp: reach_inv_def sched_inv_def)
  obtain us vs where xs: "xs = us @ c # vs"
    using circle_split [OF sched_invD(1) [OF I]] cur(1) by (metis option.inject)
  then have ne: "us @ vs \<noteq> []" using len by auto
  have run': "current_thread s' = Some (next_after_exit (threads s) us c vs)"
    using exit_spec [OF I [unfolded xs] cur(1) ne] run by simp
  have S: "sorted (map (pri_of (threads s)) xs)" "distinct xs"
    using I sched_invD(4) [OF I] by (simp_all add: sched_inv_def circle_ok_def)
  have c: "pri_of (threads s) c < pri_of (threads s) m" using low xs cur(2) by (simp add: lowest_def)
  show ?thesis
  proof (cases us)
    case Nil
    then have "hd vs \<noteq> m"
      using S low len xs cur(2) by (intro lowest_not_first [of s]) (auto simp: lowest_def)
    then show ?thesis using run' Nil by (simp add: next_after_exit_def)
  next
    case (Cons u us')
    then have "u \<noteq> m" using S xs c by auto
    moreover have "vs \<noteq> [] \<Longrightarrow> \<not> pri_of (threads s) c < pri_of (threads s) (hd vs) \<Longrightarrow> hd vs \<noteq> m" using c by auto
    ultimately show ?thesis using run' Cons by (auto simp: next_after_exit_def split: if_splits)
  qed
qed

lemma yield_counts: "uthread_yield s = Inr s' \<Longrightarrow> live_uthreads s' = live_uthreads s \<and> uthread_id s' = uthread_id s"
  by (auto simp: uthread_yield_def Let_def res_simps split: if_splits)

lemma create_counts:
  "uthread_create env s func val pri = Inr (tid, s') \<Longrightarrow>
    live_uthreads s' = live_uthreads s + 1 \<and> uthread_id s' = uthread_id s + 1"
  by (auto simp: uthread_create_def Let_def res_simps c_int_def split: if_splits option.splits)

lemma create_linked_only:
  assumes "reach_inv s xs" and "env_fresh env" and "uthread_create env s func val pri = Inr (tid, s')"
  shows "live_uthreads s = int (length xs)"
proof (rule ccontr)
  assume "live_uthreads s \<noteq> int (length xs)"
  then have "circle_ok s xs" "int (length xs) < live_uthreads s" using assms(1) by (auto simp: reach_inv_def)
  with create_uninit [of s xs env func val pri] create_overflow [of s xs env func val pri] assms(2,3)
  show False by fastforce
qed

text \<open>What the next creation and the next exit do, in full.\<close>

lemma create_outcome:
  assumes inv: "reach_inv s xs" and env: "env_fresh env"
  shows "if \<not> int32_ok (live_uthreads s + 1) then uthread_create env s func val pri = Inl Int_Overflow
    else if int (length xs) < live_uthreads s then uthread_create env s func val pri = Inl Uninit_Read
    else if \<not> int32_ok (uthread_id s + 1) then uthread_create env s func val pri = Inl Int_Overflow
    else \<exists>a k ys s'. uthread_create env s func val pri = Inr (uthread_id s + 1, s') \<and>
      threads s a = None \<and> mset ys = mset (a # xs) \<and> sched_inv s' ys \<and>
      live_uthreads s' = int (length ys) \<and>
      thread_data (threads s') = (thread_data (threads s))(a \<mapsto> (Start func val, Some k, pri))"
proof -
  have C: "circle_ok s xs" and le: "int (length xs) \<le> live_uthreads s"
    using inv by (simp_all add: reach_inv_def)
  consider (over) "\<not> int32_ok (live_uthreads s + 1)"
    | (gone) "int32_ok (live_uthreads s + 1)" "int (length xs) < live_uthreads s"
    | (all) "int32_ok (live_uthreads s + 1)" "live_uthreads s = int (length xs)"
    using le by fastforce
  then show ?thesis
  proof cases
    case over
    with create_overflow [OF C env] show ?thesis by simp
  next
    case gone
    with create_uninit [OF C env] show ?thesis by simp
  next
    case all
    from create_linked [OF C env all(2,1), of func val pri] obtain a k ys s' where
      "uthread_create env s func val pri =
        (if int32_ok (uthread_id s + 1) then Inr (uthread_id s + 1, s') else Inl Int_Overflow)"
      "threads s a = None" "mset ys = mset (a # xs)" "sched_inv s' ys" "live_uthreads s' = int (length ys)"
      "thread_data (threads s') = (thread_data (threads s))(a \<mapsto> (Start func val, Some k, pri))" by blast
    with all show ?thesis by auto
  qed
qed

lemma exit_outcome:
  assumes inv: "reach_inv s xs"
  shows "\<exists>c. current_thread s = Some c \<and> c \<in> set xs \<and>
    (if 2 \<le> length xs then \<exists>s' ys. uthread_exit s = Some (Inr s') \<and> sched_inv s' ys \<and>
        set ys = set xs - {c} \<and> threads s' c = None \<and> live_uthreads s' = live_uthreads s
     else uthread_exit s = Some (Inl (if head_thread s = None then Null_Deref else Exit 0)))"
proof -
  have C: "circle_ok s xs" using inv by (simp add: reach_inv_def)
  obtain us c vs where xs: "xs = us @ c # vs" and cur: "current_thread s = Some c"
    using circle_split [OF C] .
  show ?thesis
  proof (cases "head_thread s = None")
    case True
    then have "length xs = 1" using inv by (auto simp: reach_inv_def)
    with True exit_no_head [OF True cur] cur xs show ?thesis by auto
  next
    case False
    then have I: "sched_inv s xs" using inv by (auto simp: reach_inv_def sched_inv_def)
    have d: "distinct xs" using circle_okD(3) [OF C] by blast
    show ?thesis
    proof (cases "us @ vs = []")
      case True
      with I xs cur False exit_last [of s c] show ?thesis by simp
    next
      case ne: False
      then have len: "2 \<le> length xs" using xs by (cases us; cases vs) auto
      from exit_spec [OF I [unfolded xs] cur ne] obtain s' where
        s': "uthread_exit s = Some (Inr s')" "sched_inv s' (us @ vs)" "threads s' c = None"
          "live_uthreads s' = live_uthreads s" by blast
      moreover have "set (us @ vs) = set xs - {c}" using d xs by auto
      ultimately show ?thesis using cur xs len by auto
    qed
  qed
qed

lemma reach_step:
  assumes "reach_inv s xs" and "env_fresh env" and "sched_step env s s'"
  shows "\<exists>ys. reach_inv s' ys"
  using assms(3)
proof (cases rule: sched_step.cases)
  case (create func val pri tid)
  with create_cases [OF assms(1,2), of func val pri] show ?thesis by auto
next
  case yield
  with reach_yield [OF assms(1)] show ?thesis by auto
next
  case (tick signum)
  with reach_yield [OF assms(1)] show ?thesis by (auto simp: uthread_yield_handler_def)
next
  case exit
  with reach_exit [OF assms(1)] show ?thesis by auto
qed

lemma reachable_inv:
  assumes "sched_reachable env s" and "env_fresh env"
  shows "\<exists>xs. reach_inv s xs"
  using assms(1)
proof (induction rule: sched_reachable.induct)
  case (init s)
  with init_inv [OF assms(2)] show ?case by (auto simp: reach_inv_def)
next
  case (step s s')
  with reach_step [OF _ assms(2)] show ?case by blast
qed

end
