(* ===== verification/UThreadProps.thy ===== *)
theory UThreadProps imports USched begin

text \<open>
  The properties of the scheduler of Asmt_4, each with a witness on a circle of three threads.
\<close>

section \<open>Example objects\<close>

definition ex_ut_env :: ut_env where
  "ex_ut_env = \<lparr>malloc_thread = fresh_address, malloc_stack = fresh_address, malloc_buf = (\<lambda>n. True),
     getcontext_ok = True, setitimer_ok = True, sigaction_ok = True, sort_threads = insertion_sort\<rparr>"

lemma ex_ut_env_fresh: "env_fresh ex_ut_env"
  by (simp add: env_fresh_def ex_ut_env_def fresh_address_free insertion_sort_ok)

text \<open>The main thread at address 4 and two threads of priority 0 at 2 and 3; the main thread runs.\<close>

definition ex_sched :: sched where
  "ex_sched = \<lparr>threads = [4 \<mapsto> \<lparr>ut_context = Captured, ut_stack = None, ut_pri = 9, ut_next = Some 2\<rparr>,
       2 \<mapsto> \<lparr>ut_context = Start 5 0, ut_stack = Some 7, ut_pri = 0, ut_next = Some 3\<rparr>,
       3 \<mapsto> \<lparr>ut_context = Start 6 0, ut_stack = Some 8, ut_pri = 0, ut_next = Some 4\<rparr>],
     stacks = [7 \<mapsto> (), 8 \<mapsto> ()], current_thread = Some 4, tail_thread = Some 4,
     head_thread = Some 2, retired_thread = None, uthread_id = 2, live_uthreads = 3,
     yield_timer = Some 10, yield_handler = True\<rparr>"

lemma ex_sched_inv: "sched_inv ex_sched [2, 3, 4]"
  by (auto simp: sched_inv_def circle_ok_def ex_sched_def ring_def next_of_def pri_of_def
      stack_of_def inj_on_def split: if_splits)

lemma ex_sched_fields: "live_uthreads ex_sched = 3" "uthread_id ex_sched = 2"
  "current_thread ex_sched = Some 4" "pri_of (threads ex_sched) 4 = 9"
  "pri_of (threads ex_sched) 2 = 0" "pri_of (threads ex_sched) 3 = 0"
  by (simp_all add: ex_sched_def pri_of_def)

text \<open>The same circle while the thread at 2 runs.\<close>

definition ex_sched2 :: sched where
  "ex_sched2 = ex_sched\<lparr>current_thread := Some 2\<rparr>"

lemma ex_sched2_inv: "sched_inv ex_sched2 [2, 3, 4]"
  using ex_sched_inv by (auto simp: sched_inv_def circle_ok_def ex_sched2_def)

lemma ex_top_size: "top_size (pri_of (threads ex_sched2)) [2, 3, 4] = 2"
  by (simp add: top_size_def ex_sched2_def ex_sched_fields)

section \<open>Creating and leaving\<close>

text \<open>
  C7. \<open>uthread_create\<close> keeps the circle: called while every counted thread is linked, it returns
  the next id and links exactly the old threads and a new one that starts the function with its
  own stack; the new circle is closed, free of repetitions and sorted by priority from
  \<open>head_thread\<close> to \<open>tail_thread\<close>; no other context, stack or priority changes and the
  running thread goes on.
\<close>

theorem create_keeps_circle:
  assumes "circle_ok s xs" and "env_fresh env" and "live_uthreads s = int (length xs)"
    and "int32_ok (live_uthreads s + 1)" and "int32_ok (uthread_id s + 1)"
  shows "\<exists>a k ys s'. uthread_create env s func val pri = Inr (uthread_id s + 1, s') \<and>
    threads s a = None \<and> mset ys = mset (a # xs) \<and> sched_inv s' ys \<and>
    live_uthreads s' = int (length ys) \<and> current_thread s' = current_thread s \<and>
    thread_data (threads s') = (thread_data (threads s))(a \<mapsto> (Start func val, Some k, pri))"
  using create_linked [OF assms(1-4), of func val pri] assms(5) by simp blast

theorem create_keeps_circle_witness:
  "\<exists>a k ys s'. uthread_create ex_ut_env ex_sched 7 8 4 = Inr (3, s') \<and>
    threads ex_sched a = None \<and> mset ys = mset [a, 2, 3, 4] \<and> sched_inv s' ys \<and>
    live_uthreads s' = int (length ys) \<and> current_thread s' = Some 4 \<and>
    thread_data (threads s') = (thread_data (threads ex_sched))(a \<mapsto> (Start 7 8, Some k, 4))"
  using create_keeps_circle [OF sched_invD(1) [OF ex_sched_inv] ex_ut_env_fresh, of 7 8 4]
  by (simp add: ex_sched_fields int32_ok_def)

text \<open>
  \<open>uthread_exit\<close> ends and takes exactly the running thread out of the circle, with its struct
  and its stack freed, the invariant kept and every other thread untouched. The next thread in
  the circle runs then, unless it is of lower priority than the one that left and that one was
  not the head: then, and at the tail, the head runs.
\<close>

theorem exit_removes_current:
  assumes "sched_inv s (us @ c # vs)" and "current_thread s = Some c" and "us @ vs \<noteq> []"
  shows "\<exists>s'. uthread_exit s = Some (Inr s') \<and> sched_inv s' (us @ vs) \<and>
    current_thread s' = Some (next_after_exit (threads s) us c vs) \<and> threads s' c = None \<and>
    stacks s' = freed_stack (threads s) c (stacks s) \<and>
    (\<forall>a. a \<in> set (us @ vs) \<longrightarrow> thread_data (threads s') a = thread_data (threads s) a)"
  using exit_spec [OF assms] by auto

theorem exit_removes_current_witness:
  "\<exists>s'. uthread_exit ex_sched2 = Some (Inr s') \<and> sched_inv s' [3, 4] \<and>
    current_thread s' = Some 3 \<and> threads s' 2 = None \<and> stacks s' = [8 \<mapsto> ()]"
proof -
  have "next_after_exit (threads ex_sched2) [] 2 [3, 4] = 3" by (simp add: next_after_exit_def)
  moreover have "freed_stack (threads ex_sched2) 2 (stacks ex_sched2) = [8 \<mapsto> ()]"
    by (auto simp: freed_stack_def stack_of_def ex_sched2_def ex_sched_def fun_eq_iff)
  moreover have "current_thread ex_sched2 = Some 2" by (simp add: ex_sched2_def)
  ultimately show ?thesis
    using exit_removes_current [of ex_sched2 "[]" 2 "[3, 4]"] ex_sched2_inv by auto
qed

text \<open>
  After any \<open>uthread_exit\<close> the program can create no thread any more: \<open>live_uthreads\<close> is
  never decremented, so the next \<open>uthread_create\<close> lets \<open>qsort\<close> follow slots of its buffer
  that were never written.
\<close>

theorem create_after_exit:
  assumes "sched_inv s xs" and "live_uthreads s = int (length xs)" and "2 \<le> length xs"
    and "env_fresh env" and "int32_ok (live_uthreads s + 1)"
  shows "\<exists>s'. uthread_exit s = Some (Inr s') \<and> uthread_create env s' func val pri = Inl Uninit_Read"
proof -
  obtain us c vs where xs: "xs = us @ c # vs" and cur: "current_thread s = Some c"
    using circle_split [OF sched_invD(1) [OF assms(1)]] .
  with assms(3) have "us @ vs \<noteq> []" by auto
  from exit_spec [OF assms(1) [unfolded xs] cur this] obtain s' where
    s': "uthread_exit s = Some (Inr s')" "sched_inv s' (us @ vs)" "live_uthreads s' = live_uthreads s"
    by blast
  with create_uninit [OF sched_invD(1) [OF s'(2)] assms(4)] assms(2,5) xs show ?thesis by auto
qed

theorem create_after_exit_witness:
  "\<exists>s'. uthread_exit ex_sched = Some (Inr s') \<and> uthread_create ex_ut_env s' 7 8 4 = Inl Uninit_Read"
  using create_after_exit [OF ex_sched_inv _ _ ex_ut_env_fresh] by (simp add: ex_sched_fields int32_ok_def)

text \<open>
  A program whose main thread leaves before any thread was created does not end with
  status 0, as after the last thread has left: \<open>uthread_init\<close> does not set \<open>head_thread\<close>, and
  the search for the predecessor follows the null pointer.
\<close>

theorem exit_before_create:
  assumes "env_fresh env"
  shows "\<exists>s. uthread_init env sched0 = Inr s \<and> uthread_exit s = Some (Inl Null_Deref)"
proof -
  from init_inv [OF assms] obtain a s where
    s: "uthread_init env sched0 = Inr s" "circle_ok s [a]" "live_uthreads s = 1" "head_thread s = None"
    by blast
  then have "reach_inv s [a]" by (simp add: reach_inv_def)
  moreover have "\<not> sched_inv s' []" for s' by (auto simp: sched_inv_def circle_ok_def ring_def)
  ultimately have "uthread_exit s = Some (Inl (Exit 0)) \<or> uthread_exit s = Some (Inl Null_Deref)"
    using reach_exit [of s "[a]"] by auto
  moreover have "uthread_exit s \<noteq> Some (Inl (Exit 0))"
    using s(2,4) by (subst uthread_exit_def) (auto simp: Let_def find_prev.simps circle_ok_def)
  ultimately show ?thesis using s(1) by blast
qed

theorem exit_before_create_witness:
  "\<exists>s. uthread_init ex_ut_env sched0 = Inr s \<and> uthread_exit s = Some (Inl Null_Deref)"
  by (rule exit_before_create [OF ex_ut_env_fresh])

section \<open>Yielding\<close>

text \<open>
  C10. \<open>uthread_yield\<close> implements the scheduling policy \<open>next_run\<close>: from the thread at position
  \<open>i\<close> of the circle it switches to the next one if that is of the same priority (or \<open>i\<close> is the
  tail), and to the head of the circle otherwise; only the context of the thread that gives
  up the processor changes.
\<close>

theorem yield_refines:
  assumes "sched_inv s xs" and "i < length xs" and "current_thread s = Some (xs ! i)"
  shows "\<exists>h. uthread_yield s = Inr (s\<lparr>threads := h,
      current_thread := Some (xs ! next_run (map (pri_of (threads s)) xs) i)\<rparr>) \<and>
    sched_inv (s\<lparr>threads := h,
      current_thread := Some (xs ! next_run (map (pri_of (threads s)) xs) i)\<rparr>) xs \<and>
    pri_of h = pri_of (threads s) \<and> (\<forall>a. a \<noteq> xs ! i \<longrightarrow> h a = threads s a)"
proof -
  from yield_runs [OF assms] obtain h where
    h: "uthread_yield s = Inr (s\<lparr>threads := h,
      current_thread := Some (xs ! next_run (map (pri_of (threads s)) xs) i)\<rparr>)"
      "next_of h = next_of (threads s)" "pri_of h = pri_of (threads s)"
      "stack_of h = stack_of (threads s)" "finite (dom h)" "\<forall>a. a \<noteq> xs ! i \<longrightarrow> h a = threads s a"
    by blast
  have "next_run (map (pri_of (threads s)) xs) i < length xs"
    using next_run_bound [of "map (pri_of (threads s)) xs" i] sched_invD(3) [OF assms(1)] by simp
  with sched_inv_switch [OF assms(1) h(2-5)] h show ?thesis by auto
qed

theorem yield_refines_witness:
  "\<exists>h. uthread_yield ex_sched2 = Inr (ex_sched2\<lparr>threads := h, current_thread := Some 3\<rparr>) \<and>
    sched_inv (ex_sched2\<lparr>threads := h, current_thread := Some 3\<rparr>) [2, 3, 4]"
proof -
  have "next_run (map (pri_of (threads ex_sched2)) [2, 3, 4]) 0 = 1"
    by (simp add: next_run_def ex_sched2_def ex_sched_fields)
  then show ?thesis using yield_refines [OF ex_sched2_inv, of 0] by (auto simp: ex_sched2_def)
qed

text \<open>
  The threads of the highest priority take turns: once one of the \<open>m\<close> of them runs, the
  \<open>k\<close>th yield hands the processor to the thread \<open>k\<close> places further in their cycle, so each of
  them runs again within \<open>m\<close> yields.
\<close>

theorem top_class_round_robin:
  assumes "sched_inv s xs" and "m = top_size (pri_of (threads s)) xs" and "i < m"
    and "current_thread s = Some (xs ! i)"
  shows "(\<forall>k. \<exists>s'. repeat_step uthread_yield k s = Inr s' \<and>
      current_thread s' = Some (xs ! ((i + k) mod m))) \<and>
    (\<forall>j. j < m \<longrightarrow> (\<exists>k < m. \<exists>s'. repeat_step uthread_yield k s = Inr s' \<and>
      current_thread s' = Some (xs ! j)))"
proof -
  let ?pr = "pri_of (threads s)"
  have "i < length xs" using top_size_bounds(2) [OF sched_invD(3) [OF assms(1)], of ?pr] assms(2,3) by simp
  then have at: "runs_at xs ?pr s i" using assms(1,4) by (simp add: runs_at_def)
  have "\<exists>s'. repeat_step uthread_yield k s = Inr s' \<and> current_thread s' = Some (xs ! ((i + k) mod m))" for k
    using top_class.yields_cycle [OF at, of k] assms(2,3) by (auto simp: runs_at_def)
  moreover have "\<exists>k < m. \<exists>s'. repeat_step uthread_yield k s = Inr s' \<and> current_thread s' = Some (xs ! j)"
    if "j < m" for j
    using top_class.yields_reach [OF at, of j] that assms(2,3) by (auto simp: runs_at_def)
  ultimately show ?thesis by blast
qed

theorem top_class_round_robin_witness:
  "\<exists>s'. repeat_step uthread_yield 5 ex_sched2 = Inr s' \<and> current_thread s' = Some 3"
proof -
  have "current_thread ex_sched2 = Some ([2, 3, 4] ! 0)" by (simp add: ex_sched2_def)
  from top_class_round_robin [OF ex_sched2_inv ex_top_size [symmetric] zero_less_numeral this]
  have "\<exists>s'. repeat_step uthread_yield 5 ex_sched2 = Inr s' \<and>
      current_thread s' = Some ([2, 3, 4] ! ((0 + 5) mod 2))" by blast
  then show ?thesis by simp
qed

text \<open>
  Below the highest priority no thread ever runs again: while a thread of the highest
  priority runs, no number of yields (or timer ticks) reaches a thread of a lower one. The
  scheduler is fair within the highest class only.
\<close>

theorem lower_priorities_starve:
  assumes "sched_inv s xs" and "current_thread s = Some c"
    and "pri_of (threads s) c = pri_of (threads s) (hd xs)"
    and "pri_of (threads s) (hd xs) < pri_of (threads s) d"
  shows "\<exists>s'. repeat_step uthread_yield k s = Inr s' \<and> current_thread s' \<noteq> Some d"
proof -
  let ?pr = "pri_of (threads s)" and ?m = "top_size (pri_of (threads s)) xs"
  from assms(1,2) obtain i where i: "i < length xs" "c = xs ! i"
    by (auto simp: sched_inv_def circle_ok_def in_set_conv_nth)
  then have at: "runs_at xs ?pr s i" using assms(1,2) by (simp add: runs_at_def)
  have im: "i < ?m"
    using top_size_out [of ?pr xs i] runs_at_sorted [OF at] assms(3) i by (cases "i < ?m") auto
  from top_class.yields_cycle [OF at im, of k] obtain s' where
    s': "repeat_step uthread_yield k s = Inr s'" "runs_at xs ?pr s' ((i + k) mod ?m)" by blast
  have "(i + k) mod ?m < ?m" using im by (intro mod_less_divisor) auto
  then have "?pr (xs ! ((i + k) mod ?m)) \<noteq> ?pr d" using top_size_in [of _ ?pr xs] assms(4) by simp
  with s' show ?thesis by (auto simp: runs_at_def)
qed

theorem lower_priorities_starve_witness:
  "\<exists>s'. repeat_step uthread_yield 1000 ex_sched2 = Inr s' \<and> current_thread s' \<noteq> Some 4"
  by (rule lower_priorities_starve [OF ex_sched2_inv, of 2])
    (simp_all add: ex_sched2_def ex_sched_fields)

text \<open>
  From any thread the head of the circle, a thread of the highest priority, gets the
  processor after fewer yields than there are threads.
\<close>

theorem highest_priority_runs_soon:
  assumes "sched_inv s xs"
  shows "\<exists>k < length xs. \<exists>s'. repeat_step uthread_yield k s = Inr s' \<and> sched_inv s' xs \<and>
    current_thread s' = head_thread s"
proof -
  from assms obtain i where i: "i < length xs" "current_thread s = Some (xs ! i)"
    by (auto simp: sched_inv_def circle_ok_def in_set_conv_nth)
  then have "runs_at xs (pri_of (threads s)) s i" using assms by (simp add: runs_at_def)
  from head_reached [OF this] obtain k s' where
    k: "k \<le> (if i = 0 then 0 else length xs - i)" and
    s': "repeat_step uthread_yield k s = Inr s'" "runs_at xs (pri_of (threads s)) s' 0" by blast
  from k i(1) have "k < length xs" by (auto split: if_splits)
  with s' sched_invD(2) [OF assms] show ?thesis by (auto simp: runs_at_def)
qed

theorem highest_priority_runs_soon_witness:
  "\<exists>k < 3. \<exists>s'. repeat_step uthread_yield k ex_sched = Inr s' \<and> sched_inv s' [2, 3, 4] \<and>
    current_thread s' = Some 2"
proof -
  have "head_thread ex_sched = Some 2" "length [2, 3, 4 :: nat] = 3" by (simp_all add: ex_sched_def)
  with highest_priority_runs_soon [OF ex_sched_inv] show ?thesis by (simp only:)
qed

section \<open>All reachable states\<close>

text \<open>
  C11. In every state that any sequence of creations, yields, timer signals and exits leads to,
  the calls not being interrupted, the threads form one closed circle sorted by priority with
  the running thread in it. There every call has just one outcome. A yield succeeds and keeps
  the circle. A creation overflows when one of the two counters is at its limit; else it reads
  unwritten slots when more threads are counted than are linked (since an exit does not count
  down); else it succeeds, and the new circle is the old one with the new thread. An exit takes
  the running thread, and no other, out of the circle when there are two threads or more; the
  only thread ends the process with status 0, or, when none was ever created, follows the null
  \<open>head_thread\<close>. What interrupted calls do is proved of \<open>uthread_create\<close> in UThreadRace.thy
  and of \<open>uthread_yield\<close> in YieldRace.thy.
\<close>

theorem sched_reachable_safe:
  assumes "sched_reachable env s" and "env_fresh env"
  shows "\<exists>xs c. circle_ok s xs \<and> current_thread s = Some c \<and> c \<in> set xs \<and>
    int (length xs) \<le> live_uthreads s \<and>
    (\<exists>s'. uthread_yield s = Inr s' \<and> circle_ok s' xs \<and> live_uthreads s' = live_uthreads s) \<and>
    (if \<not> int32_ok (live_uthreads s + 1) then uthread_create env s func val pri = Inl Int_Overflow
     else if int (length xs) < live_uthreads s then uthread_create env s func val pri = Inl Uninit_Read
     else if \<not> int32_ok (uthread_id s + 1) then uthread_create env s func val pri = Inl Int_Overflow
     else \<exists>a k ys s'. uthread_create env s func val pri = Inr (uthread_id s + 1, s') \<and>
       threads s a = None \<and> mset ys = mset (a # xs) \<and> sched_inv s' ys \<and>
       live_uthreads s' = int (length ys) \<and>
       thread_data (threads s') = (thread_data (threads s))(a \<mapsto> (Start func val, Some k, pri))) \<and>
    (if 2 \<le> length xs then \<exists>s' ys. uthread_exit s = Some (Inr s') \<and> sched_inv s' ys \<and>
       set ys = set xs - {c} \<and> threads s' c = None \<and> live_uthreads s' = live_uthreads s
     else uthread_exit s = Some (Inl (if head_thread s = None then Null_Deref else Exit 0)))"
proof -
  from reachable_inv [OF assms] obtain xs where xs: "reach_inv s xs" by blast
  then have "circle_ok s xs" "int (length xs) \<le> live_uthreads s" by (simp_all add: reach_inv_def)
  moreover from reach_yield [OF xs] yield_counts
  have "\<exists>s'. uthread_yield s = Inr s' \<and> circle_ok s' xs \<and> live_uthreads s' = live_uthreads s"
    by (auto simp: reach_inv_def)
  ultimately show ?thesis
    using exit_outcome [OF xs] create_outcome [OF xs assms(2), of func val pri] by blast
qed

text \<open>After the first creation the theorem gives the next creation and the exit of the main thread.\<close>

theorem sched_reachable_safe_witness:
  "\<exists>s0 s. uthread_init ex_ut_env sched0 = Inr s0 \<and> uthread_create ex_ut_env s0 5 0 3 = Inr (1, s) \<and>
    (\<exists>s'. uthread_create ex_ut_env s 6 0 4 = Inr (2, s')) \<and> (\<exists>s'. uthread_exit s = Some (Inr s'))"
proof -
  from init_inv [OF ex_ut_env_fresh] obtain a s0 where
    s0: "uthread_init ex_ut_env sched0 = Inr s0" "circle_ok s0 [a]" "live_uthreads s0 = 1"
      "uthread_id s0 = 0" by blast
  from create_linked [OF s0(2) ex_ut_env_fresh, of 5 0 3] s0(3,4) obtain b ys s where
    run: "uthread_create ex_ut_env s0 5 0 3 = Inr (1, s)" "sched_inv s ys" "mset ys = mset [b, a]"
      "live_uthreads s = int (length ys)" by (auto simp: int32_ok_def)
  from mset_eq_length [OF run(3)] run have
    s: "uthread_create ex_ut_env s0 5 0 3 = Inr (1, s)" "sched_inv s ys" "length ys = 2"
      "live_uthreads s = 2" by simp_all
  have id: "uthread_id s = 1" using create_counts [OF s(1)] s0(4) by simp
  have inv: "reach_inv s ys" using s by (simp add: reach_inv_def sched_inv_def)
  have "sched_reachable ex_ut_env s"
    using sched_reachable.init [OF s0(1)] sched_step.create [OF s(1)] by (rule sched_reachable.step)
  from sched_reachable_safe [OF this ex_ut_env_fresh, of 6 0 4] obtain xs where
    C: "circle_ok s xs" "int (length xs) < 2 \<Longrightarrow> uthread_create ex_ut_env s 6 0 4 = Inl Uninit_Read"
      "\<not> int (length xs) < 2 \<Longrightarrow> \<exists>s'. uthread_create ex_ut_env s 6 0 4 = Inr (2, s')"
      "2 \<le> length xs \<Longrightarrow> \<exists>s'. uthread_exit s = Some (Inr s')"
    by (fastforce simp: s(4) id int32_ok_def split: if_splits)
  have "uthread_create ex_ut_env s 6 0 4 \<noteq> Inl Uninit_Read"
    using create_outcome [OF inv ex_ut_env_fresh, of 6 0 4] s(3,4) id by (auto simp: int32_ok_def)
  then have "\<not> int (length xs) < 2" using C(2) by blast
  with C(3,4) s0(1) s(1) show ?thesis by auto
qed

section \<open>Library functions that compute\<close>

text \<open>An allocator that computes: the first address from \<open>a\<close> on that is free.\<close>

partial_function (option) free_from :: "(nat \<rightharpoonup> 'a) \<Rightarrow> nat \<Rightarrow> ptr" where
  "free_from h a = (case h a of None \<Rightarrow> Some a | Some x \<Rightarrow> free_from h (Suc a))"

declare free_from.simps [code]

definition small_address :: "(nat \<rightharpoonup> 'a) \<Rightarrow> ptr" where
  "small_address h = free_from h 1"

lemma small_address_free:
  fixes h :: "nat \<rightharpoonup> 'a"
  assumes "finite (dom h)"
  shows "\<exists>a. small_address h = Some a \<and> h a = None"
proof -
  have "\<exists>b. free_from h a = Some b \<and> h b = None" for a
  proof (induction "card {b \<in> dom h. a \<le> b}" arbitrary: a rule: less_induct)
    case less
    show ?case
    proof (cases "h a = None")
      case True
      then show ?thesis by (subst free_from.simps) simp
    next
      case False
      then have "a \<in> {b \<in> dom h. a \<le> b}" by auto
      moreover have "a \<notin> {b \<in> dom h. Suc a \<le> b}" "{b \<in> dom h. Suc a \<le> b} \<subseteq> {b \<in> dom h. a \<le> b}" by auto
      ultimately have "{b \<in> dom h. Suc a \<le> b} \<subset> {b \<in> dom h. a \<le> b}" by blast
      then have "card {b \<in> dom h. Suc a \<le> b} < card {b \<in> dom h. a \<le> b}"
        using assms by (intro psubset_card_mono) auto
      from less [OF this] False show ?thesis by (subst free_from.simps) auto
    qed
  qed
  then show ?thesis by (simp add: small_address_def)
qed

definition test_ut_env :: ut_env where
  "test_ut_env = \<lparr>malloc_thread = small_address, malloc_stack = small_address, malloc_buf = (\<lambda>n. True),
     getcontext_ok = True, setitimer_ok = True, sigaction_ok = True, sort_threads = insertion_sort\<rparr>"

lemma test_ut_env_fresh: "env_fresh test_ut_env"
  by (simp add: env_fresh_def test_ut_env_def small_address_free insertion_sort_ok)

end
