(* ===== verification/UThreadRace.thy ===== *)
theory UThreadRace imports UThreadProps begin

text \<open>
  \<open>uthread_create\<close> does not block the signal of the timer: here it is cut where its last accesses of what all
  threads share are far apart, and the timer may let another thread run between the parts.
\<close>

section \<open>The parts of uthread_create\<close>

text \<open>Up to the increment of \<open>live_uthreads\<close>; the result is the new thread.\<close>

definition create_begin :: "ut_env \<Rightarrow> sched \<Rightarrow> nat \<Rightarrow> int \<Rightarrow> int \<Rightarrow> (nat \<times> sched) res" where
  "create_begin env s func val pri =
     (case malloc_thread env (threads s) of
        None \<Rightarrow> Inl Null_Deref
      | Some new_thread \<Rightarrow>
          if \<not> getcontext_ok env then Inl (Exit (-1))
          else
            let stack = malloc_stack env (stacks s);
                stacks1 = (case stack of None \<Rightarrow> stacks s | Some a \<Rightarrow> (stacks s)(a \<mapsto> ())) in
            bindr (c_int (live_uthreads s + 1)) (\<lambda>live.
            Inr (new_thread, s\<lparr>threads := (threads s)(new_thread \<mapsto>
                   \<lparr>ut_context = Start func val, ut_stack = stack, ut_pri = pri, ut_next = None\<rparr>),
                 stacks := stacks1, live_uthreads := live\<rparr>)))"

text \<open>The copy of the circle into the buffer.\<close>

definition create_copy :: "ut_env \<Rightarrow> sched \<Rightarrow> nat \<Rightarrow> nat list res" where
  "create_copy env s new_thread =
     bindr (load (threads s) (current_thread s)) (\<lambda>cur.
     if \<not> malloc_buf env (nat (live_uthreads s) * 8) then Inl Null_Deref
     else
       bindr (collect_ring (threads s) (current_thread s) (ut_next cur) (nat (live_uthreads s))) (\<lambda>others.
       let filled = others @ [the (current_thread s), new_thread] in
       if length filled > nat (live_uthreads s) then Inl Out_Of_Bounds else Inr filled))"

text \<open>
  Sorting, which follows the pointers in the buffer, and linking; \<open>qsort\<close> is called with the number of threads
  as it is then.
\<close>

definition create_link :: "ut_env \<Rightarrow> sched \<Rightarrow> nat list \<Rightarrow> (int \<times> sched) res" where
  "create_link env s filled =
     (if length filled < nat (live_uthreads s) then Inl Uninit_Read
      else
        bindr (mapr (\<lambda>a. load (threads s) (Some a)) filled) (\<lambda>ts.
        let thread_buf = sort_threads env (uthread_priority_sort (threads s)) filled in
        bindr (retie (threads s) thread_buf (Some (hd thread_buf))) (\<lambda>h2.
        bindr (load h2 (Some (last thread_buf))) (\<lambda>tl.
        if ut_next tl \<noteq> Some (hd thread_buf) then Inl Assert_Failed
        else
          bindr (c_int (uthread_id s + 1)) (\<lambda>id.
          Inr (id, s\<lparr>threads := h2, head_thread := Some (hd thread_buf), tail_thread := Some (last thread_buf),
            uthread_id := id\<rparr>))))))"

lemma collect_ring_live:
  "collect_ring h c p n = Inr as \<Longrightarrow> a \<in> set as \<Longrightarrow> h a \<noteq> None"
proof (induction n arbitrary: p as)
  case 0
  then show ?case by (subst (asm) collect_ring.simps) (auto split: if_splits)
next
  case (Suc n)
  then show ?case
    by (subst (asm) (2) collect_ring.simps) (auto simp: res_simps split: if_splits option.splits)
qed

text \<open>Without an interruption the parts are \<open>uthread_create\<close>.\<close>

lemma uthread_create_parts:
  "uthread_create env s func val pri =
    bindr (create_begin env s func val pri) (\<lambda>(a, s1). bindr (create_copy env s1 a) (create_link env s1))"
proof (cases "malloc_thread env (threads s)")
  case None
  then show ?thesis by (simp add: uthread_create_def create_begin_def)
next
  case (Some a)
  show ?thesis
  proof (cases "create_begin env s func val pri")
    case (Inl e)
    with Some show ?thesis
      by (auto simp: uthread_create_def create_begin_def Let_def res_simps split: if_splits)
  next
    case (Inr r)
    obtain h1 stacks1 where s1: "r = (a, s\<lparr>threads := h1, stacks := stacks1, live_uthreads := live_uthreads s + 1\<rparr>)"
      and create: "uthread_create env s func val pri =
        bindr (rebuild_circle env h1 (current_thread s) a (nat (live_uthreads s + 1))) (\<lambda>(h2, hd2, tl2).
        bindr (c_int (uthread_id s + 1)) (\<lambda>id.
        Inr (id, s\<lparr>threads := h2, stacks := stacks1, head_thread := Some hd2,
                   tail_thread := Some tl2, live_uthreads := live_uthreads s + 1, uthread_id := id\<rparr>)))"
      and new: "h1 a \<noteq> None"
      using Inr Some
      by (auto simp: create_begin_def uthread_create_def Let_def c_int_def split: if_splits)
    let ?s1 = "s\<lparr>threads := h1, stacks := stacks1, live_uthreads := live_uthreads s + 1\<rparr>"
    have "uthread_create env s func val pri = bindr (create_copy env ?s1 a) (create_link env ?s1)"
    proof (cases "create_copy env ?s1 a")
      case (Inl e)
      then show ?thesis unfolding create
        by (auto simp: create_copy_def rebuild_circle_def Let_def res_simps split: if_splits)
    next
      case (Inr filled)
      have "\<forall>b \<in> set filled. \<exists>t. h1 b = Some t"
        using Inr new collect_ring_live [of h1 "current_thread s"]
        by (fastforce simp: create_copy_def res_simps heap_simps Let_def split: if_splits)
      then have "mapr (\<lambda>b. load h1 (Some b)) filled = Inr (map (\<lambda>b. the (h1 b)) filled)"
        by (intro mapr_Inr) auto
      with Inr show ?thesis unfolding create
        by (auto simp: create_copy_def create_link_def rebuild_circle_def Let_def bindr_assoc res_simps
          split: if_splits intro!: bindr_cong)
    qed
    with Inr s1 show ?thesis by simp
  qed
qed

section \<open>What an interruption does\<close>

lemma create_begin_inv:
  assumes inv: "sched_inv s xs" and env: "env_fresh env" and n: "int32_ok (live_uthreads s + 1)"
  shows "\<exists>a s1. create_begin env s func val pri = Inr (a, s1) \<and> sched_inv s1 xs \<and> a \<notin> set xs \<and>
    live_uthreads s1 = live_uthreads s + 1 \<and> current_thread s1 = current_thread s"
proof -
  note C = sched_invD(1) [OF inv]
  obtain a k where a: "malloc_thread env (threads s) = Some a" "threads s a = None"
    and k: "malloc_stack env (stacks s) = Some k" "stacks s k = None"
    using env C unfolding env_fresh_def circle_ok_def by blast
  let ?t = "\<lparr>ut_context = Start func val, ut_stack = Some k, ut_pri = pri, ut_next = None\<rparr>"
  let ?s1 = "s\<lparr>threads := (threads s)(a \<mapsto> ?t), stacks := (stacks s)(k \<mapsto> ()), live_uthreads := live_uthreads s + 1\<rparr>"
  have new: "a \<notin> set xs" using circle_okD(4) [OF C] a(2) by blast
  have "getcontext_ok env" using env by (simp add: env_fresh_def)
  then have run: "create_begin env s func val pri = Inr (a, ?s1)"
    using a(1) k(1) n by (simp add: create_begin_def)
  define h1 where "h1 = threads ?s1"
  have data: "next_of h1 x = next_of (threads s) x" "pri_of h1 x = pri_of (threads s) x"
    "stack_of h1 x = stack_of (threads s) x" if "x \<in> set xs" for x
    using that new by (auto simp: next_of_def pri_of_def stack_of_def h1_def)
  have "ring (next_of h1) xs"
    using circle_okD(1) [OF C] path_cong [of xs "next_of h1" "next_of (threads s)"] data(1)
    by (auto simp: ring_def)
  moreover have "sorted (map (pri_of h1) xs)"
  proof -
    have "map (pri_of h1) xs = map (pri_of (threads s)) xs" using data(2) by simp
    then show ?thesis using C by (simp only: circle_ok_def)
  qed
  moreover have "inj_on (stack_of h1) {x \<in> set xs. stack_of h1 x \<noteq> None}"
  proof -
    have "{x \<in> set xs. stack_of h1 x \<noteq> None} = {x \<in> set xs. stack_of (threads s) x \<noteq> None}" using data(3) by auto
    then show ?thesis using C data(3) by (auto simp: circle_ok_def inj_on_def)
  qed
  moreover have "\<forall>x \<in> set xs. \<forall>j. stack_of h1 x = Some j \<longrightarrow> stacks ?s1 j \<noteq> None"
    using C data(3) by (auto simp: circle_ok_def)
  moreover have "finite (dom h1)" "finite (dom (stacks ?s1))" using C by (simp_all add: circle_ok_def h1_def)
  ultimately have "circle_ok ?s1 xs"
    using C unfolding circle_ok_def h1_def [symmetric] by simp
  then have "sched_inv ?s1 xs" using inv by (simp add: sched_inv_def)
  with run new show ?thesis by fastforce
qed

lemma create_copy_runs:
  assumes inv: "sched_inv s1 xs" and env: "env_fresh env" and a: "a \<notin> set xs" and n: "live_uthreads s1 = int (length xs) + 1"
  shows "\<exists>buf. create_copy env s1 a = Inr buf \<and> set buf = insert a (set xs) \<and> length buf = length xs + 1"
proof -
  note C = sched_invD(1) [OF inv]
  obtain us c vs where xs: "xs = us @ c # vs" and cur: "current_thread s1 = Some c"
    using circle_split [OF C] .
  have p: "path (next_of (threads s1)) (Some c) ((c # vs) @ us) (Some c)"
    using ring_rotated [of "next_of (threads s1)" us "c # vs"] circle_okD(1) [OF C] xs by simp
  then obtain ct where ct: "threads s1 c = Some ct" "path (next_of (threads s1)) (ut_next ct) (vs @ us) (Some c)"
    by (auto dest!: next_live)
  have "distinct xs" using circle_okD(3) [OF C] .
  then have "collect_ring (threads s1) (Some c) (ut_next ct) (nat (live_uthreads s1)) = Inr (vs @ us)"
    using ct(2) xs n by (intro collect_ring_path) auto
  moreover have "malloc_buf env m" for m using env by (simp add: env_fresh_def)
  ultimately have "create_copy env s1 a = Inr ((vs @ us) @ [c, a])"
    using cur ct(1) n xs by (simp add: create_copy_def Let_def)
  then show ?thesis using xs by auto
qed

lemma yields_keep:
  assumes "sched_inv s xs" and "repeat_step uthread_yield k s = Inr s'"
  shows "sched_inv s' xs \<and> live_uthreads s' = live_uthreads s"
  using assms
proof (induction k arbitrary: s)
  case (Suc k)
  obtain i where i: "i < length xs" "current_thread s = Some (xs ! i)"
    using sched_invD(1) [OF Suc.prems(1)] by (auto simp: circle_ok_def in_set_conv_nth)
  from yield_spec [OF Suc.prems(1) i] Suc.prems(2) Suc.IH show ?case by auto
qed simp

text \<open>
  C8. \<open>uthread_create\<close> must not be interrupted, but it does not block the timer: if other threads run after it
  has counted its thread and before it has linked it, then a \<open>uthread_create\<close> of any of them sorts slots that
  nothing has written; and if one of them exits after the circle was copied, then the creation that was
  interrupted goes on to sort a pointer to memory that was freed.
\<close>

theorem create_interrupted:
  assumes "sched_inv s xs" and "live_uthreads s = int (length xs)" and "env_fresh env" and "int32_ok (live_uthreads s + 2)"
  shows "\<exists>a s1 buf. create_begin env s func val pri = Inr (a, s1) \<and> create_copy env s1 a = Inr buf \<and>
    (\<forall>k s2. repeat_step uthread_yield k s1 = Inr s2 \<longrightarrow>
      uthread_create env s2 func' val' pri' = Inl Uninit_Read \<and>
      (\<forall>s3. current_thread s2 \<noteq> current_thread s1 \<longrightarrow> uthread_exit s2 = Some (Inr s3) \<longrightarrow>
        create_link env s3 buf = Inl Dangling))"
proof -
  have "int32_ok (live_uthreads s + 1)" using assms(2,4) by (simp add: int32_ok_def)
  from create_begin_inv [OF assms(1,3) this, of func val pri] obtain a s1 where
    s1: "create_begin env s func val pri = Inr (a, s1)" "sched_inv s1 xs" "a \<notin> set xs"
      "live_uthreads s1 = int (length xs) + 1" using assms(2) by auto
  from create_copy_runs [OF s1(2) assms(3) s1(3,4)] obtain buf where
    buf: "create_copy env s1 a = Inr buf" "set buf = insert a (set xs)" "length buf = length xs + 1" by blast
  have "uthread_create env s2 func' val' pri' = Inl Uninit_Read \<and>
      (\<forall>s3. current_thread s2 \<noteq> current_thread s1 \<longrightarrow> uthread_exit s2 = Some (Inr s3) \<longrightarrow>
        create_link env s3 buf = Inl Dangling)"
    if "repeat_step uthread_yield k s1 = Inr s2" for k s2
  proof (intro conjI allI impI)
    from yields_keep [OF s1(2) that] s1(4) have s2: "sched_inv s2 xs" "live_uthreads s2 = int (length xs) + 1" by auto
    then show "uthread_create env s2 func' val' pri' = Inl Uninit_Read"
      using assms(2,4) by (intro create_uninit [OF sched_invD(1) [OF s2(1)] assms(3)]) (simp_all add: add.commute)
    fix s3 assume other: "current_thread s2 \<noteq> current_thread s1" and exit: "uthread_exit s2 = Some (Inr s3)"
    obtain us d vs where xs: "xs = us @ d # vs" and d: "current_thread s2 = Some d"
      using circle_split [OF sched_invD(1) [OF s2(1)]] .
    have "us @ vs \<noteq> []"
    proof
      assume "us @ vs = []"
      then have "current_thread s1 = Some d"
        using sched_invD(1) [OF s1(2)] xs by (auto simp: circle_ok_def)
      with other d show False by simp
    qed
    from exit_spec [OF s2(1) [unfolded xs] d this] exit have
      s3: "threads s3 d = None" "live_uthreads s3 = live_uthreads s2" by auto
    have "d \<in> set buf" using buf(2) xs by simp
    then have "mapr (\<lambda>b. load (threads s3) (Some b)) buf = Inl Dangling"
      by (rule mapr_Inl [where g = "\<lambda>b. the (threads s3 b)"]) (auto simp: s3(1) split: option.split)
    then show "create_link env s3 buf = Inl Dangling" using buf(3) s2(2) s3(2) by (simp add: create_link_def)
  qed
  with s1(1) buf(1) show ?thesis by blast
qed

theorem create_interrupted_witness:
  "\<exists>a s1 buf s2 s3. create_begin ex_ut_env ex_sched 7 8 4 = Inr (a, s1) \<and> create_copy ex_ut_env s1 a = Inr buf \<and>
    repeat_step uthread_yield 1 s1 = Inr s2 \<and> uthread_create ex_ut_env s2 5 6 0 = Inl Uninit_Read \<and>
    uthread_exit s2 = Some (Inr s3) \<and> create_link ex_ut_env s3 buf = Inl Dangling"
proof -
  have n: "live_uthreads ex_sched = int (length [2, 3, 4 :: nat])" "int32_ok (live_uthreads ex_sched + 2)"
    "int32_ok (live_uthreads ex_sched + 1)"
    by (simp_all add: ex_sched_fields int32_ok_def)
  from create_interrupted [OF ex_sched_inv n(1) ex_ut_env_fresh n(2), of 7 8 4 5 6 0] obtain a s1 buf where
    run: "create_begin ex_ut_env ex_sched 7 8 4 = Inr (a, s1)" "create_copy ex_ut_env s1 a = Inr buf" and
    others: "\<And>k s2. repeat_step uthread_yield k s1 = Inr s2 \<Longrightarrow>
      uthread_create ex_ut_env s2 5 6 0 = Inl Uninit_Read \<and>
      (\<forall>s3. current_thread s2 \<noteq> current_thread s1 \<longrightarrow> uthread_exit s2 = Some (Inr s3) \<longrightarrow>
        create_link ex_ut_env s3 buf = Inl Dangling)" by blast
  from create_begin_inv [OF ex_sched_inv ex_ut_env_fresh n(3), of 7 8 4] run(1) have
    s1: "sched_inv s1 [2, 3, 4]" "current_thread s1 = Some 4" by (auto simp: ex_sched_fields)
  have "next_run (map (pri_of (threads s1)) [2, 3, 4]) 2 = 0" by (simp add: next_run_def)
  with yield_spec [OF s1(1), of 2] s1(2) obtain s2 where
    s2: "uthread_yield s1 = Inr s2" "sched_inv s2 ([] @ 2 # [3, 4])" "current_thread s2 = Some 2" by auto
  from exit_spec [OF s2(2,3)] obtain s3 where "uthread_exit s2 = Some (Inr s3)" by auto
  with run others [of 1 s2] s1(2) s2(1,3) show ?thesis by auto
qed

end
