(* ===== verification/YieldRace.thy ===== *)
theory YieldRace imports UThreadProps begin

text \<open>
  \<open>uthread_yield\<close> does not block the signal of the timer, whose handler calls it: here it is cut between the choice
  of the next thread and \<open>swapcontext\<close>. As which thread is current and whose code runs may then differ, the
  state says for each context whose code it would continue, and whose code the processor executes.
\<close>

section \<open>The parts of uthread_yield\<close>

text \<open>Up to \<open>swapcontext\<close>; whether it is reached.\<close>

definition yield_select :: "sched \<Rightarrow> (sched \<times> bool) res" where
  "yield_select s =
     bindr (load (threads s) (current_thread s)) (\<lambda>old.
     if current_thread s = ut_next old then Inr (s, False)
     else
       bindr (load (threads s) (ut_next old)) (\<lambda>nxt.
       if ut_pri old < ut_pri nxt
       then if current_thread s = head_thread s then Inr (s, False) else Inr (s\<lparr>current_thread := head_thread s\<rparr>, True)
       else Inr (s\<lparr>current_thread := ut_next old\<rparr>, True)))"

text \<open>\<open>swapcontext (&old_thread->context, &current_thread->context)\<close>, without the code.\<close>

definition yield_swap :: "ptr \<Rightarrow> sched \<Rightarrow> sched res" where
  "yield_swap old_thread s =
     bindr (store (threads s) old_thread (\<lambda>t. t\<lparr>ut_context := Captured\<rparr>)) (\<lambda>h1.
     bindr (load h1 (current_thread s)) (\<lambda>t. Inr (s\<lparr>threads := h1\<rparr>)))"

text \<open>Without an interruption the parts are \<open>uthread_yield\<close>.\<close>

lemma update_order: "s\<lparr>threads := h, current_thread := p\<rparr> = s\<lparr>current_thread := p, threads := h\<rparr>"
  by (cases s) simp

lemma uthread_yield_parts:
  "uthread_yield s = bindr (yield_select s) (\<lambda>(s1, b). if b then yield_swap (current_thread s) s1 else Inr s1)"
proof (cases "load (threads s) (current_thread s)")
  case (Inr old)
  then show ?thesis
    by (cases "load (threads s) (ut_next old)") (simp_all add: uthread_yield_def yield_select_def yield_swap_def Let_def update_order)
qed (simp add: uthread_yield_def yield_select_def)

section \<open>Whose code runs\<close>

record coded =
  csched :: sched
  code :: "nat \<rightharpoonup> nat"
  cpu :: nat

text \<open>\<open>swapcontext\<close>: the context of \<open>old_thread\<close> gets the code that runs, then that of the current one goes on.\<close>

definition coded_swap :: "ptr \<Rightarrow> coded \<Rightarrow> coded res" where
  "coded_swap old_thread C =
     bindr (yield_swap old_thread (csched C)) (\<lambda>s.
     let code' = (code C)(the old_thread \<mapsto> cpu C) in
     case Option.bind (current_thread s) code' of
       None \<Rightarrow> Inl Uninit_Read
     | Some x \<Rightarrow> Inr \<lparr>csched = s, code = code', cpu = x\<rparr>)"

definition coded_yield :: "coded \<Rightarrow> coded res" where
  "coded_yield C =
     bindr (yield_select (csched C)) (\<lambda>(s1, b).
     if b then coded_swap (current_thread (csched C)) (C\<lparr>csched := s1\<rparr>) else Inr (C\<lparr>csched := s1\<rparr>))"

text \<open>
  What can happen later: the choice in a yield, of the running code or of the handler, and the swap of any yield
  that was interrupted.
\<close>

inductive coded_later :: "coded \<Rightarrow> coded \<Rightarrow> bool" for C where
  now: "coded_later C C"
| select: "coded_later C D \<Longrightarrow> yield_select (csched D) = Inr (s, b) \<Longrightarrow> coded_later C (D\<lparr>csched := s\<rparr>)"
| swap: "coded_later C D \<Longrightarrow> coded_swap old_thread D = Inr E \<Longrightarrow> coded_later C E"

text \<open>The current thread runs its own code, and every other context holds the code of its thread.\<close>

definition coded_ok :: "coded \<Rightarrow> nat list \<Rightarrow> bool" where
  "coded_ok C xs \<longleftrightarrow> sched_inv (csched C) xs \<and> current_thread (csched C) = Some (cpu C) \<and>
     dom (code C) \<subseteq> set xs \<and> (\<forall>t \<in> set xs. t \<noteq> cpu C \<longrightarrow> code C t = Some t) \<and> code C (cpu C) \<in> {None, Some (cpu C)}"

definition code_lost :: "coded \<Rightarrow> nat \<Rightarrow> bool" where
  "code_lost C b \<longleftrightarrow> cpu C \<noteq> b \<and> (\<forall>t. code C t \<noteq> Some b)"

lemma yield_swap_current: "yield_swap p s = Inr s' \<Longrightarrow> current_thread s' = current_thread s"
  by (auto simp: yield_swap_def res_simps)

lemma coded_swap_cases:
  assumes "coded_swap p C = Inr D"
  shows "\<exists>s. yield_swap p (csched C) = Inr s \<and> csched D = s \<and> code D = (code C)(the p \<mapsto> cpu C) \<and>
    Option.bind (current_thread (csched C)) (code D) = Some (cpu D)"
  using assms yield_swap_current [of p "csched C"]
  by (auto simp: coded_swap_def res_simps Let_def split: option.splits)

text \<open>Once the code of a thread is nowhere, it never comes back.\<close>

lemma code_lost_swap: "code_lost C b \<Longrightarrow> coded_swap p C = Inr D \<Longrightarrow> code_lost D b"
  using coded_swap_cases [of p C D] by (auto simp: code_lost_def bind_eq_Some_conv split: if_splits)

lemma code_lost_later: "coded_later C D \<Longrightarrow> code_lost C b \<Longrightarrow> code_lost D b"
proof (induction rule: coded_later.induct)
  case (swap D old_thread E)
  then show ?case using code_lost_swap by blast
qed (simp_all add: code_lost_def)

text \<open>A yield that switches goes to another thread.\<close>

lemma yield_select_other:
  assumes inv: "sched_inv s xs" and run: "yield_select s = Inr (s1, True)"
  shows "current_thread s1 \<noteq> current_thread s \<and> threads s1 = threads s"
  using run by (auto simp: yield_select_def res_simps split: if_splits)

lemma coded_yield_ok:
  assumes ok: "coded_ok C xs"
  shows "\<exists>D. coded_yield C = Inr D \<and> coded_ok D xs \<and> uthread_yield (csched C) = Inr (csched D)"
proof -
  have inv: "sched_inv (csched C) xs" and cur: "current_thread (csched C) = Some (cpu C)"
    using ok by (simp_all add: coded_ok_def)
  obtain i where i: "i < length xs" "current_thread (csched C) = Some (xs ! i)"
    using sched_invD(1) [OF inv] by (auto simp: circle_ok_def in_set_conv_nth)
  from yield_spec [OF inv i] obtain s' where s': "uthread_yield (csched C) = Inr s'" "sched_inv s' xs" by blast
  then obtain s1 b where sel: "yield_select (csched C) = Inr (s1, b)"
    and rest: "(if b then yield_swap (current_thread (csched C)) s1 else Inr s1) = Inr s'"
    by (auto simp: uthread_yield_parts res_simps)
  show ?thesis
  proof (cases b)
    case False
    then have "s1 = csched C" using sel by (auto simp: yield_select_def res_simps split: if_splits)
    then have "C\<lparr>csched := s1\<rparr> = C" by (cases C) simp
    then have "coded_yield C = Inr C" using sel False by (simp add: coded_yield_def)
    with rest False \<open>s1 = csched C\<close> ok s'(1) show ?thesis by simp
  next
    case True
    then have sw: "yield_swap (Some (cpu C)) s1 = Inr s'" using rest cur by simp
    obtain d where d: "current_thread s' = Some d" "d \<in> set xs" using sched_invD(1) [OF s'(2)] by (auto simp: circle_ok_def)
    have "d \<noteq> cpu C" using yield_select_other [OF inv, of s1] sel True yield_swap_current [OF sw] d(1) cur by auto
    then have "code C d = Some d" using ok d(2) by (simp add: coded_ok_def)
    then have "coded_yield C = Inr \<lparr>csched = s', code = (code C)(cpu C \<mapsto> cpu C), cpu = d\<rparr>"
      using sel True sw d(1) \<open>d \<noteq> cpu C\<close> cur by (simp add: coded_yield_def coded_swap_def Let_def)
    moreover have "cpu C \<in> set xs" using cur sched_invD(1) [OF inv] by (auto simp: circle_ok_def)
    ultimately show ?thesis
      using ok s' d \<open>code C d = Some d\<close> \<open>d \<noteq> cpu C\<close> by (auto simp: coded_ok_def)
  qed
qed

section \<open>The property\<close>

text \<open>
  C9. A yield that is not interrupted lets the thread that it chose run its own code, and every other thread keeps
  its code in its context. But \<open>uthread_yield\<close> does not block the timer: if the signal comes after it has chosen
  the thread \<open>b\<close> and before it has switched, and the handler switches to any other thread, then the context of \<open>b\<close>
  is overwritten with the code that was interrupted, and whatever yields and signals follow, in whatever order,
  nothing ever runs the code of \<open>b\<close> again.
\<close>

theorem yield_interrupted:
  assumes ok: "coded_ok C xs" and sel: "yield_select (csched C) = Inr (s1, True)" and b: "current_thread s1 = Some b"
  shows "(\<exists>D. coded_yield C = Inr D \<and> coded_ok D xs \<and> cpu D = b) \<and>
    (\<forall>D E. coded_yield (C\<lparr>csched := s1\<rparr>) = Inr D \<longrightarrow> current_thread (csched D) \<noteq> Some b \<longrightarrow> coded_later D E \<longrightarrow>
      cpu E \<noteq> b \<and> (\<forall>t. code E t \<noteq> Some b))"
proof (intro conjI allI impI)
  have inv: "sched_inv (csched C) xs" and cur: "current_thread (csched C) = Some (cpu C)"
    using ok by (simp_all add: coded_ok_def)
  have ne: "b \<noteq> cpu C" using yield_select_other [OF inv sel] b cur by auto
  from coded_yield_ok [OF ok] obtain D where D: "coded_yield C = Inr D" "coded_ok D xs" by blast
  then have "current_thread (csched D) = Some b"
    using sel b yield_swap_current by (auto simp: coded_yield_def dest!: coded_swap_cases)
  then show "\<exists>D. coded_yield C = Inr D \<and> coded_ok D xs \<and> cpu D = b" using D by (auto simp: coded_ok_def)
  fix D E assume run: "coded_yield (C\<lparr>csched := s1\<rparr>) = Inr D" "current_thread (csched D) \<noteq> Some b" and later: "coded_later D E"
  obtain s2 sw where s2: "yield_select s1 = Inr (s2, sw)"
    "(if sw then coded_swap (Some b) (C\<lparr>csched := s2\<rparr>) else Inr (C\<lparr>csched := s2\<rparr>)) = Inr D"
    using run(1) b by (auto simp: coded_yield_def res_simps cong: if_cong)
  have "s2 = s1" if "\<not> sw" using s2(1) that by (auto simp: yield_select_def res_simps split: if_splits)
  then have sw: "coded_swap (Some b) (C\<lparr>csched := s2\<rparr>) = Inr D" using s2(2) run(2) b by (auto split: if_splits)
  from coded_swap_cases [OF this] obtain s where
    s: "csched D = s" "yield_swap (Some b) s2 = Inr s" "code D = (code C)(b \<mapsto> cpu C)"
      "Option.bind (current_thread s2) (code D) = Some (cpu D)" by auto
  have own: "code C t \<noteq> Some b" if "t \<noteq> b" for t
    using ok that ne by (cases "t = cpu C"; cases "t \<in> set xs") (auto simp: coded_ok_def)
  have "current_thread s2 \<noteq> Some b" using yield_swap_current [OF s(2)] s(1) run(2) by simp
  then have "code_lost D b" using s(3,4) own ne by (auto simp: code_lost_def bind_eq_Some_conv split: if_splits)
  then have "code_lost E b" by (rule code_lost_later [OF later])
  then show "cpu E \<noteq> b" "code E t \<noteq> Some b" for t by (simp_all add: code_lost_def)
qed

text \<open>
  The thread at 2 yields to the one at 3 and is interrupted; the handler goes back to 2, and the code of 3 is lost,
  also after two more yields.
\<close>

definition ex_coded :: coded where
  "ex_coded = \<lparr>csched = ex_sched2, code = [2 \<mapsto> 2, 3 \<mapsto> 3, 4 \<mapsto> 4], cpu = 2\<rparr>"

lemma ex_coded_ok: "coded_ok ex_coded [2, 3, 4]"
  using ex_sched2_inv by (auto simp: coded_ok_def ex_coded_def ex_sched2_def)

lemma ex_coded_values:
  "map_sum id (\<lambda>(s, b). (current_thread s, b)) (yield_select (csched ex_coded)) = Inr (Some 3, True)"
  "map_sum id (\<lambda>D. (current_thread (csched D), cpu D, map (code D) [2, 3, 4], map_sum id snd (yield_select (csched D))))
     (bindr (yield_select (csched ex_coded)) (\<lambda>(s1, b). coded_yield (ex_coded\<lparr>csched := s1\<rparr>))) =
    Inr (Some 2, 2, [Some 2, Some 2, Some 4], Inr True)"
  by code_simp+

theorem yield_interrupted_witness:
  "\<exists>s1 D E. yield_select (csched ex_coded) = Inr (s1, True) \<and> coded_yield (ex_coded\<lparr>csched := s1\<rparr>) = Inr D \<and>
    coded_later D E \<and> cpu E \<noteq> 3 \<and> (\<forall>t. code E t \<noteq> Some 3) \<and> (\<exists>D. coded_yield ex_coded = Inr D \<and> cpu D = 3)"
proof -
  obtain s1 where s1: "yield_select (csched ex_coded) = Inr (s1, True)" "current_thread s1 = Some 3"
    using ex_coded_values(1) by (cases "yield_select (csched ex_coded)") auto
  obtain D where D: "coded_yield (ex_coded\<lparr>csched := s1\<rparr>) = Inr D" "current_thread (csched D) = Some 2"
    and selects: "map_sum id snd (yield_select (csched D)) = Inr True"
    using ex_coded_values(2) s1(1) by (cases "coded_yield (ex_coded\<lparr>csched := s1\<rparr>)") auto
  obtain s2 b where s2: "yield_select (csched D) = Inr (s2, b)"
    using selects by (cases "yield_select (csched D)") auto
  note later = coded_later.select [OF coded_later.now s2]
  from yield_interrupted [OF ex_coded_ok s1] D later s1(1) show ?thesis by fastforce
qed

end
