(* ===== verification/UThreadTest.thy ===== *)
theory UThreadTest imports UThreadProps Decimal "HOL-Library.Sublist" begin

text \<open>
  The program that tests the threads of Asmt_4 (uthread_test.c), on the model of the scheduler: \<open>main\<close> creates four
  threads and then prints one line for ever; each thread prints five times its number and count, and then a row of
  its number while it spends time. The running thread takes one step at a time, between which the timer may
  preempt it; a call of the library is one step (what a signal inside of one does is in UThreadRace and
  YieldRace). What stands behind the endless loop of \<open>main\<close> is never reached and has no points here.
\<close>

section \<open>The program\<close>

text \<open>
  The points of \<open>main\<close> and of \<open>threadFunc (val)\<close>. \<open>Thr_For\<close>: at the test of the loop over \<open>i\<close>; \<open>Thr_Loop\<close>: at the
  test of the loop over \<open>j\<close>; \<open>Thr_Yield\<close>: before the yield at the end of a turn.
\<close>

datatype ut_pc =
    Main_Creates int
  | Main_Waits
  | Thr_For int int
  | Thr_Loop int int int
  | Thr_Yield int int
  | Thr_Exit int

text \<open>The output, each text with the number of the thread that printed it, 0 for \<open>main\<close>.\<close>

record uttest =
  usched :: sched
  upcs :: "nat \<rightharpoonup> ut_pc"
  uoutput :: "(int \<times> string) list"

definition uttest0 :: "sched \<Rightarrow> nat \<Rightarrow> uttest" where
  "uttest0 s c = \<lparr>usched = s, upcs = [c \<mapsto> Main_Creates 1], uoutput = []\<rparr>"

definition at_pc :: "uttest \<Rightarrow> nat \<Rightarrow> ut_pc \<Rightarrow> uttest" where
  "at_pc T c p = T\<lparr>upcs := (upcs T)(c \<mapsto> p)\<rparr>"

definition says :: "uttest \<Rightarrow> int \<Rightarrow> string \<Rightarrow> uttest" where
  "says T v text = T\<lparr>uoutput := uoutput T @ [(v, text)]\<rparr>"

definition count_text :: "int \<Rightarrow> int \<Rightarrow> string" where
  "count_text val i = ''Thread: '' @ dec_int val @ '' Count: '' @ dec_int i @ newline"

definition star_text :: "int \<Rightarrow> string" where
  "star_text val = dec_int val @ ''*''"

definition waiting_text :: string where
  "waiting_text = ''Waiting for interrupt.'' @ newline"

text \<open>
  \<open>uthread_create (threadFunc, th, 0)\<close>; the number 1 stands for the address of \<open>threadFunc\<close>, and the new thread
  is at the start of it.
\<close>

definition creates_thread :: "ut_env \<Rightarrow> uttest \<Rightarrow> nat \<Rightarrow> int \<Rightarrow> uttest res" where
  "creates_thread env T c th =
     (case malloc_thread env (threads (usched T)) of
        None \<Rightarrow> Inl Null_Deref
      | Some a \<Rightarrow>
          bindr (uthread_create env (usched T) 1 th 0) (\<lambda>(tid, s).
          Inr (at_pc (at_pc (T\<lparr>usched := s\<rparr>) a (Thr_For th 0)) c (if th < 4 then Main_Creates (th + 1) else Main_Waits))))"

text \<open>One step of the thread \<open>c\<close>, which runs and is at \<open>p\<close>; \<open>None\<close> when a search in the library never ends.\<close>

primrec ut_step :: "ut_env \<Rightarrow> uttest \<Rightarrow> nat \<Rightarrow> ut_pc \<Rightarrow> uttest res option" where
  "ut_step env T c (Main_Creates th) = Some (creates_thread env T c th)"
| "ut_step env T c Main_Waits = Some (Inr (says T 0 waiting_text))"
| "ut_step env T c (Thr_For val i) =
     Some (Inr (if i < 5 then at_pc (says T val (count_text val i)) c (Thr_Loop val i 0) else at_pc T c (Thr_Exit val)))"
| "ut_step env T c (Thr_Loop val i j) =
     Some (Inr (if j < 10000000
       then at_pc (if j mod 1000000 = 0 then says T val (star_text val) else T) c (Thr_Loop val i (j + 1))
       else at_pc (says T val newline) c (Thr_Yield val i)))"
| "ut_step env T c (Thr_Yield val i) =
     Some (bindr (uthread_yield (usched T)) (\<lambda>s. Inr (at_pc (T\<lparr>usched := s\<rparr>) c (Thr_For val (i + 1)))))"
| "ut_step env T c (Thr_Exit val) =
     map_option (\<lambda>r. bindr r (\<lambda>s. Inr (T\<lparr>usched := s, upcs := (upcs T)(c := None)\<rparr>))) (uthread_exit (usched T))"

definition ut_act :: "ut_env \<Rightarrow> uttest \<Rightarrow> uttest res option" where
  "ut_act env T = Option.bind (current_thread (usched T)) (\<lambda>c. Option.bind (upcs T c) (ut_step env T c))"

definition ut_tick :: "uttest \<Rightarrow> int \<Rightarrow> uttest res" where
  "ut_tick T signum = bindr (uthread_yield_handler signum (usched T)) (\<lambda>s. Inr (T\<lparr>usched := s\<rparr>))"

inductive uttest_reachable :: "ut_env \<Rightarrow> uttest \<Rightarrow> bool" for env where
  start: "uthread_init env sched0 = Inr s \<Longrightarrow> current_thread s = Some c \<Longrightarrow> uttest_reachable env (uttest0 s c)"
| act: "uttest_reachable env T \<Longrightarrow> ut_act env T = Some (Inr T') \<Longrightarrow> uttest_reachable env T'"
| tick: "uttest_reachable env T \<Longrightarrow> ut_tick T signum = Inr T' \<Longrightarrow> uttest_reachable env T'"

section \<open>What a thread prints\<close>

definition stars_from :: "int \<Rightarrow> int \<Rightarrow> string list" where
  "stars_from val j = map (\<lambda>j. star_text val) (filter (\<lambda>j. j mod 1000000 = 0) [j..9999999])"

definition turns_from :: "int \<Rightarrow> int \<Rightarrow> string list" where
  "turns_from val i = concat (map (\<lambda>i. count_text val i # stars_from val 0 @ [newline]) [i..4])"

definition thread_text :: "int \<Rightarrow> string list" where
  "thread_text val = turns_from val 0"

primrec rest_of :: "ut_pc \<Rightarrow> int \<Rightarrow> string list" where
  "rest_of (Main_Creates th) v = thread_text v"
| "rest_of Main_Waits v = []"
| "rest_of (Thr_For val i) v = turns_from val i"
| "rest_of (Thr_Loop val i j) v = stars_from val j @ [newline] @ turns_from val (i + 1)"
| "rest_of (Thr_Yield val i) v = turns_from val (i + 1)"
| "rest_of (Thr_Exit val) v = []"

text \<open>The threads that a point is about: its own, or those that \<open>main\<close> has still to create.\<close>

primrec concerns :: "ut_pc \<Rightarrow> int set" where
  "concerns (Main_Creates th) = {th..4}"
| "concerns Main_Waits = {}"
| "concerns (Thr_For val i) = {val}"
| "concerns (Thr_Loop val i j) = {val}"
| "concerns (Thr_Yield val i) = {val}"
| "concerns (Thr_Exit val) = {val}"

primrec is_main :: "ut_pc \<Rightarrow> bool" where
  "is_main (Main_Creates th) = True"
| "is_main Main_Waits = True"
| "is_main (Thr_For val i) = False"
| "is_main (Thr_Loop val i j) = False"
| "is_main (Thr_Yield val i) = False"
| "is_main (Thr_Exit val) = False"

definition printed_by :: "int \<Rightarrow> (int \<times> string) list \<Rightarrow> string list" where
  "printed_by v out = map snd (filter (\<lambda>l. fst l = v) out)"

lemma printed_by_append [simp]: "printed_by v (out @ out') = printed_by v out @ printed_by v out'"
  by (simp add: printed_by_def)

lemma multiples_upto:
  "0 < m \<Longrightarrow> filter (\<lambda>j. j mod m = 0) [0..int k * m - 1] = map (\<lambda>i. i * m) [0..int k - 1]"
proof (induction k)
  case (Suc k)
  have "filter (\<lambda>j. j mod m = 0) [int k * m + 1..int k * m + m - 1] = []"
  proof (rule filter_False, rule ballI)
    fix j assume "j \<in> set [int k * m + 1..int k * m + m - 1]"
    then have "(j - int k * m) mod m = j - int k * m" "j - int k * m \<noteq> 0" by (auto intro: mod_pos_pos_trivial)
    then show "j mod m \<noteq> 0" by (metis mod_mult_self3 add.commute diff_add_cancel uminus_add_conv_diff mod_mult_self1 mod_diff_cong mod_self diff_zero mod_mult_self2_is_0 minus_mod_self2)
  qed
  moreover have "[0..int (Suc k) * m - 1] = [0..int k * m - 1] @ int k * m # [int k * m + 1..int k * m + m - 1]"
    using Suc.prems upto_split1 [of 0 "int k * m" "int (Suc k) * m - 1"] upto_rec1 [of "int k * m" "int (Suc k) * m - 1"]
    by (simp add: algebra_simps)
  moreover have "[0..int (Suc k) - 1] = [0..int k - 1] @ [int k]" by (simp add: upto_rec2)
  ultimately show ?case using Suc by simp
qed simp

text \<open>A row has ten of the numbers.\<close>

lemma stars_row: "stars_from val 0 = replicate 10 (star_text val)"
proof -
  have "filter (\<lambda>j. j mod 1000000 = 0) [0..9999999] = map (\<lambda>i. i * 1000000) [0..int 10 - 1]"
    using multiples_upto [of 1000000 10] by simp
  then have "stars_from val 0 = map (\<lambda>i. star_text val) [0..int 10 - 1]"
    unfolding stars_from_def by (simp only: list.map_comp comp_def)
  also have "\<dots> = replicate 10 (star_text val)" by (simp add: map_replicate_const)
  finally show ?thesis .
qed

section \<open>The invariant\<close>

text \<open>The threads that have come to their ends.\<close>

definition ended :: "(nat \<rightharpoonup> ut_pc) \<Rightarrow> int set" where
  "ended L = {v. 1 \<le> v \<and> v \<le> 4 \<and> (\<forall>t p. L t = Some p \<longrightarrow> v \<notin> concerns p)}"

text \<open>What the thread \<open>v\<close> has printed, with what it has still to print, is its text, and no two threads are \<open>v\<close>.\<close>

definition voice :: "(nat \<rightharpoonup> ut_pc) \<Rightarrow> (int \<times> string) list \<Rightarrow> int \<Rightarrow> bool" where
  "voice L out v \<longleftrightarrow>
     (\<forall>t p. L t = Some p \<longrightarrow> v \<in> concerns p \<longrightarrow> printed_by v out @ rest_of p v = thread_text v) \<and>
     (\<forall>t p t' p'. L t = Some p \<longrightarrow> v \<in> concerns p \<longrightarrow> L t' = Some p' \<longrightarrow> v \<in> concerns p' \<longrightarrow> t = t') \<and>
     ((\<forall>t p. L t = Some p \<longrightarrow> v \<notin> concerns p) \<longrightarrow> printed_by v out = thread_text v)"

definition pc_ok :: "sched \<Rightarrow> ut_pc \<Rightarrow> bool" where
  "pc_ok s p \<longleftrightarrow> concerns p \<subseteq> {1..4} \<and>
     (\<forall>th. p = Main_Creates th \<longrightarrow> 1 \<le> th \<and> th \<le> 4 \<and> live_uthreads s = th \<and> uthread_id s = th - 1)"

definition ut_inv :: "uttest \<Rightarrow> nat list \<Rightarrow> nat \<Rightarrow> bool" where
  "ut_inv T xs m \<longleftrightarrow> reach_inv (usched T) xs \<and> dom (upcs T) = set xs \<and>
     (\<forall>t p. upcs T t = Some p \<longrightarrow> pc_ok (usched T) p \<and> (is_main p \<longleftrightarrow> t = m)) \<and> upcs T m \<noteq> None \<and>
     live_uthreads (usched T) = int (length xs + card (ended (upcs T))) \<and>
     (\<forall>t \<in> set xs. pri_of (threads (usched T)) t = (if t = m then 9 else 0)) \<and>
     (\<forall>v. 1 \<le> v \<longrightarrow> v \<le> 4 \<longrightarrow> voice (upcs T) (uoutput T) v)"

lemma ut_invD: "ut_inv T xs m \<Longrightarrow> upcs T t = Some p \<Longrightarrow> pc_ok (usched T) p \<and> (is_main p \<longleftrightarrow> t = m)"
  by (simp add: ut_inv_def)

lemma ended_finite [simp]: "finite (ended L)"
  by (rule finite_subset [of _ "{1..4}"]) (auto simp: ended_def)

lemma voiceD:
  assumes "voice L out v" and "L t = Some p" and "v \<in> concerns p"
  shows "printed_by v out @ rest_of p v = thread_text v" and "L t' = Some p' \<Longrightarrow> v \<in> concerns p' \<Longrightarrow> t' = t"
  using assms unfolding voice_def by blast+

lemma voice_moved:
  assumes "voice L out v" and "L c = Some p" and "concerns q = concerns p"
    and "v \<in> concerns p \<Longrightarrow> printed_by v new @ rest_of q v = rest_of p v"
    and "v \<notin> concerns p \<Longrightarrow> printed_by v new = []"
  shows "voice (L(c \<mapsto> q)) (out @ new) v"
proof -
  note V = assms(1) [unfolded voice_def]
  have own: "(L(c \<mapsto> q)) t = Some p' \<Longrightarrow> \<exists>p0. L t = Some p0 \<and> concerns p0 = concerns p'" for t p'
    using assms(2,3) by (auto split: if_splits)
  have "printed_by v (out @ new) @ rest_of p' v = thread_text v"
    if t: "(L(c \<mapsto> q)) t = Some p'" "v \<in> concerns p'" for t p'
  proof (cases "t = c")
    case True
    then show ?thesis using t assms(2-4) V by auto
  next
    case False
    with t have L: "L t = Some p'" by simp
    then have "v \<notin> concerns p" using V t(2) False assms(2) by blast
    with assms(5) V L t(2) show ?thesis by simp
  qed
  moreover have "t = t'" if "(L(c \<mapsto> q)) t = Some p1" "v \<in> concerns p1" "(L(c \<mapsto> q)) t' = Some p2" "v \<in> concerns p2" for t p1 t' p2
    using V own [OF that(1)] own [OF that(3)] that(2,4) by metis
  moreover have "printed_by v (out @ new) = thread_text v" if none: "\<forall>t p'. (L(c \<mapsto> q)) t = Some p' \<longrightarrow> v \<notin> concerns p'"
  proof -
    have "v \<notin> concerns p" using none assms(3) by (metis fun_upd_same)
    moreover have "v \<notin> concerns p'" if "L t = Some p'" for t p'
      using none that assms(2) \<open>v \<notin> concerns p\<close> by (metis fun_upd_apply option.inject)
    ultimately show ?thesis using V assms(5) by simp
  qed
  ultimately show ?thesis unfolding voice_def by blast
qed

lemma ended_moved: "L c = Some p \<Longrightarrow> concerns q = concerns p \<Longrightarrow> ended (L(c \<mapsto> q)) = ended L"
  unfolding ended_def by (intro Collect_cong) (metis fun_upd_apply option.inject)

lemma ut_moved:
  assumes inv: "ut_inv T xs m" and c: "upcs T c = Some p"
    and s: "reach_inv s xs" "live_uthreads s = live_uthreads (usched T)" "uthread_id s = uthread_id (usched T)"
      "pri_of (threads s) = pri_of (threads (usched T))"
    and q: "concerns q = concerns p" "is_main q = is_main p" "\<And>th. q \<noteq> Main_Creates th"
    and new: "\<And>v. 1 \<le> v \<Longrightarrow> v \<in> concerns p \<Longrightarrow> printed_by v new @ rest_of q v = rest_of p v"
      "\<And>v. 1 \<le> v \<Longrightarrow> v \<notin> concerns p \<Longrightarrow> printed_by v new = []"
  shows "ut_inv (T\<lparr>usched := s, upcs := (upcs T)(c \<mapsto> q), uoutput := uoutput T @ new\<rparr>) xs m"
proof -
  note i = inv [unfolded ut_inv_def]
  have "voice ((upcs T)(c \<mapsto> q)) (uoutput T @ new) v" if "1 \<le> v" "v \<le> 4" for v
    by (rule voice_moved [where p = p]) (use i that new c q(1) in auto)
  moreover have "pc_ok s p' \<and> (is_main p' \<longleftrightarrow> t = m)" if "((upcs T)(c \<mapsto> q)) t = Some p'" for t p'
    using i that c q s(2,3) by (auto simp: pc_ok_def split: if_splits)
  ultimately show ?thesis
    using i c s ended_moved [where L = "upcs T", OF c q(1)] by (auto simp: ut_inv_def)
qed

lemma voice_owner:
  assumes "L t = Some p" and "v \<in> concerns p" and "printed_by v out @ rest_of p v = thread_text v"
    and "\<And>t' p'. L t' = Some p' \<Longrightarrow> v \<in> concerns p' \<Longrightarrow> t' = t"
  shows "voice L out v"
  using assms unfolding voice_def by (metis option.inject)

lemma voice_cong:
  assumes "\<And>t p. v \<in> concerns p \<Longrightarrow> L' t = Some p \<longleftrightarrow> L t = Some p"
  shows "voice L' out v = voice L out v"
proof -
  have e: "(L' t = Some p \<longrightarrow> v \<in> concerns p \<longrightarrow> Q) = (L t = Some p \<longrightarrow> v \<in> concerns p \<longrightarrow> Q)"
    "(L' t = Some p \<longrightarrow> v \<notin> concerns p) = (L t = Some p \<longrightarrow> v \<notin> concerns p)" for t p Q
    using assms by blast+
  show ?thesis by (simp only: voice_def e)
qed

lemma voice_none:
  "\<forall>t p. L t = Some p \<longrightarrow> v \<notin> concerns p \<Longrightarrow> printed_by v out = thread_text v \<Longrightarrow> voice L out v"
  unfolding voice_def by blast

text \<open>\<open>main\<close> creates its next thread, at a fresh address.\<close>

lemma voice_created:
  assumes V: "voice L out v" and c: "L c = Some (Main_Creates th)" and a: "L a = None"
    and v: "v \<le> 4" and q: "concerns q = {th + 1..4}" "v \<in> concerns q \<Longrightarrow> rest_of q v = thread_text v"
  shows "voice (L(a \<mapsto> Thr_For th 0, c \<mapsto> q)) out v"
proof -
  have ne: "a \<noteq> c" using a c by auto
  let ?L = "L(a \<mapsto> Thr_For th 0, c \<mapsto> q)"
  show ?thesis
  proof (cases "th \<le> v")
    case True
    have main: "v \<in> concerns (Main_Creates th)" using True v by simp
    have out: "printed_by v out = []" using voiceD(1) [OF V c main] by simp
    have other: "t' \<noteq> c \<Longrightarrow> L t' = Some p' \<Longrightarrow> v \<notin> concerns p'" for t' p'
      using voiceD(2) [OF V c main] by blast
    show ?thesis
    proof (cases "v = th")
      case True
      show ?thesis
        by (rule voice_owner [of _ a "Thr_For th 0"]) (use True ne out other q in \<open>auto simp: thread_text_def split: if_splits\<close>)
    next
      case False
      show ?thesis
        by (rule voice_owner [of _ c q]) (use False \<open>th \<le> v\<close> v ne out other q in \<open>auto split: if_splits\<close>)
    qed
  next
    case False
    have "v \<in> concerns p' \<Longrightarrow> ?L t = Some p' \<longleftrightarrow> L t = Some p'" for t p'
      using False c a ne q(1) by auto
    from voice_cong [of v ?L L, OF this] V show ?thesis by blast
  qed
qed

lemma ended_created:
  assumes "L c = Some (Main_Creates th)" and "L a = None" and "concerns q = {th + 1..4}"
  shows "ended (L(a \<mapsto> Thr_For th 0, c \<mapsto> q)) = ended L"
proof -
  let ?L = "L(a \<mapsto> Thr_For th 0, c \<mapsto> q)"
  have ne: "a \<noteq> c" using assms(1,2) by auto
  have "(\<exists>t p. ?L t = Some p \<and> v \<in> concerns p) \<longleftrightarrow> (\<exists>t p. L t = Some p \<and> v \<in> concerns p)" if v: "v \<le> 4" for v
  proof (cases "th \<le> v")
    case True
    then have "(v = th \<and> ?L a = Some (Thr_For th 0)) \<or> (v \<in> concerns q \<and> ?L c = Some q)"
      using assms(3) v ne by auto
    moreover have "v \<in> concerns (Main_Creates th)" using True v by simp
    ultimately show ?thesis using assms(1) by (metis concerns.simps(3) singletonI)
  next
    case False
    then have "?L t = Some p \<longleftrightarrow> L t = Some p" if "v \<in> concerns p" for t p using that assms ne by auto
    then show ?thesis by metis
  qed
  then show ?thesis unfolding ended_def by blast
qed

text \<open>A thread leaves.\<close>

lemma voice_left:
  assumes V: "voice L out v" and c: "L c = Some p" and p: "rest_of p v = []"
  shows "voice (L(c := None)) out v"
proof (cases "v \<in> concerns p")
  case True
  then have "printed_by v out = thread_text v" "L t = Some p' \<Longrightarrow> v \<in> concerns p' \<Longrightarrow> t = c" for t p'
    using voiceD [OF V c True] p by simp_all
  then show ?thesis by (intro voice_none) (auto split: if_splits)
next
  case False
  have "(L(c := None)) t = Some p' \<longleftrightarrow> L t = Some p'" if "v \<in> concerns p'" for t p' using that False c by auto
  from voice_cong [of v "L(c := None)" L, OF this] V show ?thesis by blast
qed

lemma ended_left:
  assumes "L c = Some (Thr_Exit val)" and "1 \<le> val" and "val \<le> 4" and "voice L out val"
  shows "ended (L(c := None)) = insert val (ended L)" and "val \<notin> ended L"
proof -
  have "t = c" if "L t = Some p" "val \<in> concerns p" for t p
    using voiceD(2) [OF assms(4,1), of t p] that by simp
  then have mine: "\<forall>t p. (L(c := None)) t = Some p \<longrightarrow> val \<notin> concerns p" by (auto split: if_splits)
  have other: "(L(c := None)) t = Some p \<longleftrightarrow> L t = Some p" if "v \<in> concerns p" "v \<noteq> val" for v t p
    using that assms(1) by (cases "t = c") auto
  have "v \<in> ended (L(c := None)) \<longleftrightarrow> v = val \<or> v \<in> ended L" for v
    using mine other [of v] assms(2,3) unfolding ended_def by (cases "v = val") (simp, blast)
  then show "ended (L(c := None)) = insert val (ended L)" by blast
  have "val \<in> concerns (Thr_Exit val)" by simp
  then show "val \<notin> ended L" using assms(1) unfolding ended_def by blast
qed

section \<open>The steps\<close>

lemma ut_create_outcome:
  assumes inv: "ut_inv T xs m" and env: "env_fresh env" and c: "upcs T c = Some (Main_Creates th)"
  shows "if ended (upcs T) = {} then \<exists>T'. creates_thread env T c th = Inr T'
    else creates_thread env T c th = Inl Uninit_Read"
proof -
  note i = inv [unfolded ut_inv_def]
  let ?s = "usched T"
  have R: "reach_inv ?s xs" and C: "circle_ok ?s xs" using i by (auto simp: reach_inv_def)
  have th: "1 \<le> th" "th \<le> 4" "live_uthreads ?s = th" "uthread_id ?s = th - 1"
    using i c by (auto simp: pc_ok_def)
  from C env obtain a where a: "malloc_thread env (threads ?s) = Some a" unfolding env_fresh_def circle_ok_def by blast
  have ok: "int32_ok (live_uthreads ?s + 1)" "int32_ok (uthread_id ?s + 1)" using th by (simp_all add: int32_ok_def)
  have none: "ended (upcs T) = {} \<longleftrightarrow> live_uthreads ?s = int (length xs)" using i by (simp add: card_eq_0_iff)
  show ?thesis
  proof (cases "ended (upcs T) = {}")
    case True
    with create_linked [OF C env _ ok(1), of 1 th 0] ok(2) none a show ?thesis by (auto simp: creates_thread_def)
  next
    case False
    then have "0 < card (ended (upcs T))" by (simp add: card_gt_0_iff)
    then have "int (length xs) < live_uthreads ?s" using i by simp
    from create_uninit [OF C env this ok(1)] a False show ?thesis by (simp add: creates_thread_def)
  qed
qed

lemma ut_create_inv:
  assumes inv: "ut_inv T xs m" and env: "env_fresh env" and c: "upcs T c = Some (Main_Creates th)"
    and run: "creates_thread env T c th = Inr T'"
  shows "\<exists>ys. ut_inv T' ys m"
proof -
  note i = inv [unfolded ut_inv_def]
  let ?s = "usched T"
  have R: "reach_inv ?s xs" and C: "circle_ok ?s xs" using i by (auto simp: reach_inv_def)
  have th: "1 \<le> th" "th \<le> 4" "live_uthreads ?s = th" "uthread_id ?s = th - 1"
    using i c by (auto simp: pc_ok_def)
  from C env obtain a where a: "malloc_thread env (threads ?s) = Some a" unfolding env_fresh_def circle_ok_def by blast
  let ?q = "if th < 4 then Main_Creates (th + 1) else Main_Waits"
  obtain tid s' where s': "uthread_create env ?s 1 th 0 = Inr (tid, s')"
    and T': "T' = at_pc (at_pc (T\<lparr>usched := s'\<rparr>) a (Thr_For th 0)) c ?q"
    using run a by (auto simp: creates_thread_def res_simps)
  from create_cases [OF R env, of 1 th 0] s' a obtain ys where
    ys: "reach_inv s' ys" "a \<notin> set xs" "set ys = insert a (set xs)" "pri_of (threads s') a = 0"
      "\<forall>t \<in> set xs. pri_of (threads s') t = pri_of (threads ?s) t" by auto
  note n = create_counts [OF s']
  have fresh: "upcs T a = None" using i ys(2) by (metis domIff)
  have q: "concerns ?q = {th + 1..4}" "v \<in> concerns ?q \<Longrightarrow> rest_of ?q v = thread_text v" "is_main ?q" for v
    using th by (auto split: if_splits)
  have voices: "voice ((upcs T)(a \<mapsto> Thr_For th 0, c \<mapsto> ?q)) (uoutput T) v" if "1 \<le> v" "v \<le> 4" for v
    by (rule voice_created [OF _ c fresh that(2) q(1,2)]) (use i that in auto)
  have "distinct xs" "distinct ys" using C ys(1) circle_okD(3) by (auto simp: reach_inv_def)
  then have len: "length ys = length xs + 1" using ys(2,3) by (metis distinct_card card_insert_disjoint List.finite_set Suc_eq_plus1)
  have ne: "a \<noteq> c" "c = m" using fresh c ut_invD [OF inv c] by auto
  have "pc_ok s' p \<and> (is_main p \<longleftrightarrow> t = m)" if "((upcs T)(a \<mapsto> Thr_For th 0, c \<mapsto> ?q)) t = Some p" for t p
  proof (cases "t = a \<or> t = c")
    case True
    with that ne q(3) th n show ?thesis by (auto simp: pc_ok_def split: if_splits)
  next
    case False
    with that have t: "upcs T t = Some p" by simp
    with i False ne have "pc_ok ?s p" "\<not> is_main p" "t \<noteq> m" by auto
    then show ?thesis by (cases p) (simp_all add: pc_ok_def)
  qed
  moreover have "dom ((upcs T)(a \<mapsto> Thr_For th 0, c \<mapsto> ?q)) = set ys" using i ys(3) c by auto
  moreover have "\<forall>t \<in> set ys. pri_of (threads s') t = (if t = m then 9 else 0)" using i ys(3-5) ne by auto
  ultimately have "ut_inv T' ys m"
    using ys(1) n len i ne ended_created [OF c fresh q(1)] voices by (simp add: ut_inv_def T' at_pc_def)
  then show ?thesis by blast
qed

lemma ut_exits:
  assumes inv: "ut_inv T xs m" and cur: "current_thread (usched T) = Some c" and c: "upcs T c = Some (Thr_Exit val)"
  shows "\<exists>s' ys. uthread_exit (usched T) = Some (Inr s') \<and> ut_inv (T\<lparr>usched := s', upcs := (upcs T)(c := None)\<rparr>) ys m"
proof -
  note i = inv [unfolded ut_inv_def]
  let ?s = "usched T" and ?L = "(upcs T)(c := None)"
  have R: "reach_inv ?s xs" using i by simp
  have val: "1 \<le> val" "val \<le> 4" and ne: "c \<noteq> m" using ut_invD [OF inv c] by (auto simp: pc_ok_def)
  then have "c \<in> set xs" "m \<in> set xs" using i c by auto
  with ne have "length xs \<noteq> 1" by (auto simp: length_Suc_conv)
  with reach_exit [OF R] R obtain s' where s': "uthread_exit ?s = Some (Inr s')" by (auto simp: reach_inv_def)
  from exit_leaves [OF R cur s'] obtain ys where
    ys: "reach_inv s' ys" "set ys = set xs - {c}" "length ys + 1 = length xs"
      "live_uthreads s' = live_uthreads ?s" "uthread_id s' = uthread_id ?s"
      "\<forall>t \<in> set ys. pri_of (threads s') t = pri_of (threads ?s) t" by blast
  have "voice ?L (uoutput T) v" if "1 \<le> v" "v \<le> 4" for v
    by (rule voice_left [where p = "Thr_Exit val"]) (use i that c in auto)
  moreover have "voice (upcs T) (uoutput T) val" using i val by blast
  note ended_left [OF c val this]
  moreover have "pc_ok s' p \<and> (is_main p \<longleftrightarrow> t = m)" if "?L t = Some p" for t p
    using i that ys(4,5) by (auto simp: pc_ok_def split: if_splits)
  moreover have "dom ?L = set ys" using i ys(2) by auto
  ultimately have "ut_inv (T\<lparr>usched := s', upcs := ?L\<rparr>) ys m"
    using i ys ne by (simp add: ut_inv_def)
  with s' show ?thesis by blast
qed

lemma stars_step: "j < 10000000 \<Longrightarrow>
    stars_from val j = (if j mod 1000000 = 0 then [star_text val] else []) @ stars_from val (j + 1)"
  by (simp add: stars_from_def upto_rec1 [of j 9999999])

lemma stars_end: "\<not> j < 10000000 \<Longrightarrow> stars_from val j = []"
  by (simp add: stars_from_def)

lemma turns_step: "i < 5 \<Longrightarrow> turns_from val i = count_text val i # stars_from val 0 @ newline # turns_from val (i + 1)"
  by (simp add: turns_from_def upto_rec1 [of i 4])

lemma turns_end: "\<not> i < 5 \<Longrightarrow> turns_from val i = []"
  by (simp add: turns_from_def)

lemma printed_by_one [simp]: "printed_by v [] = []" "printed_by v [(w, t)] = (if w = v then [t] else [])"
  by (simp_all add: printed_by_def)

lemma at_says:
  "at_pc (says T v text) c q = T\<lparr>upcs := (upcs T)(c \<mapsto> q), uoutput := uoutput T @ [(v, text)]\<rparr>"
  by (cases T) (simp add: at_pc_def says_def)

text \<open>Where the running thread does not create one and does not leave, it goes on.\<close>

lemma ut_moves:
  assumes inv: "ut_inv T xs m" and c: "upcs T c = Some p"
    and p: "\<And>th. p \<noteq> Main_Creates th" "\<And>val. p \<noteq> Thr_Exit val"
  shows "\<exists>T'. ut_step env T c p = Some (Inr T') \<and> ut_inv T' xs m"
proof -
  have R: "reach_inv (usched T) xs" using inv by (simp add: ut_inv_def)
  note go = ut_moved [OF inv c]
  show ?thesis
  proof (cases p)
    case Main_Waits
    with go [OF R refl refl refl, of Main_Waits "[(0, waiting_text)]"] c show ?thesis
      by (simp add: says_def fun_upd_idem)
  next
    case (Thr_For val i)
    with go [OF R refl refl refl, of "Thr_Loop val i 0" "[(val, count_text val i)]"]
      go [OF R refl refl refl, of "Thr_Exit val" "[]"]
    show ?thesis by (cases "i < 5") (auto simp: turns_step turns_end at_says, simp_all add: at_pc_def)
  next
    case (Thr_Loop val i j)
    with go [OF R refl refl refl, of "Thr_Loop val i (j + 1)" "if j mod 1000000 = 0 then [(val, star_text val)] else []"]
      go [OF R refl refl refl, of "Thr_Yield val i" "[(val, newline)]"]
    show ?thesis by (cases "j < 10000000") (auto simp: stars_step stars_end at_says, simp_all add: at_pc_def)
  next
    case (Thr_Yield val i)
    from reach_yield [OF R] obtain s' where
      s': "uthread_yield (usched T) = Inr s'" "reach_inv s' xs" "pri_of (threads s') = pri_of (threads (usched T))" by blast
    with Thr_Yield go [OF s'(2), of "Thr_For val (i + 1)" "[]"] yield_counts [OF s'(1)]
    show ?thesis by (simp add: at_pc_def)
  qed (use p in auto)
qed

lemma ut_act_spec:
  assumes inv: "ut_inv T xs m" and env: "env_fresh env"
  shows "\<exists>c p. current_thread (usched T) = Some c \<and> upcs T c = Some p \<and>
    (if (\<exists>th. p = Main_Creates th) \<and> ended (upcs T) \<noteq> {} then ut_act env T = Some (Inl Uninit_Read)
     else \<exists>T' ys. ut_act env T = Some (Inr T') \<and> ut_inv T' ys m)"
proof -
  note i = inv [unfolded ut_inv_def]
  obtain c where c: "current_thread (usched T) = Some c" "c \<in> set xs"
    using i by (auto simp: reach_inv_def circle_ok_def)
  then obtain p where p: "upcs T c = Some p" using i by blast
  have act: "ut_act env T = ut_step env T c p" using c(1) p by (simp add: ut_act_def)
  consider th where "p = Main_Creates th" | val where "p = Thr_Exit val"
    | "\<And>th. p \<noteq> Main_Creates th" "\<And>val. p \<noteq> Thr_Exit val" by blast
  then show ?thesis
  proof cases
    case 1
    with ut_create_outcome [OF inv env, of c th] ut_create_inv [OF inv env, of c th] p act c(1) show ?thesis
      by (auto split: if_splits)
  next
    case 2
    with ut_exits [OF inv c(1), of val] p act c(1) show ?thesis by auto
  next
    case 3
    with ut_moves [OF inv p 3, of env] p act c(1) show ?thesis by auto
  qed
qed

lemma ut_tick_inv:
  assumes inv: "ut_inv T xs m" and tick: "ut_tick T signum = Inr T'"
  shows "ut_inv T' xs m"
proof -
  obtain s where s: "uthread_yield (usched T) = Inr s" "T' = T\<lparr>usched := s\<rparr>"
    using tick by (auto simp: ut_tick_def uthread_yield_handler_def res_simps)
  with reach_yield [of "usched T" xs] yield_counts [OF s(1)] inv show ?thesis
    by (auto simp: ut_inv_def pc_ok_def)
qed

lemma ut_lowest: "ut_inv T xs m \<Longrightarrow> lowest (usched T) xs m \<and> distinct xs"
  using circle_okD(3) [of "usched T" xs] domI [of "upcs T" m] by (auto simp: lowest_def ut_inv_def reach_inv_def)

text \<open>A step of another thread than \<open>main\<close> lets \<open>main\<close> run only when nobody else is left.\<close>

lemma ut_act_not_main:
  assumes inv: "ut_inv T xs m" and cur: "current_thread (usched T) = Some c" and c: "upcs T c = Some p" and p: "\<not> is_main p"
    and run: "ut_act env T = Some (Inr T')" and left: "dom (upcs T') \<noteq> {m}" "upcs T' m \<noteq> None"
  shows "current_thread (usched T') \<noteq> Some m"
proof -
  have cm: "c \<noteq> m" using ut_invD [OF inv c] p by auto
  have R: "reach_inv (usched T) xs" and D: "dom (upcs T) = set xs" "c \<in> set xs" "m \<in> set xs"
    using inv c by (auto simp: ut_inv_def)
  then have len: "2 \<le> length xs" using cm by (cases xs rule: remdups_adj.cases) auto
  have step: "ut_step env T c p = Some (Inr T')" using run cur c by (simp add: ut_act_def)
  note low = ut_lowest [OF inv]
  show ?thesis
  proof (cases p)
    case (Thr_For val i)
    with step cur cm show ?thesis by (auto simp: at_pc_def says_def split: if_splits)
  next
    case (Thr_Loop val i j)
    with step cur cm show ?thesis by (auto simp: at_pc_def says_def split: if_splits)
  next
    case (Thr_Yield val i)
    with step obtain s where "uthread_yield (usched T) = Inr s" "usched T' = s" by (auto simp: at_pc_def res_simps)
    with yield_not_lowest [OF R _ len] low show ?thesis by blast
  next
    case (Thr_Exit val)
    with step obtain s where s: "uthread_exit (usched T) = Some (Inr s)" "usched T' = s"
      "upcs T' = (upcs T)(c := None)" by (auto simp: res_simps)
    have "3 \<le> length xs"
    proof (rule ccontr)
      assume "\<not> ?thesis"
      with len have "card (set xs) = 2" using distinct_card [of xs] low by linarith
      moreover have "{c, m} \<subseteq> set xs" "card {c, m} = 2" using D cm by auto
      ultimately have "set xs = {c, m}" by (metis card_subset_eq List.finite_set)
      with s(3) D cm left show False by auto
    qed
    with exit_not_lowest [OF R _ _ cur cm s(1)] low s(2) show ?thesis by blast
  qed (use p in auto)
qed

lemma uttest_reachable_inv:
  assumes "uttest_reachable env T" and "env_fresh env"
  shows "\<exists>xs m. ut_inv T xs m"
  using assms(1)
proof (induction rule: uttest_reachable.induct)
  case (start s c)
  from init_inv [OF assms(2)] start obtain a where a: "reach_inv s [a]" "c = a" "live_uthreads s = 1" "uthread_id s = 0"
    "pri_of (threads s) a = 9" by (auto simp: reach_inv_def circle_ok_def)
  have "ended [c \<mapsto> Main_Creates 1] = {}" by (auto simp: ended_def)
  moreover have "voice [c \<mapsto> Main_Creates 1] [] v" if "1 \<le> v" "v \<le> 4" for v
    by (rule voice_owner [of _ c "Main_Creates 1"]) (use that in \<open>auto split: if_splits\<close>)
  ultimately have "ut_inv (uttest0 s c) [a] c" using a by (auto simp: ut_inv_def uttest0_def pc_ok_def split: if_splits)
  then show ?case by blast
next
  case (act T T')
  then obtain xs m where "ut_inv T xs m" by blast
  from ut_act_spec [OF this assms(2)] act.hyps(2) show ?case by (auto split: if_splits)
next
  case (tick T signum T')
  with ut_tick_inv show ?case by blast
qed

section \<open>Properties\<close>

text \<open>
  C12. The test of the threads prints what it should, as far as it gets: in every state that uthread_test.c reaches,
  whichever steps the timer preempts its threads between, the texts of each thread \<open>v\<close> are in their order among the first of its
  five turns, and a thread that has ended has printed them all. No step of a thread fails, the endless line of \<open>main\<close>
  neither; but \<open>main\<close> can create its threads only as long as none of them has ended, otherwise \<open>uthread_create\<close>
  reads memory that nothing has written.
\<close>

theorem uthread_test_prints:
  assumes "uttest_reachable env T" and "env_fresh env" and "1 \<le> v" and "v \<le> 4"
  shows "prefix (printed_by v (uoutput T)) (thread_text v) \<and>
    (v \<in> ended (upcs T) \<longrightarrow> printed_by v (uoutput T) = thread_text v) \<and>
    (\<exists>c p. current_thread (usched T) = Some c \<and> upcs T c = Some p \<and>
      (if (\<exists>th. p = Main_Creates th) \<and> ended (upcs T) \<noteq> {} then ut_act env T = Some (Inl Uninit_Read)
       else \<exists>T'. ut_act env T = Some (Inr T')))"
proof -
  from uttest_reachable_inv [OF assms(1,2)] obtain xs m where inv: "ut_inv T xs m" by blast
  then have V: "voice (upcs T) (uoutput T) v" using assms(3,4) by (simp add: ut_inv_def)
  have "prefix (printed_by v (uoutput T)) (thread_text v)"
  proof (cases "v \<in> ended (upcs T)")
    case True
    then show ?thesis using V by (auto simp: voice_def ended_def)
  next
    case False
    then obtain t p where "upcs T t = Some p" "v \<in> concerns p" using assms(3,4) by (auto simp: ended_def)
    from voiceD(1) [OF V this] show ?thesis by (metis prefixI)
  qed
  moreover have "v \<in> ended (upcs T) \<longrightarrow> printed_by v (uoutput T) = thread_text v"
    using V by (auto simp: voice_def ended_def)
  ultimately show ?thesis using ut_act_spec [OF inv assms(2)] by (auto split: if_splits)
qed

text \<open>
  C13. \<open>main\<close> is preempted for good: in any reachable state, when it runs after a signal of the timer or after a step
  of another thread, it is the only thread that is left. If the first signal comes while it still creates threads
  and one of them exists, the program thus never gets further than those threads: when \<open>main\<close> runs again, its next
  \<open>uthread_create\<close> reads memory that nothing has written.
\<close>

theorem uthread_test_main_last:
  assumes reach: "uttest_reachable env T" and env: "env_fresh env"
    and step: "ut_tick T signum = Inr T' \<or>
      ut_act env T = Some (Inr T') \<and> (\<exists>c p. current_thread (usched T) = Some c \<and> upcs T c = Some p \<and> \<not> is_main p)"
    and next_thread: "current_thread (usched T') = Some d" "upcs T' d = Some q"
  shows "is_main q \<longrightarrow>
    dom (upcs T') = {d} \<and> (\<forall>th. q = Main_Creates th \<longrightarrow> 1 < th \<longrightarrow> ut_act env T' = Some (Inl Uninit_Read))"
proof
  assume "is_main q"
  note main = next_thread this
  from uttest_reachable_inv [OF reach env] obtain xs m where inv: "ut_inv T xs m" by blast
  obtain ys where inv': "ut_inv T' ys m"
    using step ut_tick_inv [OF inv] ut_act_spec [OF inv env] by (auto split: if_splits)
  then have D: "dom (upcs T') = set ys" "upcs T' m \<noteq> None" and dm: "d = m"
    using ut_invD [OF inv' main(2)] main(3) by (auto simp: ut_inv_def)
  have alone: "dom (upcs T') = {m}"
  proof (rule ccontr)
    assume ne: "dom (upcs T') \<noteq> {m}"
    from step show False
    proof
      assume tick: "ut_tick T signum = Inr T'"
      then obtain s where s: "uthread_yield (usched T) = Inr s" "usched T' = s" "upcs T' = upcs T"
        by (auto simp: ut_tick_def uthread_yield_handler_def res_simps)
      have R: "reach_inv (usched T) xs" and D0: "dom (upcs T) = set xs" using inv by (simp_all add: ut_inv_def)
      have "2 \<le> length xs"
      proof (rule ccontr)
        assume "\<not> ?thesis"
        moreover have "m \<in> set xs" using D(2) s(3) D0 by auto
        ultimately have "set xs = {m}" by (cases xs rule: remdups_adj.cases) auto
        with ne s(3) D0 show False by simp
      qed
      with yield_not_lowest [OF R _ _ s(1)] ut_lowest [OF inv] s(2) main(1) dm show False by blast
    next
      assume "ut_act env T = Some (Inr T') \<and> (\<exists>c p. current_thread (usched T) = Some c \<and> upcs T c = Some p \<and> \<not> is_main p)"
      with ut_act_not_main [OF inv _ _ _ _ ne D(2)] main(1) dm show False by blast
    qed
  qed
  have "card (dom (upcs T')) = length ys" using D(1) ut_lowest [OF inv'] distinct_card [of ys] by simp
  then have len: "length ys = 1" by (simp add: alone)
  have "ut_act env T' = Some (Inl Uninit_Read)" if q: "q = Main_Creates th" "1 < th" for th
  proof -
    have "1 < live_uthreads (usched T')" using ut_invD [OF inv' main(2)] q by (simp add: pc_ok_def)
    then have "ended (upcs T') \<noteq> {}" using inv' len by (auto simp: ut_inv_def)
    with ut_act_spec [OF inv' env] main q show ?thesis by (auto split: if_splits)
  qed
  with alone dm show "dom (upcs T') = {d} \<and>
    (\<forall>th. q = Main_Creates th \<longrightarrow> 1 < th \<longrightarrow> ut_act env T' = Some (Inl Uninit_Read))" by blast
qed

text \<open>A run: \<open>True\<close> is a signal of the timer, \<open>False\<close> a step of the running thread.\<close>

primrec ut_run :: "bool list \<Rightarrow> uttest \<Rightarrow> uttest option" where
  "ut_run [] T = Some T"
| "ut_run (b # bs) T =
     (case (if b then Some (ut_tick T 14) else ut_act test_ut_env T) of
        Some (Inr T') \<Rightarrow> ut_run bs T' | _ \<Rightarrow> None)"

lemma ut_run_reachable:
  "uttest_reachable test_ut_env T \<Longrightarrow> ut_run bs T = Some T' \<Longrightarrow> uttest_reachable test_ut_env T'"
proof (induction bs arbitrary: T)
  case (Cons b bs)
  then show ?case
    by (auto split: option.splits sum.splits if_splits intro: uttest_reachable.act uttest_reachable.tick)
qed simp

text \<open>Two threads are created, the first preempts \<open>main\<close> and prints, and then the second.\<close>

definition ex_ut_schedule :: "bool list" where
  "ex_ut_schedule = [False, False, True, False, False, False, True, False]"

definition ex_uttest :: "uttest option" where
  "ex_uttest = (case uthread_init test_ut_env sched0 of
     Inr s \<Rightarrow> Option.bind (current_thread s) (\<lambda>c. ut_run ex_ut_schedule (uttest0 s c))
   | _ \<Rightarrow> None)"

lemma ex_uttest_value: "map_option uoutput ex_uttest = Some [(1, count_text 1 0), (1, star_text 1), (2, count_text 2 0)]"
  by code_simp

lemma ex_uttest_reachable: "ex_uttest = Some T \<Longrightarrow> uttest_reachable test_ut_env T"
  by (auto simp: ex_uttest_def bind_eq_Some_conv split: sum.splits intro: ut_run_reachable uttest_reachable.start)

theorem uthread_test_prints_witness:
  "\<exists>T. ex_uttest = Some T \<and> printed_by 1 (uoutput T) = [count_text 1 0, star_text 1] \<and>
    prefix (printed_by 1 (uoutput T)) (thread_text 1) \<and> (\<exists>c p. upcs T c = Some p)"
proof -
  obtain T where T: "ex_uttest = Some T" "uoutput T = [(1, count_text 1 0), (1, star_text 1), (2, count_text 2 0)]"
    using ex_uttest_value by blast
  from uthread_test_prints [OF ex_uttest_reachable [OF T(1)] test_ut_env_fresh, of 1] T
  show ?thesis by (intro exI [of _ T]) (simp add: printed_by_def, blast)
qed

text \<open>
  The signal comes when \<open>main\<close> is alone, and when it has created two threads: the first of them goes on.
\<close>

definition tick_after :: "bool list \<Rightarrow> (uttest \<times> uttest \<times> nat \<times> ut_pc) option" where
  "tick_after bs = (case uthread_init test_ut_env sched0 of
     Inr s \<Rightarrow> Option.bind (current_thread s) (\<lambda>c. Option.bind (ut_run bs (uttest0 s c)) (\<lambda>T.
       case ut_tick T 14 of
         Inr T' \<Rightarrow> Option.bind (current_thread (usched T')) (\<lambda>d. map_option (\<lambda>q. (T, T', d, q)) (upcs T' d))
       | _ \<Rightarrow> None))
   | _ \<Rightarrow> None)"

lemma tick_after_reaches:
  assumes run: "tick_after bs = Some (T, T', d, q)"
  shows "uttest_reachable test_ut_env T \<and> ut_tick T 14 = Inr T' \<and>
    current_thread (usched T') = Some d \<and> upcs T' d = Some q"
proof -
  obtain s where s: "uthread_init test_ut_env sched0 = Inr s"
    using run by (cases "uthread_init test_ut_env sched0") (simp_all add: tick_after_def)
  with run obtain c U where U: "current_thread s = Some c" "ut_run bs (uttest0 s c) = Some U"
    "(case ut_tick U 14 of Inr T' \<Rightarrow>
        Option.bind (current_thread (usched T')) (\<lambda>d. map_option (\<lambda>q. (U, T', d, q)) (upcs T' d)) | _ \<Rightarrow> None) = Some (T, T', d, q)"
    unfolding tick_after_def bind_eq_Some_conv s sum.case by blast
  have r: "uttest_reachable test_ut_env U" by (rule ut_run_reachable [OF uttest_reachable.start [OF s U(1)] U(2)])
  from U(3) show ?thesis by (cases "ut_tick U 14") (use r in \<open>auto simp: bind_eq_Some_conv\<close>)
qed

lemma tick_after_values:
  "map_option (\<lambda>(T, T', d, q). (d, q)) (tick_after []) = Some (1, Main_Creates 1)"
  "map_option (\<lambda>(T, T', d, q). (d, q)) (tick_after [False, False]) = Some (2, Thr_For 1 0)"
  by code_simp+

theorem uthread_test_main_last_witness:
  "(\<exists>T T'. tick_after [] = Some (T, T', 1, Main_Creates 1) \<and> dom (upcs T') = {1}) \<and>
   (\<exists>T T'. tick_after [False, False] = Some (T, T', 2, Thr_For 1 0) \<and> (is_main (Thr_For 1 0) \<longrightarrow> dom (upcs T') = {2}))"
proof -
  obtain T T' U U' where T: "tick_after [] = Some (T, T', 1, Main_Creates 1)"
    and U: "tick_after [False, False] = Some (U, U', 2, Thr_For 1 0)" using tick_after_values by auto
  note t = tick_after_reaches [OF T] and u = tick_after_reaches [OF U]
  have "dom (upcs T') = {1}"
    using uthread_test_main_last [of test_ut_env T 14 T' 1 "Main_Creates 1"] t test_ut_env_fresh by simp
  moreover have "is_main (Thr_For 1 0) \<longrightarrow> dom (upcs U') = {2}"
    using uthread_test_main_last [of test_ut_env U 14 U' 2 "Thr_For 1 0"] u test_ut_env_fresh by blast
  ultimately show ?thesis using T U by blast
qed

end
