(* ===== verification/UMutex.thy ===== *)
theory UMutex imports USched begin

text \<open>
  The mutexes of Asmt_4 (uthread.c, uthread.h): a singly linked queue of wait records, sorted by the
  priority of their threads, that holds a record for the thread which has the lock and one for
  every thread that waits. \<open>uthread_mutex_lock\<close> enqueues with all signals blocked and then
  yields until the lock is its own; \<open>uthread_mutex_unlock\<close> hands the lock to the head of what
  remains. The two parts of \<open>uthread_mutex_lock\<close> are two definitions, as other threads run
  in between.
\<close>

section \<open>State\<close>

record wait_record =
  wr_thread :: ptr
  wr_next :: ptr

type_synonym wait_heap = "nat \<rightharpoonup> wait_record"

record mutex =
  locking_thread :: ptr
  wait_queue_length :: int
  wait_queue_head :: ptr
  wait_queue_tail :: ptr

record mutex_env =
  malloc_wait :: "wait_heap \<Rightarrow> ptr"
  malloc_wait_buf :: "nat \<Rightarrow> bool"
  block_ok :: bool
  unblock_ok :: bool
  sort_waits :: "nat qsort"

definition uthread_mutex_init :: mutex where
  "uthread_mutex_init = \<lparr>locking_thread = None, wait_queue_length = 0, wait_queue_head = None,
     wait_queue_tail = None\<rparr>"

definition uthread_wait_record_init :: "ptr \<Rightarrow> wait_record" where
  "uthread_wait_record_init current = \<lparr>wr_thread = current, wr_next = None\<rparr>"

section \<open>Locking\<close>

text \<open>The loop that copies the queue up to its NULL into a buffer in which \<open>n\<close> slots are left.\<close>

fun collect_waits :: "wait_heap \<Rightarrow> ptr \<Rightarrow> nat \<Rightarrow> nat list res" where
  "collect_waits w None n = Inr []"
| "collect_waits w (Some a) 0 = Inl Out_Of_Bounds"
| "collect_waits w (Some a) (Suc n) =
     bindr (load w (Some a)) (\<lambda>r.
     bindr (collect_waits w (wr_next r) n) (\<lambda>as. Inr (a # as)))"

text \<open>The priority of the thread of a record, read through two pointers.\<close>

definition wait_pri :: "thread_heap \<Rightarrow> wait_heap \<Rightarrow> nat \<Rightarrow> int" where
  "wait_pri h w a = (case w a of None \<Rightarrow> 0
     | Some r \<Rightarrow> (case wr_thread r of None \<Rightarrow> 0 | Some t \<Rightarrow> pri_of h t))"

definition uthread_wait_record_priority_sort :: "thread_heap \<Rightarrow> wait_heap \<Rightarrow> nat \<Rightarrow> nat \<Rightarrow> int" where
  "uthread_wait_record_priority_sort h w key other =
     (if wait_pri h w key < wait_pri h w other then -1
      else if wait_pri h w key > wait_pri h w other then 1 else 0)"

text \<open>The comparison needs every record's thread to be a live object.\<close>

definition threads_readable :: "thread_heap \<Rightarrow> wait_heap \<Rightarrow> nat list \<Rightarrow> unit res" where
  "threads_readable h w as = bindr (mapr (\<lambda>a. bindr (load w (Some a)) (\<lambda>r. load h (wr_thread r))) as)
     (\<lambda>ts. Inr ())"

fun link_waits :: "wait_heap \<Rightarrow> nat list \<Rightarrow> wait_heap res" where
  "link_waits w (a # b # as) =
     bindr (store w (Some a) (\<lambda>r. r\<lparr>wr_next := Some b\<rparr>)) (\<lambda>w1. link_waits w1 (b # as))"
| "link_waits w as = Inr w"

text \<open>The new record joins a queue that is not empty: copy, sort, relink.\<close>

definition requeue ::
  "mutex_env \<Rightarrow> thread_heap \<Rightarrow> wait_heap \<Rightarrow> mutex \<Rightarrow> nat \<Rightarrow> (wait_heap \<times> mutex) res" where
  "requeue env h w m new_wait =
     (let n = nat (wait_queue_length m) in
      if \<not> malloc_wait_buf env (n * 8) then Inl Null_Deref
      else
        bindr (collect_waits w (wait_queue_head m) n) (\<lambda>as.
        let filled = as @ [new_wait] in
        if length filled > n then Inl Out_Of_Bounds
        else if length filled < n then Inl Uninit_Read
        else
          bindr (threads_readable h w filled) (\<lambda>u.
          let wait_buf = sort_waits env (uthread_wait_record_priority_sort h w) filled in
          bindr (store w (Some (last wait_buf)) (\<lambda>r. r\<lparr>wr_next := None\<rparr>)) (\<lambda>w1.
          bindr (link_waits w1 wait_buf) (\<lambda>w2.
          Inr (w2, m\<lparr>wait_queue_head := Some (hd wait_buf), wait_queue_tail := Some (last wait_buf)\<rparr>))))))"

definition mutex_lock_enter ::
  "mutex_env \<Rightarrow> sched \<Rightarrow> wait_heap \<Rightarrow> mutex \<Rightarrow> (wait_heap \<times> mutex) res" where
  "mutex_lock_enter env s w m =
     (if \<not> block_ok env then Inl (Exit (-1))
      else case malloc_wait env w of
        None \<Rightarrow> Inl Null_Deref
      | Some new_wait \<Rightarrow>
          let w1 = w(new_wait \<mapsto> uthread_wait_record_init (current_thread s)) in
          bindr (c_int (wait_queue_length m + 1)) (\<lambda>n.
          let m1 = m\<lparr>wait_queue_length := n\<rparr> in
          bindr (if n = 1
                 then Inr (w1, m1\<lparr>wait_queue_head := Some new_wait, wait_queue_tail := Some new_wait,
                                  locking_thread := current_thread s\<rparr>)
                 else requeue env (threads s) w1 m1 new_wait) (\<lambda>r.
          if \<not> unblock_ok env then Inl (Exit (-1)) else Inr r)))"

text \<open>
  The loop that ends \<open>uthread_mutex_lock\<close>. When a yield switches to another thread, the loop
  goes on in the state in which that thread and its successors switch back: \<open>others\<close>, a
  parameter, as it depends on the program (\<open>None\<close> when they never do). The result \<open>None\<close> is
  a wait that never ends.
\<close>

partial_function (option) mutex_lock_wait ::
  "(mutex \<Rightarrow> sched \<Rightarrow> (mutex \<times> sched) option) \<Rightarrow> mutex \<Rightarrow> sched \<Rightarrow> (mutex \<times> sched) res option" where
  "mutex_lock_wait others m s =
     (if current_thread s = locking_thread m then Some (Inr (m, s))
      else case uthread_yield s of
        Inl e \<Rightarrow> Some (Inl e)
      | Inr s1 \<Rightarrow>
          if current_thread s1 = current_thread s then mutex_lock_wait others m s1
          else case others m s1 of
            None \<Rightarrow> None
          | Some ms2 \<Rightarrow> mutex_lock_wait others (fst ms2) (snd ms2))"

text \<open>A thread whose yield returns at once, without the lock, waits for ever.\<close>

lemma mutex_lock_wait_diverges:
  assumes "uthread_yield s = Inr s" and "current_thread s \<noteq> locking_thread m"
  shows "mutex_lock_wait others m s = None"
proof -
  have "uthread_yield s = Inr s \<longrightarrow> current_thread s = locking_thread m"
    if "mutex_lock_wait others m s = Some r" for r
    using that
    by (rule mutex_lock_wait.raw_induct [rotated]) (auto split: if_splits)
  with assms show ?thesis by (cases "mutex_lock_wait others m s") auto
qed

section \<open>Unlocking\<close>

text \<open>The search for the record of the thread that has the lock; the result is its predecessor and itself.\<close>

partial_function (option) find_holder ::
  "wait_heap \<Rightarrow> ptr \<Rightarrow> ptr \<Rightarrow> ptr \<Rightarrow> (ptr \<times> ptr) res option" where
  "find_holder w locking search_prev search =
     (case load w search of
        Inl e \<Rightarrow> Some (Inl e)
      | Inr r \<Rightarrow>
          if wr_thread r = locking then Some (Inr (search_prev, search))
          else if wr_next r = None then Some (Inl (Exit (-1)))
          else find_holder w locking search (wr_next r))"

declare find_holder.simps [code]

text \<open>The record that goes, and the queue without it.\<close>

definition take_holder :: "wait_heap \<Rightarrow> mutex \<Rightarrow> (ptr \<times> wait_heap \<times> mutex) res option" where
  "take_holder w m =
     (case load w (wait_queue_head m) of
        Inl e \<Rightarrow> Some (Inl e)
      | Inr first \<Rightarrow>
          if wr_thread first = locking_thread m
          then Some (Inr (wait_queue_head m, w, m\<lparr>wait_queue_head := wr_next first\<rparr>))
          else
            map_option (\<lambda>found.
              bindr found (\<lambda>(prev, search).
              bindr (load w search) (\<lambda>r.
              bindr (store w prev (\<lambda>p. p\<lparr>wr_next := wr_next r\<rparr>)) (\<lambda>w1.
              Inr (search, w1, m)))))
            (find_holder w (locking_thread m) (wait_queue_head m) (wr_next first)))"

definition uthread_mutex_unlock :: "mutex_env \<Rightarrow> wait_heap \<Rightarrow> mutex \<Rightarrow> (wait_heap \<times> mutex) res option" where
  "uthread_mutex_unlock env w m =
     (if \<not> block_ok env then Some (Inl (Exit (-1)))
      else
        map_option (\<lambda>taken.
          bindr taken (\<lambda>(old_record, w1, m1).
          bindr (free_ptr w1 old_record) (\<lambda>w2.
          if \<not> unblock_ok env then Inl (Exit (-1))
          else Inr (w2, m1\<lparr>wait_queue_length := wait_queue_length m1 - 1\<rparr>))))
        (if wait_queue_length m = 1
         then Some (Inr (wait_queue_head m, w, m\<lparr>wait_queue_head := None, wait_queue_tail := None\<rparr>))
         else
           map_option (\<lambda>taken.
             bindr taken (\<lambda>(old_record, w1, m1).
             bindr (load w1 (wait_queue_head m1)) (\<lambda>first.
             Inr (old_record, w1, m1\<lparr>locking_thread := wr_thread first\<rparr>))))
           (take_holder w m)))"

partial_function (option) uthread_mutex_destroy :: "wait_heap \<Rightarrow> mutex \<Rightarrow> (wait_heap \<times> mutex) res option" where
  "uthread_mutex_destroy w m =
     (case wait_queue_head m of
        None \<Rightarrow> Some (Inr (w, m))
      | Some a \<Rightarrow>
          (case load w (Some a) of
             Inl e \<Rightarrow> Some (Inl e)
           | Inr r \<Rightarrow> uthread_mutex_destroy (w(a := None)) (m\<lparr>wait_queue_head := wr_next r\<rparr>)))"

section \<open>The queue\<close>

definition wnext :: "wait_heap \<Rightarrow> nat \<Rightarrow> ptr option" where
  "wnext w a = map_option wr_next (w a)"

definition wthread :: "wait_heap \<Rightarrow> nat \<Rightarrow> ptr" where
  "wthread w a = (case w a of None \<Rightarrow> None | Some r \<Rightarrow> wr_thread r)"

lemma wait_pri_thread:
  "wait_pri h w a = (case wthread w a of None \<Rightarrow> 0 | Some t \<Rightarrow> pri_of h t)"
  by (simp add: wait_pri_def wthread_def split: option.split)

lemma wnext_live: "wnext w a = Some q \<Longrightarrow> \<exists>r. w a = Some r \<and> wr_next r = q"
  by (auto simp: wnext_def)

lemma wthread_live: "wthread w a = Some t \<Longrightarrow> \<exists>r. w a = Some r \<and> wr_thread r = Some t"
  by (auto simp: wthread_def split: option.splits)

lemma wthread_relinked [heap_simps]:
  "w a = Some r \<Longrightarrow> wthread (w(a \<mapsto> r\<lparr>wr_next := q\<rparr>)) = wthread w"
  by (auto simp: wthread_def fun_eq_iff)

lemma wnext_relinked [heap_simps]:
  "wnext (w(a \<mapsto> r\<lparr>wr_next := q\<rparr>)) = (wnext w)(a := Some q)"
  by (auto simp: wnext_def fun_eq_iff)

text \<open>
  The queue holds the records \<open>rs\<close>, one for each of different live threads, sorted by
  priority; when it is not empty, the thread that has the lock is one of them.
\<close>

definition mutex_inv :: "thread_heap \<Rightarrow> wait_heap \<Rightarrow> mutex \<Rightarrow> nat list \<Rightarrow> bool" where
  "mutex_inv h w m rs \<longleftrightarrow> path (wnext w) (wait_queue_head m) rs None \<and>
     wait_queue_length m = int (length rs) \<and> sorted (map (wait_pri h w) rs) \<and>
     (\<forall>a \<in> set rs. \<exists>t. wthread w a = Some t \<and> h t \<noteq> None) \<and> inj_on (wthread w) (set rs) \<and>
     (rs \<noteq> [] \<longrightarrow> locking_thread m \<in> wthread w ` set rs) \<and> finite (dom w)"

definition mutex_env_good :: "mutex_env \<Rightarrow> bool" where
  "mutex_env_good env \<longleftrightarrow>
     (\<forall>w. finite (dom w) \<longrightarrow> (\<exists>a. malloc_wait env w = Some a \<and> w a = None)) \<and>
     (\<forall>n. malloc_wait_buf env n) \<and> block_ok env \<and> unblock_ok env \<and> qsort_ok (sort_waits env)"

interpretation wait_priority: keyed_comparison "uthread_wait_record_priority_sort h w" "wait_pri h w" UNIV
    for h w
  by unfold_locales (simp add: uthread_wait_record_priority_sort_def)

lemma collect_waits_path:
  "path (wnext w) p as None \<Longrightarrow> length as \<le> n \<Longrightarrow> collect_waits w p n = Inr as"
proof (induction as arbitrary: p n)
  case (Cons a as)
  then obtain r where r: "p = Some a" "w a = Some r" "path (wnext w) (wr_next r) as None"
    by (auto dest!: wnext_live)
  from Cons.prems(2) obtain n' where n: "n = Suc n'" "length as \<le> n'" by (cases n) auto
  with Cons.IH [OF r(3), of n'] r(1,2) show ?case by simp
qed simp

lemma link_waits_path:
  "distinct as \<Longrightarrow> as \<noteq> [] \<Longrightarrow> \<forall>a \<in> set as. w a \<noteq> None \<Longrightarrow> wnext w (last as) = Some None \<Longrightarrow>
   \<exists>w'. link_waits w as = Inr w' \<and> path (wnext w') (Some (hd as)) as None \<and>
        wthread w' = wthread w \<and> dom w' = dom w \<and> (\<forall>a. a \<notin> set as \<longrightarrow> w' a = w a)"
proof (induction w as rule: link_waits.induct)
  case (1 w a b as)
  then obtain r where r: "w a = Some r" by auto
  define w1 where "w1 = w(a \<mapsto> r\<lparr>wr_next := Some b\<rparr>)"
  have st: "store w (Some a) (\<lambda>r. r\<lparr>wr_next := Some b\<rparr>) = Inr w1" using r by (simp add: w1_def)
  have "\<forall>c \<in> set (b # as). w1 c \<noteq> None" using "1.prems"(3) by (auto simp: w1_def)
  moreover have "wnext w1 (last (b # as)) = Some None"
    using "1.prems"(1,4) last_in_set [of "b # as"] by (auto simp: w1_def wnext_def)
  ultimately obtain w' where
    w': "link_waits w1 (b # as) = Inr w'" "path (wnext w') (Some b) (b # as) None"
      "wthread w' = wthread w1" "dom w' = dom w1" "\<forall>c. c \<notin> set (b # as) \<longrightarrow> w' c = w1 c"
    using "1.IH" [OF st] "1.prems"(1) by auto
  have "wnext w' a = Some (Some b)" using w'(5) "1.prems"(1) by (simp add: wnext_def w1_def)
  moreover have "\<forall>c. c \<notin> set (a # b # as) \<longrightarrow> w' c = w c" using w'(5) by (simp add: w1_def)
  moreover have "dom w' = dom w" using w'(4) r by (auto simp: w1_def)
  moreover have "wthread w' = wthread w" using w'(3) r by (simp add: w1_def heap_simps)
  ultimately show ?case using st w'(1,2) by auto
qed auto

lemma requeue_runs:
  assumes path: "path (wnext w) (wait_queue_head m) rs None" and a: "a \<notin> set rs"
    and live: "\<forall>b \<in> set (a # rs). \<exists>t. wthread w b = Some t \<and> h t \<noteq> None"
    and env: "mutex_env_good env" and n: "wait_queue_length m = int (length rs) + 1"
  shows "\<exists>ys w'. requeue env h w m a = Inr (w',
      m\<lparr>wait_queue_head := Some (hd ys), wait_queue_tail := Some (last ys)\<rparr>) \<and>
    mset ys = mset (a # rs) \<and> path (wnext w') (Some (hd ys)) ys None \<and>
    sorted (map (wait_pri h w) ys) \<and> wthread w' = wthread w \<and> dom w' = dom w"
proof -
  let ?n = "length rs + 1"
  have e: "\<And>n. malloc_wait_buf env n" "qsort_ok (sort_waits env)"
    using env by (auto simp: mutex_env_good_def)
  have coll: "collect_waits w (wait_queue_head m) ?n = Inr rs"
    by (rule collect_waits_path [OF path]) simp
  have "mapr (\<lambda>b. bindr (load w (Some b)) (\<lambda>r. load h (wr_thread r))) (rs @ [a]) =
      Inr (map (\<lambda>b. the (h (the (wthread w b)))) (rs @ [a]))"
  proof (rule mapr_Inr)
    fix b assume "b \<in> set (rs @ [a])"
    then obtain t where t: "wthread w b = Some t" "h t \<noteq> None" using live by auto
    then obtain r where "w b = Some r" "wr_thread r = Some t" using wthread_live by blast
    with t show "bindr (load w (Some b)) (\<lambda>r. load h (wr_thread r)) =
        Inr (the (h (the (wthread w b))))" by auto
  qed
  then have readable: "threads_readable h w (rs @ [a]) = Inr ()" by (simp add: threads_readable_def)
  define ys where "ys = sort_waits env (uthread_wait_record_priority_sort h w) (rs @ [a])"
  have ms: "mset ys = mset (a # rs)" and sorted: "sorted (map (wait_pri h w) ys)"
    using wait_priority.qsort_mset [OF e(2)] wait_priority.qsort_sorted [OF e(2)]
    by (simp_all add: ys_def)
  have set_ys: "set ys = set (a # rs)" using mset_eq_setD [OF ms] .
  have "distinct ys" using mset_eq_imp_distinct_iff [OF ms] path_None_distinct [OF path] a by simp
  have ne: "ys \<noteq> []" using set_ys by auto
  have live_ys: "\<forall>b \<in> set ys. w b \<noteq> None" using set_ys live by (auto dest!: wthread_live)
  then obtain r where r: "w (last ys) = Some r" using last_in_set [OF ne] by blast
  define w1 where "w1 = w(last ys \<mapsto> r\<lparr>wr_next := None\<rparr>)"
  have "\<forall>b \<in> set ys. w1 b \<noteq> None" "wnext w1 (last ys) = Some None"
    using live_ys by (auto simp: w1_def wnext_def)
  from link_waits_path [OF \<open>distinct ys\<close> ne this] obtain w' where
    w': "link_waits w1 ys = Inr w'" "path (wnext w') (Some (hd ys)) ys None"
      "wthread w' = wthread w1" "dom w' = dom w1" by blast
  have "nat (wait_queue_length m) = ?n" using n by simp
  then have "requeue env h w m a = Inr (w',
      m\<lparr>wait_queue_head := Some (hd ys), wait_queue_tail := Some (last ys)\<rparr>)"
    using e(1) coll readable r w'(1)
    by (simp add: requeue_def ys_def [symmetric] w1_def [symmetric])
  moreover have "wthread w' = wthread w" "dom w' = dom w"
    using w'(3,4) r by (auto simp: w1_def heap_simps)
  ultimately show ?thesis using ms sorted w'(2) by blast
qed

lemma mutex_invD:
  assumes "mutex_inv h w m rs"
  shows "path (wnext w) (wait_queue_head m) rs None" and "wait_queue_length m = int (length rs)"
    and "sorted (map (wait_pri h w) rs)" and "distinct rs"
    and "a \<in> set rs \<Longrightarrow> \<exists>t. wthread w a = Some t \<and> h t \<noteq> None"
    and "a \<in> set rs \<Longrightarrow> b \<in> set rs \<Longrightarrow> wthread w a = wthread w b \<Longrightarrow> a = b"
    and "rs \<noteq> [] \<Longrightarrow> locking_thread m \<in> wthread w ` set rs"
    and "finite (dom w)"
  using assms by (auto simp: mutex_inv_def inj_on_def dest: path_None_distinct)

text \<open>The record at the fresh address \<open>a\<close> in front of the old queue.\<close>

lemma new_record:
  assumes "mutex_inv h w m rs" and "w a = None"
    and "w1 = w(a \<mapsto> \<lparr>wr_thread = Some c, wr_next = None\<rparr>)"
  shows "a \<notin> set rs" and "path (wnext w1) (wait_queue_head m) rs None"
    and "wthread w1 = (wthread w)(a := Some c)" and "finite (dom w1)"
    and "\<And>b. b \<in> set rs \<Longrightarrow> wait_pri h w1 b = wait_pri h w b"
proof -
  show a: "a \<notin> set rs" using mutex_invD(5) [OF assms(1), of a] assms(2) by (auto simp: wthread_def)
  have "path (wnext w) (wait_queue_head m) rs None \<longleftrightarrow> path (wnext w1) (wait_queue_head m) rs None"
    by (rule path_cong) (use a in \<open>auto simp: wnext_def assms(3)\<close>)
  then show "path (wnext w1) (wait_queue_head m) rs None" using mutex_invD(1) [OF assms(1)] by simp
  show th: "wthread w1 = (wthread w)(a := Some c)" by (auto simp: fun_eq_iff wthread_def assms(3))
  show "finite (dom w1)" using mutex_invD(8) [OF assms(1)] by (simp add: assms(3))
  show "wait_pri h w1 b = wait_pri h w b" if "b \<in> set rs" for b
    using that a by (auto simp: wait_pri_thread th)
qed

lemma lock_enter_spec:
  assumes inv: "mutex_inv (threads s) w m rs" and env: "mutex_env_good env"
    and cur: "current_thread s = Some c" "threads s c \<noteq> None" "Some c \<notin> wthread w ` set rs"
    and n: "int32_ok (wait_queue_length m + 1)"
  shows "\<exists>a w' m' ys. mutex_lock_enter env s w m = Inr (w', m') \<and> w a = None \<and>
    mset ys = mset (a # rs) \<and> mutex_inv (threads s) w' m' ys \<and>
    wthread w' = (wthread w)(a := Some c) \<and>
    locking_thread m' = (if rs = [] then Some c else locking_thread m)"
proof -
  let ?h = "threads s"
  from env mutex_invD(8) [OF inv] obtain a where a: "malloc_wait env w = Some a" "w a = None"
    unfolding mutex_env_good_def by blast
  have ok: "block_ok env" "unblock_ok env" using env by (simp_all add: mutex_env_good_def)
  define w1 where "w1 = w(a \<mapsto> \<lparr>wr_thread = Some c, wr_next = None\<rparr>)"
  note new = new_record [OF inv a(2) w1_def]
  have live: "\<forall>b \<in> set (a # rs). \<exists>t. wthread w1 b = Some t \<and> ?h t \<noteq> None"
    using mutex_invD(5) [OF inv] cur(2) new(1) by (auto simp: new(3))
  have inj: "inj_on (wthread w1) (set (a # rs))"
    using mutex_invD(6) [OF inv] cur(3) new(1) by (auto simp: new(3) inj_on_def image_iff)
  define m1 where "m1 = m\<lparr>wait_queue_length := wait_queue_length m + 1\<rparr>"
  show ?thesis
  proof (cases "rs = []")
    case True
    define m' where "m' = m1\<lparr>wait_queue_head := Some a, wait_queue_tail := Some a, locking_thread := Some c\<rparr>"
    have len: "wait_queue_length m = 0" using True mutex_invD(2) [OF inv] by simp
    have "mutex_lock_enter env s w m = Inr (w1, m')"
      using a(1) ok cur(1) len
      by (simp add: mutex_lock_enter_def uthread_wait_record_init_def w1_def m'_def m1_def int32_ok_def)
    moreover have "mutex_inv ?h w1 m' [a]"
      using live inj new(4) True len by (simp add: mutex_inv_def m'_def m1_def wnext_def w1_def)
        (simp add: wthread_def)
    ultimately show ?thesis using a(2) new(3) True
      by (intro exI [of _ a] exI [of _ w1] exI [of _ m'] exI [of _ "[a]"]) (simp add: m'_def)
  next
    case False
    have "wait_queue_length m1 = int (length rs) + 1" "path (wnext w1) (wait_queue_head m1) rs None"
      using mutex_invD(2) [OF inv] new(2) by (simp_all add: m1_def)
    from requeue_runs [OF this(2) new(1) live env this(1)] obtain ys w' where
      run: "requeue env ?h w1 m1 a = Inr (w', m1\<lparr>wait_queue_head := Some (hd ys), wait_queue_tail := Some (last ys)\<rparr>)"
        "mset ys = mset (a # rs)" "path (wnext w') (Some (hd ys)) ys None"
        "sorted (map (wait_pri ?h w1) ys)" "wthread w' = wthread w1" "dom w' = dom w1" by blast
    define m' where "m' = m1\<lparr>wait_queue_head := Some (hd ys), wait_queue_tail := Some (last ys)\<rparr>"
    have "wait_queue_length m + 1 \<noteq> 1" using mutex_invD(2) [OF inv] False by simp
    then have "mutex_lock_enter env s w m = Inr (w', m')"
      using a(1) ok cur(1) n run(1)
      by (simp add: mutex_lock_enter_def uthread_wait_record_init_def w1_def m1_def m'_def)
    moreover have "mutex_inv ?h w' m' ys"
    proof -
      have set_ys: "set ys = set (a # rs)" using mset_eq_setD [OF run(2)] .
      have "wait_pri ?h w' = wait_pri ?h w1" using run(5) by (simp add: fun_eq_iff wait_pri_thread)
      moreover have "locking_thread m' \<in> wthread w' ` set ys"
        using mutex_invD(7) [OF inv False] set_ys new(1)
        by (auto simp: m'_def m1_def run(5) new(3) image_iff)
      moreover have "wait_queue_length m' = int (length ys)"
        using mset_eq_length [OF run(2)] mutex_invD(2) [OF inv] by (simp add: m'_def m1_def)
      ultimately show ?thesis using run(3,4,6) live inj new(4) set_ys
        by (simp add: mutex_inv_def run(5) m'_def)
    qed
    ultimately show ?thesis using a(2) run(2,5) new(3) False
      by (intro exI [of _ a] exI [of _ w'] exI [of _ m'] exI [of _ ys]) (simp add: m'_def m1_def)
  qed
qed

text \<open>The search of \<open>uthread_mutex_unlock\<close> finds the record of the thread with the lock, and ends.\<close>

lemma find_holder_path:
  "path (wnext w) search (us @ a # vs) None \<Longrightarrow> wthread w a = locking \<Longrightarrow>
   locking \<notin> wthread w ` set us \<Longrightarrow>
   find_holder w locking search_prev search =
     Some (Inr (if us = [] then search_prev else Some (last us), Some a))"
proof (induction us arbitrary: search_prev search)
  case Nil
  then show ?case by (subst find_holder.simps) (auto dest!: wnext_live simp: wthread_def)
next
  case (Cons b us)
  then have "search = Some b" "\<exists>q. wnext w b = Some q \<and> path (wnext w) q (us @ a # vs) None" by auto
  then obtain r where r: "search = Some b" "w b = Some r" "path (wnext w) (wr_next r) (us @ a # vs) None"
    by (blast dest: wnext_live)
  have "wr_thread r \<noteq> locking" using Cons.prems(3) r(2) by (auto simp: wthread_def)
  moreover have "wr_next r \<noteq> None" using path_nonempty [OF r(3)] by simp
  ultimately show ?case using Cons.IH [OF r(3) Cons.prems(2)] Cons.prems(3) r(1,2)
    by (subst find_holder.simps) auto
qed

text \<open>
  What \<open>take_holder\<close> leaves: the record of the thread with the lock is unlinked, not yet freed.
\<close>

lemma take_holder_runs:
  assumes inv: "mutex_inv h w m rs" and ne: "rs \<noteq> []"
  shows "\<exists>us a vs w1 m1. rs = us @ a # vs \<and> wthread w a = locking_thread m \<and>
    take_holder w m = Some (Inr (Some a, w1, m1)) \<and> path (wnext w1) (wait_queue_head m1) (us @ vs) None \<and>
    (\<exists>p. m1 = m\<lparr>wait_queue_head := p\<rparr>) \<and> wthread w1 = wthread w \<and> dom w1 = dom w"
proof -
  note path = mutex_invD(1) [OF inv]
  from mutex_invD(7) [OF inv ne] obtain us a vs where
    rs: "rs = us @ a # vs" and holder: "wthread w a = locking_thread m"
    by (auto simp: in_set_conv_decomp image_iff)
  have first: "locking_thread m \<notin> wthread w ` set us"
    using mutex_invD(6) [OF inv, of a] mutex_invD(4) [OF inv] rs holder by auto
  have "wnext w a \<noteq> None" using path_live [OF path] rs by simp
  then obtain ra where ra: "w a = Some ra" by (auto simp: wnext_def)
  show ?thesis
  proof (cases us rule: rev_cases)
    case Nil
    then have "wait_queue_head m = Some a" "path (wnext w) (wr_next ra) vs None"
      using path rs ra by (auto simp: wnext_def)
    moreover from this ra holder have
      "take_holder w m = Some (Inr (Some a, w, m\<lparr>wait_queue_head := wr_next ra\<rparr>))"
      by (simp add: take_holder_def wthread_def)
    ultimately show ?thesis using rs holder Nil
      by (intro exI [of _ us] exI [of _ a] exI [of _ vs] exI [of _ w]
          exI [of _ "m\<lparr>wait_queue_head := wr_next ra\<rparr>"]) auto
  next
    case (snoc us0 u)
    obtain b bs where us: "us = b # bs" using snoc by (metis append_is_Nil_conv list.exhaust list.simps(3))
    then have "wait_queue_head m = Some b" "\<exists>q. wnext w b = Some q \<and> path (wnext w) q (bs @ a # vs) None"
      using path rs by auto
    then obtain rb where rb: "wait_queue_head m = Some b" "w b = Some rb"
      "path (wnext w) (wr_next rb) (bs @ a # vs) None" by (blast dest: wnext_live)
    have nb: "wr_thread rb \<noteq> locking_thread m" using first us rb(2) by (auto simp: wthread_def)
    have last: "(if bs = [] then Some b else Some (last bs)) = Some u"
      using us snoc by (cases bs rule: rev_cases) auto
    have "find_holder w (locking_thread m) (Some b) (wr_next rb) = Some (Inr (Some u, Some a))"
      using find_holder_path [OF rb(3) holder, of "Some b"] first us last by simp
    moreover have "wnext w u \<noteq> None" using path_live [OF path] rs snoc by simp
    then obtain ru where ru: "w u = Some ru" by (auto simp: wnext_def)
    define w1 where "w1 = w(u \<mapsto> ru\<lparr>wr_next := wr_next ra\<rparr>)"
    ultimately have take: "take_holder w m = Some (Inr (Some a, w1, m))"
      using rb(1,2) nb ra ru by (simp add: take_holder_def)
    have "path (wnext w) (wait_queue_head m) (us0 @ [u] @ a # vs) None" using path rs snoc by simp
    from path_remove [OF this, of "wr_next ra" "wnext w1"]
    have "path (wnext w1) (wait_queue_head m) (us @ vs) None"
      using ra snoc by (simp add: wnext_def w1_def)
    moreover have "wthread w1 = wthread w" "dom w1 = dom w"
      using ru by (auto simp: w1_def heap_simps)
    moreover have "m = m\<lparr>wait_queue_head := wait_queue_head m\<rparr>" by simp
    ultimately show ?thesis using take rs holder by blast
  qed
qed

lemma free_record:
  assumes "path (wnext w1) p rs None" and "a \<notin> set rs"
  shows "path (wnext (w1(a := None))) p rs None" and "wthread (w1(a := None)) = (wthread w1)(a := None)"
proof -
  have "path (wnext w1) p rs None \<longleftrightarrow> path (wnext (w1(a := None))) p rs None"
    by (rule path_cong) (use assms(2) in \<open>auto simp: wnext_def\<close>)
  with assms(1) show "path (wnext (w1(a := None))) p rs None" by simp
  show "wthread (w1(a := None)) = (wthread w1)(a := None)" by (auto simp: wthread_def fun_eq_iff)
qed

text \<open>The queue without the record of the thread that unlocks.\<close>

lemma mutex_inv_without:
  assumes inv: "mutex_inv h w m rs" and rs: "rs = us @ a # vs"
    and path: "path (wnext w') (wait_queue_head m') (us @ vs) None"
    and th: "wthread w' = (wthread w)(a := None)" and fin: "finite (dom w')"
    and len: "wait_queue_length m' = wait_queue_length m - 1"
    and lock: "us @ vs \<noteq> [] \<Longrightarrow> locking_thread m' = wthread w (hd (us @ vs))"
  shows "mutex_inv h w' m' (us @ vs)"
proof -
  have a: "a \<notin> set (us @ vs)" using mutex_invD(4) [OF inv] rs by auto
  have same: "wthread w' b = wthread w b" "wait_pri h w' b = wait_pri h w b" if "b \<in> set (us @ vs)" for b
    using that a th by (auto simp: wait_pri_thread)
  have "map (wait_pri h w') (us @ vs) = map (wait_pri h w) (us @ vs)" using same(2) by (auto intro: map_cong)
  moreover have "sorted (map (wait_pri h w) (us @ vs))"
    using mutex_invD(3) [OF inv] rs by (auto simp: sorted_append)
  ultimately have "sorted (map (wait_pri h w') (us @ vs))" by (simp only:)
  moreover have "\<forall>b \<in> set (us @ vs). \<exists>t. wthread w' b = Some t \<and> h t \<noteq> None"
    using mutex_invD(5) [OF inv] same(1) rs by auto
  moreover have "inj_on (wthread w') (set (us @ vs))"
    by (rule inj_onI) (use mutex_invD(6) [OF inv] same(1) rs in auto)
  moreover have "us @ vs \<noteq> [] \<Longrightarrow> locking_thread m' \<in> wthread w' ` set (us @ vs)"
  proof -
    assume ne: "us @ vs \<noteq> []"
    with lock same(1) [OF hd_in_set [OF ne]] have "locking_thread m' = wthread w' (hd (us @ vs))" by simp
    with hd_in_set [OF ne] show ?thesis by blast
  qed
  moreover have "wait_queue_length m' = int (length (us @ vs))"
    using len mutex_invD(2) [OF inv] rs by simp
  ultimately show ?thesis using path fin unfolding mutex_inv_def by blast
qed

lemma unlock_spec:
  assumes inv: "mutex_inv h w m rs" and ne: "rs \<noteq> []" and env: "mutex_env_good env"
  shows "\<exists>us a vs w' m'. rs = us @ a # vs \<and> wthread w a = locking_thread m \<and>
    uthread_mutex_unlock env w m = Some (Inr (w', m')) \<and> mutex_inv h w' m' (us @ vs) \<and>
    wthread w' = (wthread w)(a := None) \<and> w' a = None \<and>
    locking_thread m' = (if us @ vs = [] then locking_thread m else wthread w (hd (us @ vs)))"
proof -
  have ok: "block_ok env" "unblock_ok env" using env by (simp_all add: mutex_env_good_def)
  show ?thesis
  proof (cases "length rs = 1")
    case True
    then obtain a where rs: "rs = [a]" by (auto simp: length_Suc_conv)
    have a: "wthread w a = locking_thread m" using mutex_invD(7) [OF inv ne] rs by simp
    have head: "wait_queue_head m = Some a" "w a \<noteq> None"
      using mutex_invD(1) [OF inv] rs by (auto dest!: wnext_live)
    define m' where "m' = m\<lparr>wait_queue_head := None, wait_queue_tail := None, wait_queue_length := 0\<rparr>"
    have len: "wait_queue_length m = 1" using True mutex_invD(2) [OF inv] by simp
    then have "uthread_mutex_unlock env w m = Some (Inr (w(a := None), m'))"
      using ok head by (auto simp: uthread_mutex_unlock_def m'_def)
    moreover have "mutex_inv h (w(a := None)) m' ([] @ [])"
      by (rule mutex_inv_without [OF inv, of _ a]) (use rs len mutex_invD(8) [OF inv] in
        \<open>auto simp: m'_def wthread_def fun_eq_iff\<close>)
    ultimately show ?thesis using rs a
      by (intro exI [of _ "[]"] exI [of _ a] exI [of _ "w(a := None)"] exI [of _ m'])
        (auto simp: m'_def wthread_def fun_eq_iff)
  next
    case False
    from take_holder_runs [OF inv ne] obtain us a vs w1 m1 p where
      t: "rs = us @ a # vs" "wthread w a = locking_thread m"
        "take_holder w m = Some (Inr (Some a, w1, m1))"
        "path (wnext w1) (wait_queue_head m1) (us @ vs) None"
        "m1 = m\<lparr>wait_queue_head := p\<rparr>" "wthread w1 = wthread w" "dom w1 = dom w" by blast
    have rest: "us @ vs \<noteq> []" using False t(1) by auto
    have a: "a \<notin> set (us @ vs)" using mutex_invD(4) [OF inv] t(1) by auto
    have head: "wait_queue_head m1 = Some (hd (us @ vs))" using path_nonempty [OF t(4) rest] .
    then obtain r where r: "w1 (hd (us @ vs)) = Some r"
      using path_live [OF t(4) hd_in_set [OF rest]] by (auto simp: wnext_def)
    have "w1 a \<noteq> None" using t(1,7) mutex_invD(5) [OF inv, of a] by (auto dest!: wthread_live)
    define m' where "m' = m1\<lparr>locking_thread := wr_thread r, wait_queue_length := wait_queue_length m - 1\<rparr>"
    have "wait_queue_length m \<noteq> 1" using False mutex_invD(2) [OF inv] by simp
    then have run: "uthread_mutex_unlock env w m = Some (Inr (w1(a := None), m'))"
      using ok t(3,5) head r \<open>w1 a \<noteq> None\<close> by (simp add: uthread_mutex_unlock_def m'_def)
    have th: "wthread (w1(a := None)) = (wthread w)(a := None)"
      using free_record(2) [OF t(4) a] t(6) by simp
    have lock: "locking_thread m' = wthread w (hd (us @ vs))"
      using r t(6) [symmetric] by (simp add: m'_def wthread_def)
    have "mutex_inv h (w1(a := None)) m' (us @ vs)"
      by (rule mutex_inv_without [OF inv t(1)]) (use free_record(1) [OF t(4) a] th lock t(5,7) mutex_invD(8) [OF inv]
        in \<open>simp_all add: m'_def\<close>)
    with run th lock rest t(1,2) show ?thesis
      by (intro exI [of _ us] exI [of _ a] exI [of _ vs] exI [of _ "w1(a := None)"] exI [of _ m'])
        (simp only: if_False simp_thms fun_upd_same)
  qed
qed

end
