(* ===== verification/UMutexSys.thy ===== *)
theory UMutexSys imports UMutex begin

text \<open>
  Threads of Asmt_4 that share one mutex, as a step relation: the running thread may take the
  steps of \<open>uthread_mutex_lock\<close> and \<open>uthread_mutex_unlock\<close>, create threads unless it waits in
  the former, leave while it has nothing to do with the mutex, and be preempted by the timer at any point between these
  steps (both mutex routines run with signals blocked).
\<close>

datatype phase = Outside | Waiting | Holding

record msys =
  msched :: sched
  mwaits :: wait_heap
  mlock :: mutex
  phase_of :: "nat \<Rightarrow> phase"

definition msys0 :: "sched \<Rightarrow> msys" where
  "msys0 s = \<lparr>msched = s, mwaits = Map.empty, mlock = uthread_mutex_init, phase_of = (\<lambda>t. Outside)\<rparr>"

inductive mutex_step :: "ut_env \<Rightarrow> mutex_env \<Rightarrow> msys \<Rightarrow> msys \<Rightarrow> bool" for uenv env where
  enter: "current_thread (msched M) = Some c \<Longrightarrow> phase_of M c = Outside \<Longrightarrow>
    mutex_lock_enter env (msched M) (mwaits M) (mlock M) = Inr (w', m') \<Longrightarrow>
    mutex_step uenv env M (M\<lparr>mwaits := w', mlock := m', phase_of := (phase_of M)(c := Waiting)\<rparr>)"
| spin: "current_thread (msched M) = Some c \<Longrightarrow> phase_of M c = Waiting \<Longrightarrow>
    current_thread (msched M) \<noteq> locking_thread (mlock M) \<Longrightarrow>
    uthread_yield (msched M) = Inr s' \<Longrightarrow> mutex_step uenv env M (M\<lparr>msched := s'\<rparr>)"
| acquire: "current_thread (msched M) = Some c \<Longrightarrow> phase_of M c = Waiting \<Longrightarrow>
    current_thread (msched M) = locking_thread (mlock M) \<Longrightarrow>
    mutex_step uenv env M (M\<lparr>phase_of := (phase_of M)(c := Holding)\<rparr>)"
| unlock: "current_thread (msched M) = Some c \<Longrightarrow> phase_of M c = Holding \<Longrightarrow>
    uthread_mutex_unlock env (mwaits M) (mlock M) = Some (Inr (w', m')) \<Longrightarrow>
    mutex_step uenv env M (M\<lparr>mwaits := w', mlock := m', phase_of := (phase_of M)(c := Outside)\<rparr>)"
| tick: "uthread_yield_handler signum (msched M) = Inr s' \<Longrightarrow>
    mutex_step uenv env M (M\<lparr>msched := s'\<rparr>)"
| create: "current_thread (msched M) = Some c \<Longrightarrow> phase_of M c \<noteq> Waiting \<Longrightarrow>
    uthread_create uenv (msched M) func val pri = Inr (tid, s') \<Longrightarrow>
    mutex_step uenv env M (M\<lparr>msched := s'\<rparr>)"
| exit: "current_thread (msched M) = Some c \<Longrightarrow> phase_of M c = Outside \<Longrightarrow>
    uthread_exit (msched M) = Some (Inr s') \<Longrightarrow> mutex_step uenv env M (M\<lparr>msched := s'\<rparr>)"

inductive mutex_reachable :: "ut_env \<Rightarrow> mutex_env \<Rightarrow> msys \<Rightarrow> bool" for uenv env where
  init: "uthread_init uenv sched0 = Inr s \<Longrightarrow> mutex_reachable uenv env (msys0 s)"
| step: "mutex_reachable uenv env M \<Longrightarrow> mutex_step uenv env M M' \<Longrightarrow> mutex_reachable uenv env M'"

section \<open>The invariant\<close>

text \<open>
  The records of the queue belong exactly to the threads that wait or have the lock, all of them
  in the circle, and only \<open>locking_thread\<close> has it.
\<close>

definition msys_inv :: "msys \<Rightarrow> nat list \<Rightarrow> nat list \<Rightarrow> bool" where
  "msys_inv M xs rs \<longleftrightarrow> reach_inv (msched M) xs \<and>
     mutex_inv (threads (msched M)) (mwaits M) (mlock M) rs \<and>
     (\<forall>t. phase_of M t \<noteq> Outside \<longleftrightarrow> Some t \<in> wthread (mwaits M) ` set rs) \<and>
     (\<forall>t. phase_of M t \<noteq> Outside \<longrightarrow> t \<in> set xs) \<and>
     (\<forall>t. phase_of M t = Holding \<longrightarrow> locking_thread (mlock M) = Some t)"

text \<open>A step of the scheduler keeps the queue when it keeps the threads in it and their priorities.\<close>

lemma mutex_inv_threads:
  assumes "mutex_inv h w m rs"
    and "\<And>a t. a \<in> set rs \<Longrightarrow> wthread w a = Some t \<Longrightarrow> h' t \<noteq> None \<and> pri_of h' t = pri_of h t"
  shows "mutex_inv h' w m rs"
proof -
  have "wait_pri h' w a = wait_pri h w a" if "a \<in> set rs" for a
    using mutex_invD(5) [OF assms(1) that] assms(2) [OF that] by (auto simp: wait_pri_thread)
  then have "map (wait_pri h' w) rs = map (wait_pri h w) rs" by simp
  then have "sorted (map (wait_pri h' w) rs)" using mutex_invD(3) [OF assms(1)] by (simp only:)
  moreover have "\<forall>a \<in> set rs. \<exists>t. wthread w a = Some t \<and> h' t \<noteq> None"
    using mutex_invD(5) [OF assms(1)] assms(2) by blast
  ultimately show ?thesis using assms(1) unfolding mutex_inv_def by blast
qed

lemma sched_keeps_msys:
  assumes "msys_inv M xs rs" and "reach_inv s' ys"
    and "\<And>t. t \<in> set xs \<Longrightarrow> phase_of M t \<noteq> Outside \<Longrightarrow>
      t \<in> set ys \<and> pri_of (threads s') t = pri_of (threads (msched M)) t"
  shows "msys_inv (M\<lparr>msched := s'\<rparr>) ys rs"
proof -
  have "mutex_inv (threads s') (mwaits M) (mlock M) rs"
  proof (rule mutex_inv_threads)
    show "mutex_inv (threads (msched M)) (mwaits M) (mlock M) rs"
      using assms(1) by (simp add: msys_inv_def)
    fix a t assume "a \<in> set rs" "wthread (mwaits M) a = Some t"
    then have "phase_of M t \<noteq> Outside" using assms(1) unfolding msys_inv_def by force
    then have "t \<in> set ys \<and> pri_of (threads s') t = pri_of (threads (msched M)) t"
      using assms(1,3) by (auto simp: msys_inv_def)
    then show "threads s' t \<noteq> None \<and> pri_of (threads s') t = pri_of (threads (msched M)) t"
      using assms(2) circle_okD(4) [of s' ys t] by (auto simp: reach_inv_def)
  qed
  with assms show ?thesis by (auto simp: msys_inv_def)
qed

lemma msys_live:
  assumes "msys_inv M xs rs" and "current_thread (msched M) = Some c"
  shows "threads (msched M) c \<noteq> None" and "c \<in> set xs"
proof -
  have C: "circle_ok (msched M) xs" using assms(1) by (simp add: msys_inv_def reach_inv_def)
  then show "c \<in> set xs" using assms(2) by (auto simp: circle_ok_def)
  with circle_okD(4) [OF C] show "threads (msched M) c \<noteq> None" by blast
qed

lemma enter_runs:
  assumes inv: "msys_inv M xs rs" and cur: "current_thread (msched M) = Some c"
    and out: "phase_of M c = Outside" and env: "mutex_env_good env"
    and n: "int32_ok (wait_queue_length (mlock M) + 1)"
  shows "\<exists>w' m' ys. mutex_lock_enter env (msched M) (mwaits M) (mlock M) = Inr (w', m') \<and>
    msys_inv (M\<lparr>mwaits := w', mlock := m', phase_of := (phase_of M)(c := Waiting)\<rparr>) xs ys"
proof -
  have Q: "mutex_inv (threads (msched M)) (mwaits M) (mlock M) rs"
    and P: "\<And>t. phase_of M t \<noteq> Outside \<longleftrightarrow> Some t \<in> wthread (mwaits M) ` set rs"
    using inv by (simp_all add: msys_inv_def)
  have "Some c \<notin> wthread (mwaits M) ` set rs" using P out by blast
  from lock_enter_spec [OF Q env cur msys_live(1) [OF inv cur] this n] obtain a w' m' ys where
    e: "mutex_lock_enter env (msched M) (mwaits M) (mlock M) = Inr (w', m')" "mwaits M a = None"
      "mset ys = mset (a # rs)" "mutex_inv (threads (msched M)) w' m' ys"
      "wthread w' = (wthread (mwaits M))(a := Some c)"
      "locking_thread m' = (if rs = [] then Some c else locking_thread (mlock M))" by blast
  have a: "a \<notin> set rs" using mutex_invD(5) [OF Q, of a] e(2) by (auto simp: wthread_def)
  have "wthread w' ` set ys = insert (Some c) (wthread (mwaits M) ` set rs)"
    using mset_eq_setD [OF e(3)] a by (auto simp: e(5) image_iff)
  moreover have "locking_thread m' = Some t" if "phase_of M t = Holding" for t
  proof -
    have "rs \<noteq> []" using P [of t] that by auto
    then show ?thesis using e(6) inv that by (simp add: msys_inv_def)
  qed
  ultimately have "msys_inv (M\<lparr>mwaits := w', mlock := m', phase_of := (phase_of M)(c := Waiting)\<rparr>) xs ys"
    using inv e(4) msys_live(2) [OF inv cur] P by (auto simp: msys_inv_def)
  with e(1) show ?thesis by blast
qed

lemma unlock_runs:
  assumes inv: "msys_inv M xs rs" and hold: "phase_of M c = Holding" and env: "mutex_env_good env"
  shows "\<exists>w' m' ys. uthread_mutex_unlock env (mwaits M) (mlock M) = Some (Inr (w', m')) \<and>
    msys_inv (M\<lparr>mwaits := w', mlock := m', phase_of := (phase_of M)(c := Outside)\<rparr>) xs ys"
proof -
  let ?w = "mwaits M"
  have Q: "mutex_inv (threads (msched M)) ?w (mlock M) rs"
    and P: "\<And>t. phase_of M t \<noteq> Outside \<longleftrightarrow> Some t \<in> wthread ?w ` set rs"
    and L: "\<And>t. phase_of M t = Holding \<Longrightarrow> locking_thread (mlock M) = Some t"
    using inv by (simp_all add: msys_inv_def)
  have "rs \<noteq> []" using P [of c] hold by auto
  from unlock_spec [OF Q this env] obtain us a vs w' m' where
    u: "rs = us @ a # vs" "wthread ?w a = locking_thread (mlock M)"
      "uthread_mutex_unlock env ?w (mlock M) = Some (Inr (w', m'))"
      "mutex_inv (threads (msched M)) w' m' (us @ vs)" "wthread w' = (wthread ?w)(a := None)" by blast
  have a: "a \<notin> set (us @ vs)" "wthread ?w a = Some c"
    using mutex_invD(4) [OF Q] u(1,2) L [OF hold] by auto
  have "Some c \<notin> wthread ?w ` set (us @ vs)"
    using mutex_invD(6) [OF Q, of a] a u(1) by auto
  then have "wthread w' ` set (us @ vs) = wthread ?w ` set rs - {Some c}"
    using a u(1) by (auto simp: u(5) image_iff)
  moreover have "phase_of M t \<noteq> Holding" if "t \<noteq> c" for t
    using L [OF hold] L [of t] that by auto
  ultimately have "msys_inv (M\<lparr>mwaits := w', mlock := m', phase_of := (phase_of M)(c := Outside)\<rparr>) xs (us @ vs)"
    using inv u(4) P by (auto simp: msys_inv_def)
  with u(3) show ?thesis by blast
qed

lemma acquire_inv:
  assumes "msys_inv M xs rs" and "current_thread (msched M) = Some c" and "phase_of M c = Waiting"
    and "current_thread (msched M) = locking_thread (mlock M)"
  shows "msys_inv (M\<lparr>phase_of := (phase_of M)(c := Holding)\<rparr>) xs rs"
  using assms by (auto simp: msys_inv_def)

lemma yield_inv:
  assumes inv: "msys_inv M xs rs" and y: "uthread_yield (msched M) = Inr s'"
  shows "msys_inv (M\<lparr>msched := s'\<rparr>) xs rs"
proof (rule sched_keeps_msys [OF inv])
  have R: "reach_inv (msched M) xs" using inv by (simp add: msys_inv_def)
  from reach_yield [OF R] y show "reach_inv s' xs" by simp
  from reach_yield [OF R] y show "t \<in> set xs \<and> pri_of (threads s') t = pri_of (threads (msched M)) t"
    if "t \<in> set xs" for t using that by simp
qed

lemma msys_inv_step:
  assumes inv: "msys_inv M xs rs" and uenv: "env_fresh uenv" and env: "mutex_env_good env"
    and "mutex_step uenv env M M'"
  shows "\<exists>ys qs. msys_inv M' ys qs"
  using assms(4)
proof (cases rule: mutex_step.cases)
  case (enter c w' m')
  have "int32_ok (wait_queue_length (mlock M) + 1)"
  proof (rule ccontr)
    assume "\<not> ?thesis"
    then have "mutex_lock_enter env (msched M) (mwaits M) (mlock M) \<noteq> Inr (w', m')"
      by (auto simp: mutex_lock_enter_def c_int_def Let_def split: option.splits)
    with enter show False by simp
  qed
  from enter_runs [OF inv enter(2,3) env this] enter show ?thesis by auto
next
  case (spin c s')
  with yield_inv [OF inv] show ?thesis by blast
next
  case (acquire c)
  with acquire_inv [OF inv] show ?thesis by blast
next
  case (unlock c w' m')
  with unlock_runs [OF inv _ env, of c] show ?thesis by fastforce
next
  case (tick signum s')
  with yield_inv [OF inv] show ?thesis by (auto simp: uthread_yield_handler_def)
next
  case (create c func val pri tid s')
  from inv have R: "reach_inv (msched M) xs" by (simp add: msys_inv_def)
  with create_cases [OF R uenv, of func val pri] create obtain ys where
    "reach_inv s' ys" "set xs \<subseteq> set ys"
    "\<forall>t \<in> set xs. pri_of (threads s') t = pri_of (threads (msched M)) t" by auto
  then have "msys_inv (M\<lparr>msched := s'\<rparr>) ys rs" by (intro sched_keeps_msys [OF inv]) auto
  with create show ?thesis by blast
next
  case (exit c s')
  from inv have R: "reach_inv (msched M) xs" by (simp add: msys_inv_def)
  with reach_exit [OF R] exit obtain ys where
    "reach_inv s' ys" "\<forall>t \<in> set xs. current_thread (msched M) \<noteq> Some t \<longrightarrow>
       t \<in> set ys \<and> pri_of (threads s') t = pri_of (threads (msched M)) t" by auto
  then have "msys_inv (M\<lparr>msched := s'\<rparr>) ys rs"
    using exit by (intro sched_keeps_msys [OF inv]) auto
  with exit show ?thesis by blast
qed

lemma mutex_reachable_inv:
  assumes "mutex_reachable uenv env M" and "env_fresh uenv" and "mutex_env_good env"
  shows "\<exists>xs rs. msys_inv M xs rs"
  using assms(1)
proof (induction rule: mutex_reachable.induct)
  case (init s)
  from init_inv [OF assms(2)] init obtain a where "reach_inv s [a]" by (auto simp: reach_inv_def)
  then have "msys_inv (msys0 s) [a] []"
    by (simp add: msys_inv_def msys0_def mutex_inv_def uthread_mutex_init_def)
  then show ?case by blast
next
  case (step M M')
  with msys_inv_step [OF _ assms(2,3)] show ?case by blast
qed

end
