(* ===== verification/UMutexProps.thy ===== *)
theory UMutexProps imports UMutexSys UThreadProps begin

text \<open>
  The properties of the mutexes of Asmt_4, each with a witness on the circle of theory
  UThreadProps.
\<close>

section \<open>Example objects\<close>

definition ex_mutex_env :: mutex_env where
  "ex_mutex_env = \<lparr>malloc_wait = fresh_address, malloc_wait_buf = (\<lambda>n. True), block_ok = True,
     unblock_ok = True, sort_waits = insertion_sort\<rparr>"

lemma ex_mutex_env_good: "mutex_env_good ex_mutex_env"
  by (simp add: mutex_env_good_def ex_mutex_env_def fresh_address_free insertion_sort_ok)

text \<open>The main thread (priority 9, address 4) has the lock, the thread at 2 (priority 0) waits.\<close>

definition ex_waits :: wait_heap where
  "ex_waits = [5 \<mapsto> \<lparr>wr_thread = Some 2, wr_next = Some 6\<rparr>, 6 \<mapsto> \<lparr>wr_thread = Some 4, wr_next = None\<rparr>]"

definition ex_mutex :: mutex where
  "ex_mutex = \<lparr>locking_thread = Some 4, wait_queue_length = 2, wait_queue_head = Some 5,
     wait_queue_tail = Some 6\<rparr>"

lemma ex_mutex_inv: "mutex_inv (threads ex_sched) ex_waits ex_mutex [5, 6]"
  by (auto simp: mutex_inv_def ex_waits_def ex_mutex_def wnext_def wthread_def wait_pri_def
      ex_sched_fields inj_on_def) (simp_all add: ex_sched_def)

section \<open>The two operations\<close>

text \<open>
  Entering \<open>uthread_mutex_lock\<close> adds exactly one record, for the calling thread, to the
  queue, which stays sorted by priority; the caller gets the lock at once when the queue was empty
  and the lock stays where it was otherwise, whatever the caller's priority.
\<close>

theorem lock_enters_queue:
  assumes "mutex_inv (threads s) w m rs" and "mutex_env_good env" and "current_thread s = Some c"
    and "threads s c \<noteq> None" and "Some c \<notin> wthread w ` set rs" and "int32_ok (wait_queue_length m + 1)"
  shows "\<exists>a w' m' ys. mutex_lock_enter env s w m = Inr (w', m') \<and> w a = None \<and>
    mset ys = mset (a # rs) \<and> mutex_inv (threads s) w' m' ys \<and>
    wthread w' = (wthread w)(a := Some c) \<and>
    locking_thread m' = (if rs = [] then Some c else locking_thread m)"
  by (rule lock_enter_spec [OF assms(1-2) assms(3-6)])

theorem lock_enters_queue_witness:
  "\<exists>a w' m' ys. mutex_lock_enter ex_mutex_env (ex_sched\<lparr>current_thread := Some 3\<rparr>) ex_waits ex_mutex =
      Inr (w', m') \<and> mset ys = mset [a, 5, 6] \<and> mutex_inv (threads ex_sched) w' m' ys \<and>
    locking_thread m' = Some 4"
proof -
  have "Some 3 \<notin> wthread ex_waits ` set [5, 6]" by (simp add: wthread_def ex_waits_def)
  moreover have "threads ex_sched 3 \<noteq> None" by (simp add: ex_sched_def)
  moreover have "int32_ok (wait_queue_length ex_mutex + 1)" "locking_thread ex_mutex = Some 4"
    by (simp_all add: ex_mutex_def int32_ok_def)
  ultimately show ?thesis
    using lock_enters_queue [of "ex_sched\<lparr>current_thread := Some 3\<rparr>" ex_waits ex_mutex "[5, 6]" ex_mutex_env 3]
      ex_mutex_inv ex_mutex_env_good by simp blast
qed

text \<open>
  C14. \<open>uthread_mutex_unlock\<close> ends, removes and frees exactly the record of the thread that has the
  lock, wherever it stands in the queue, and hands the lock to a waiting thread than which
  none has a higher priority.
\<close>

theorem unlock_hands_over:
  assumes "mutex_inv h w m rs" and "rs \<noteq> []" and "mutex_env_good env"
  shows "\<exists>us a vs w' m'. rs = us @ a # vs \<and> wthread w a = locking_thread m \<and>
    uthread_mutex_unlock env w m = Some (Inr (w', m')) \<and> w' a = None \<and> mutex_inv h w' m' (us @ vs) \<and>
    (if us @ vs = [] then locking_thread m' = locking_thread m
     else \<exists>b \<in> set (us @ vs). locking_thread m' = wthread w b \<and>
       list_all (\<lambda>d. wait_pri h w b \<le> wait_pri h w d) (us @ vs))"
proof -
  from unlock_spec [OF assms] obtain us a vs w' m' where
    u: "rs = us @ a # vs" "wthread w a = locking_thread m"
      "uthread_mutex_unlock env w m = Some (Inr (w', m'))" "mutex_inv h w' m' (us @ vs)" "w' a = None"
      "locking_thread m' = (if us @ vs = [] then locking_thread m else wthread w (hd (us @ vs)))" by blast
  have "list_all (\<lambda>d. wait_pri h w (hd (us @ vs)) \<le> wait_pri h w d) (us @ vs)"
  proof -
    have "sorted (map (wait_pri h w) (us @ vs))"
      using mutex_invD(3) [OF assms(1)] u(1) by (auto simp: sorted_append)
    then show ?thesis by (cases "us @ vs") (auto simp: list_all_iff)
  qed
  moreover have "us @ vs \<noteq> [] \<Longrightarrow> hd (us @ vs) \<in> set (us @ vs)" by (rule hd_in_set)
  ultimately show ?thesis using u
    by (intro exI [of _ us] exI [of _ a] exI [of _ vs] exI [of _ w'] exI [of _ m']) auto
qed

theorem unlock_hands_over_witness:
  "\<exists>w' m'. uthread_mutex_unlock ex_mutex_env ex_waits ex_mutex = Some (Inr (w', m')) \<and>
    w' 6 = None \<and> locking_thread m' = Some 2"
proof -
  have th: "wthread ex_waits 5 = Some 2" "wthread ex_waits 6 = Some 4" "locking_thread ex_mutex = Some 4"
    by (simp_all add: wthread_def ex_waits_def ex_mutex_def)
  have "[5, 6] \<noteq> ([] :: nat list)" by simp
  from unlock_hands_over [OF ex_mutex_inv this ex_mutex_env_good] obtain us a vs w' m' where
    u: "[5, 6] = us @ a # vs" "wthread ex_waits a = Some 4"
      "uthread_mutex_unlock ex_mutex_env ex_waits ex_mutex = Some (Inr (w', m'))" "w' a = None"
      "us @ vs \<noteq> [] \<longrightarrow> (\<exists>b \<in> set (us @ vs). locking_thread m' = wthread ex_waits b)"
    unfolding th(3) by (metis (lifting))
  from u(1) consider "us = []" "a = 5" | "us = [5]" "a = 6" "vs = []"
    by (auto simp: Cons_eq_append_conv)
  then show ?thesis
  proof cases
    case 1
    with u(2) th show ?thesis by simp
  next
    case 2
    with u th show ?thesis by auto
  qed
qed

text \<open>
  C15. \<open>uthread_mutex_destroy\<close> ends, frees every record of the queue and no other, and leaves the
  queue without a head.
\<close>

theorem destroy_frees_queue:
  assumes "path (wnext w) (wait_queue_head m) rs None"
  shows "uthread_mutex_destroy w m = Some (Inr (\<lambda>a. if a \<in> set rs then None else w a,
    m\<lparr>wait_queue_head := None\<rparr>))"
  using assms
proof (induction rs arbitrary: w m)
  case Nil
  moreover from this have "m\<lparr>wait_queue_head := None\<rparr> = m" by simp
  ultimately show ?case by (subst uthread_mutex_destroy.simps) simp
next
  case (Cons a rs)
  then obtain r where r: "wait_queue_head m = Some a" "w a = Some r" "path (wnext w) (wr_next r) rs None"
    by (auto dest!: wnext_live)
  have "a \<notin> set rs" using path_None_distinct [OF Cons.prems] by simp
  from Cons.IH [of "w(a := None)" "m\<lparr>wait_queue_head := wr_next r\<rparr>"] free_record(1) [OF r(3) this]
  have "uthread_mutex_destroy (w(a := None)) (m\<lparr>wait_queue_head := wr_next r\<rparr>) =
      Some (Inr (\<lambda>b. if b \<in> set rs then None else (w(a := None)) b, m\<lparr>wait_queue_head := None\<rparr>))"
    by (simp del: fun_upd_apply)
  moreover have "(\<lambda>b. if b \<in> set rs then None else (w(a := None)) b) =
      (\<lambda>b. if b \<in> set (a # rs) then None else w b)" by auto
  ultimately show ?case using r(1,2) by (subst uthread_mutex_destroy.simps) simp
qed

theorem destroy_frees_queue_witness:
  "uthread_mutex_destroy ex_waits ex_mutex = Some (Inr (Map.empty, ex_mutex\<lparr>wait_queue_head := None\<rparr>))"
proof -
  have "(\<lambda>a. if a \<in> set [5, 6] then None else ex_waits a) = Map.empty"
    by (auto simp: ex_waits_def)
  with destroy_frees_queue [OF mutex_invD(1) [OF ex_mutex_inv]] show ?thesis by simp
qed

section \<open>Threads that share a mutex\<close>

text \<open>A reachable state in which a thread has the lock: the main thread locks right after the start.\<close>

lemma ex_holding:
  "\<exists>M t. mutex_reachable ex_ut_env ex_mutex_env M \<and> phase_of M t = Holding"
proof -
  from init_inv [OF ex_ut_env_fresh] obtain a s where
    s: "uthread_init ex_ut_env sched0 = Inr s" "circle_ok s [a]" "live_uthreads s = 1" "head_thread s = None"
    by blast
  then have cur: "current_thread s = Some a" "threads s a \<noteq> None"
    using circle_okD(4) [OF s(2), of a] by (auto simp: circle_ok_def)
  have "mutex_inv (threads s) Map.empty uthread_mutex_init []"
    by (simp add: mutex_inv_def uthread_mutex_init_def)
  from lock_enter_spec [OF this ex_mutex_env_good cur] obtain w' m' where
    e: "mutex_lock_enter ex_mutex_env s Map.empty uthread_mutex_init = Inr (w', m')"
      "locking_thread m' = Some a"
    by (auto simp: uthread_mutex_init_def int32_ok_def)
  let ?M = "msys0 s" and ?M1 = "msys0 s\<lparr>mwaits := w', mlock := m', phase_of := (phase_of (msys0 s))(a := Waiting)\<rparr>"
  have "mutex_reachable ex_ut_env ex_mutex_env ?M" by (rule mutex_reachable.init [OF s(1)])
  moreover have "mutex_step ex_ut_env ex_mutex_env ?M ?M1"
    using cur(1) e(1) by (intro mutex_step.enter) (simp_all add: msys0_def)
  ultimately have "mutex_reachable ex_ut_env ex_mutex_env ?M1" by (rule mutex_reachable.step)
  moreover have "mutex_step ex_ut_env ex_mutex_env ?M1 (?M1\<lparr>phase_of := (phase_of ?M1)(a := Holding)\<rparr>)"
    using cur(1) e(2) by (intro mutex_step.acquire) (simp_all add: msys0_def)
  ultimately have "mutex_reachable ex_ut_env ex_mutex_env (?M1\<lparr>phase_of := (phase_of ?M1)(a := Holding)\<rparr>)"
    by (rule mutex_reachable.step)
  moreover have "phase_of (?M1\<lparr>phase_of := (phase_of ?M1)(a := Holding)\<rparr>) a = Holding" by simp
  ultimately show ?thesis by blast
qed

text \<open>
  C16. Mutual exclusion: in every state that threads sharing a mutex reach, by any sequence of lock
  and unlock calls, yields, timer signals, creations and exits, at most one thread has passed
  \<open>uthread_mutex_lock\<close> without having unlocked, and it is the one that the mutex names.
\<close>

theorem mutual_exclusion:
  assumes "mutex_reachable uenv env M" and "env_fresh uenv" and "mutex_env_good env"
    and "phase_of M t = Holding"
  shows "locking_thread (mlock M) = Some t \<and> (\<exists>!t'. phase_of M t' = Holding) \<and>
    threads (msched M) t \<noteq> None"
proof -
  from mutex_reachable_inv [OF assms(1-3)] obtain xs rs where inv: "msys_inv M xs rs" by blast
  then have L: "locking_thread (mlock M) = Some t'" if "phase_of M t' = Holding" for t'
    using that by (simp add: msys_inv_def)
  have "t \<in> set xs" "circle_ok (msched M) xs"
    using inv assms(4) by (auto simp: msys_inv_def reach_inv_def)
  then have "threads (msched M) t \<noteq> None" using circle_okD(4) by blast
  with L assms(4) show ?thesis by (metis option.inject)
qed

theorem mutual_exclusion_witness:
  "\<exists>M t. mutex_reachable ex_ut_env ex_mutex_env M \<and> locking_thread (mlock M) = Some t \<and>
    (\<exists>!t'. phase_of M t' = Holding)"
proof -
  from ex_holding obtain M t where M: "mutex_reachable ex_ut_env ex_mutex_env M" "phase_of M t = Holding"
    by blast
  from mutual_exclusion [OF M(1) ex_ut_env_fresh ex_mutex_env_good M(2)] M(1) show ?thesis by blast
qed

text \<open>
  C17. The lock is never lost: whenever some thread waits for the mutex or has it, the thread that the
  mutex names is one of those, alive and in the circle; and if it has the lock and runs, its
  \<open>uthread_mutex_unlock\<close> ends without an error, if it waits and runs, it takes the lock.
\<close>

theorem lock_never_lost:
  assumes "mutex_reachable uenv env M" and "env_fresh uenv" and "mutex_env_good env"
    and "phase_of M t \<noteq> Outside"
  shows "\<exists>h. locking_thread (mlock M) = Some h \<and> phase_of M h \<noteq> Outside \<and>
    threads (msched M) h \<noteq> None \<and>
    (\<exists>r. uthread_mutex_unlock env (mwaits M) (mlock M) = Some (Inr r)) \<and>
    (if current_thread (msched M) = Some h then \<exists>M'. mutex_step uenv env M M' \<and> phase_of M' h \<noteq> phase_of M h
     else True)"
proof -
  from mutex_reachable_inv [OF assms(1-3)] obtain xs rs where inv: "msys_inv M xs rs" by blast
  then have Q: "mutex_inv (threads (msched M)) (mwaits M) (mlock M) rs"
    and P: "\<And>t. phase_of M t \<noteq> Outside \<longleftrightarrow> Some t \<in> wthread (mwaits M) ` set rs"
    by (simp_all add: msys_inv_def)
  have ne: "rs \<noteq> []" using P [of t] assms(4) by auto
  from mutex_invD(7) [OF Q this] obtain a where
    a: "a \<in> set rs" "locking_thread (mlock M) = wthread (mwaits M) a" by auto
  from mutex_invD(5) [OF Q a(1)] obtain h where h: "wthread (mwaits M) a = Some h" "threads (msched M) h \<noteq> None"
    by blast
  have ph: "phase_of M h \<noteq> Outside" unfolding P using a(1) h(1) by force
  from unlock_spec [OF Q ne assms(3)] obtain w' m' where
    u: "uthread_mutex_unlock env (mwaits M) (mlock M) = Some (Inr (w', m'))" by blast
  have "\<exists>M'. mutex_step uenv env M M' \<and> phase_of M' h \<noteq> phase_of M h"
    if cur: "current_thread (msched M) = Some h"
  proof (cases "phase_of M h")
    case Waiting
    then have "mutex_step uenv env M (M\<lparr>phase_of := (phase_of M)(h := Holding)\<rparr>)"
      using cur a(2) h(1) by (intro mutex_step.acquire) auto
    with Waiting show ?thesis by force
  next
    case Holding
    then have "mutex_step uenv env M (M\<lparr>mwaits := w', mlock := m', phase_of := (phase_of M)(h := Outside)\<rparr>)"
      using cur u by (intro mutex_step.unlock) auto
    with Holding show ?thesis by force
  qed (use ph in simp)
  with a(2) h ph u show ?thesis by (intro exI [of _ h]) auto
qed

theorem lock_never_lost_witness:
  "\<exists>M h. mutex_reachable ex_ut_env ex_mutex_env M \<and> locking_thread (mlock M) = Some h \<and>
    phase_of M h \<noteq> Outside"
proof -
  from ex_holding obtain M t where M: "mutex_reachable ex_ut_env ex_mutex_env M" "phase_of M t = Holding"
    by blast
  then have "phase_of M t \<noteq> Outside" by simp
  from lock_never_lost [OF M(1) ex_ut_env_fresh ex_mutex_env_good this] M(1) show ?thesis by blast
qed

text \<open>
  C18. Priority inversion is a livelock: when the only thread of the highest priority waits for a
  lock that a thread of a lower one has, it spins for ever: its wait never ends, whatever the
  other threads would do, and no step of the system leads to another state.
\<close>

theorem priority_inversion_livelock:
  assumes "msys_inv M xs rs" and "head_thread (msched M) = Some c"
    and "current_thread (msched M) = Some c" and "phase_of M c = Waiting"
    and "top_size (pri_of (threads (msched M))) xs = 1" and "locking_thread (mlock M) \<noteq> Some c"
  shows "(\<forall>M'. mutex_step uenv env M M' \<longleftrightarrow> M' = M) \<and>
    mutex_lock_wait others (mlock M) (msched M) = None"
proof -
  have "sched_inv (msched M) xs"
    using assms(1,2) by (auto simp: msys_inv_def reach_inv_def sched_inv_def)
  then have y: "uthread_yield (msched M) = Inr (msched M)"
    using yield_alone assms(2,3,5) by simp
  have "mutex_step uenv env M (M\<lparr>msched := msched M\<rparr>)"
    using assms(3,4,6) y by (intro mutex_step.spin) auto
  then have "mutex_step uenv env M M" by simp
  moreover have "M' = M" if "mutex_step uenv env M M'" for M'
    using that assms(3,4,6) y
    by (cases rule: mutex_step.cases) (auto simp: uthread_yield_handler_def)
  moreover have "mutex_lock_wait others (mlock M) (msched M) = None"
    using mutex_lock_wait_diverges [OF y] assms(3,6) by simp
  ultimately show ?thesis by blast
qed

text \<open>The main thread (priority 9) has the lock; the thread at 2 (priority 0) waits for it and runs.\<close>

definition ex_msys :: msys where
  "ex_msys = \<lparr>msched = \<lparr>threads = [4 \<mapsto> \<lparr>ut_context = Captured, ut_stack = None, ut_pri = 9, ut_next = Some 2\<rparr>,
       2 \<mapsto> \<lparr>ut_context = Start 5 0, ut_stack = Some 7, ut_pri = 0, ut_next = Some 4\<rparr>],
       stacks = [7 \<mapsto> ()], current_thread = Some 2, tail_thread = Some 4, head_thread = Some 2,
       retired_thread = None, uthread_id = 1, live_uthreads = 2, yield_timer = Some 10,
       yield_handler = True\<rparr>,
     mwaits = ex_waits, mlock = ex_mutex,
     phase_of = (\<lambda>t. if t = 2 then Waiting else if t = 4 then Holding else Outside)\<rparr>"

lemma ex_msys_sched: "circle_ok (msched ex_msys) [2, 4]"
  by (auto simp: circle_ok_def ex_msys_def ring_def next_of_def pri_of_def stack_of_def inj_on_def
      split: if_splits)

lemma ex_msys_inv: "msys_inv ex_msys [2, 4] [5, 6]"
proof -
  have "reach_inv (msched ex_msys) [2, 4]"
    using ex_msys_sched by (simp add: reach_inv_def) (simp add: ex_msys_def)
  moreover have "mutex_inv (threads (msched ex_msys)) ex_waits ex_mutex [5, 6]"
    by (rule mutex_inv_threads [OF ex_mutex_inv])
      (auto simp: ex_waits_def wthread_def ex_msys_def ex_sched_def pri_of_def)
  moreover have "wthread ex_waits 5 = Some 2" "wthread ex_waits 6 = Some 4"
    by (simp_all add: ex_waits_def wthread_def)
  ultimately show ?thesis by (simp add: msys_inv_def) (simp add: ex_msys_def ex_mutex_def)
qed

theorem priority_inversion_livelock_witness:
  "(\<forall>M'. mutex_step ex_ut_env ex_mutex_env ex_msys M' \<longleftrightarrow> M' = ex_msys) \<and>
    mutex_lock_wait (\<lambda>m s. Some (m, s)) (mlock ex_msys) (msched ex_msys) = None"
  by (rule priority_inversion_livelock [OF ex_msys_inv, of 2])
    (simp_all add: ex_msys_def top_size_def pri_of_def ex_mutex_def)

end
