(* ===== verification/MutexTest.thy ===== *)
theory MutexTest imports UMutexProps begin

text \<open>
  The program that tests the mutexes of Asmt_4 (mutex_test.c), on the model of the threads and of the mutex: each
  thread is at a point of its function, and the running thread takes one step at a time, between which the timer
  may preempt it. A thread writes its number into \<open>test\<close> under the mutex, yields, and prints whether it is
  still there.
\<close>

section \<open>The program\<close>

datatype test_fun = Foo | Bar

datatype test_line = Passed test_fun int | Failed test_fun int | Done_Line

text \<open>
  The points of the functions. \<open>In_Lock\<close>: in the loop that ends \<open>uthread_mutex_lock\<close>; \<open>At_Test\<close>, \<open>At_Local\<close>,
  \<open>At_Yield\<close>, \<open>At_Compare\<close> and \<open>At_Unlock\<close> are the statements under the mutex, with the value of \<open>local\<close>
  once it has one.
\<close>

datatype test_pc =
    Main_Create int
  | Main_Yield nat
  | Main_Exit
  | Foo_Create int int
  | At_Lock test_fun int
  | In_Lock test_fun int
  | At_Test test_fun int
  | At_Local test_fun int
  | At_Yield test_fun int int
  | At_Compare test_fun int int
  | At_Unlock test_fun int
  | At_Exit

definition NUM_THREADS :: int where "NUM_THREADS = 3"

record mtest =
  tsys :: msys
  test_var :: int
  locals :: "nat \<rightharpoonup> test_pc"
  test_output :: "test_line list"

definition mtest0 :: "sched \<Rightarrow> nat \<Rightarrow> mtest" where
  "mtest0 s c = \<lparr>tsys = msys0 s, test_var = 255, locals = [c \<mapsto> Main_Create 1], test_output = []\<rparr>"

definition with_sched :: "mtest \<Rightarrow> sched \<Rightarrow> mtest" where
  "with_sched T s = T\<lparr>tsys := (tsys T)\<lparr>msched := s\<rparr>\<rparr>"

definition set_pc :: "mtest \<Rightarrow> nat \<Rightarrow> test_pc \<Rightarrow> mtest" where
  "set_pc T c p = T\<lparr>locals := (locals T)(c \<mapsto> p)\<rparr>"

text \<open>Where a new thread starts; the numbers stand for the addresses of \<open>foo\<close> and \<open>bar\<close>.\<close>

primrec first_pc :: "test_fun \<Rightarrow> int \<Rightarrow> test_pc" where
  "first_pc Foo th = Foo_Create th 1"
| "first_pc Bar th = At_Lock Bar th"

primrec fun_ptr :: "test_fun \<Rightarrow> nat" where
  "fun_ptr Foo = 1"
| "fun_ptr Bar = 2"

text \<open>The calls of the library, after which the running thread is at \<open>p\<close>.\<close>

definition call_create :: "ut_env \<Rightarrow> mtest \<Rightarrow> nat \<Rightarrow> test_fun \<Rightarrow> int \<Rightarrow> test_pc \<Rightarrow> mtest res" where
  "call_create uenv T c f th p =
     (case malloc_thread uenv (threads (msched (tsys T))) of
        None \<Rightarrow> Inl Null_Deref
      | Some a \<Rightarrow>
          bindr (uthread_create uenv (msched (tsys T)) (fun_ptr f) th 1) (\<lambda>r.
          Inr (set_pc (set_pc (with_sched T (snd r)) a (first_pc f th)) c p)))"

definition call_yield :: "mtest \<Rightarrow> nat \<Rightarrow> test_pc \<Rightarrow> mtest res" where
  "call_yield T c p =
     bindr (uthread_yield (msched (tsys T))) (\<lambda>s. Inr (set_pc (with_sched T s) c p))"

definition call_exit :: "mtest \<Rightarrow> nat \<Rightarrow> mtest res option" where
  "call_exit T c = map_option (\<lambda>r. bindr r (\<lambda>s. Inr ((with_sched T s)\<lparr>locals := (locals T)(c := None)\<rparr>)))
     (uthread_exit (msched (tsys T)))"

definition set_mutex :: "mtest \<Rightarrow> nat \<Rightarrow> phase \<Rightarrow> wait_heap \<times> mutex \<Rightarrow> mtest" where
  "set_mutex T c ph r = T\<lparr>tsys := (tsys T)\<lparr>mwaits := fst r, mlock := snd r, phase_of := (phase_of (tsys T))(c := ph)\<rparr>\<rparr>"

text \<open>One step of the thread \<open>c\<close>, which runs and is at \<open>p\<close>; \<open>None\<close> when a search in the library never ends.\<close>

primrec test_step :: "ut_env \<Rightarrow> mutex_env \<Rightarrow> mtest \<Rightarrow> nat \<Rightarrow> test_pc \<Rightarrow> mtest res option" where
  "test_step uenv env T c (Main_Create th) =
     Some (call_create uenv T c Foo th (if th < 3 then Main_Create (th + 1) else Main_Yield 0))"
| "test_step uenv env T c (Main_Yield i) =
     Some (if i < 20 then call_yield T c (Main_Yield (i + 1))
       else Inr (set_pc (T\<lparr>test_output := test_output T @ [Done_Line]\<rparr>) c Main_Exit))"
| "test_step uenv env T c Main_Exit = call_exit T c"
| "test_step uenv env T c (Foo_Create th i) =
     Some (if i \<le> NUM_THREADS then call_create uenv T c Bar (i * 16 + th) (Foo_Create th (i + 1))
       else Inr (set_pc T c (At_Lock Foo th)))"
| "test_step uenv env T c (At_Lock f th) =
     Some (bindr (mutex_lock_enter env (msched (tsys T)) (mwaits (tsys T)) (mlock (tsys T))) (\<lambda>r.
       Inr (set_pc (set_mutex T c Waiting r) c (In_Lock f th))))"
| "test_step uenv env T c (In_Lock f th) =
     Some (if current_thread (msched (tsys T)) = locking_thread (mlock (tsys T))
       then Inr (set_pc (set_mutex T c Holding (mwaits (tsys T), mlock (tsys T))) c (At_Test f th))
       else call_yield T c (In_Lock f th))"
| "test_step uenv env T c (At_Test f th) = Some (Inr (set_pc (T\<lparr>test_var := th\<rparr>) c (At_Local f th)))"
| "test_step uenv env T c (At_Local f th) = Some (Inr (set_pc T c (At_Yield f th (test_var T))))"
| "test_step uenv env T c (At_Yield f th l) = Some (call_yield T c (At_Compare f th l))"
| "test_step uenv env T c (At_Compare f th l) =
     Some (Inr (set_pc (T\<lparr>test_output := test_output T @ [if l = test_var T then Passed f th else Failed f th]\<rparr>) c (At_Unlock f th)))"
| "test_step uenv env T c (At_Unlock f th) =
     map_option (\<lambda>r. bindr r (\<lambda>wm. Inr (set_pc (set_mutex T c Outside wm) c At_Exit)))
       (uthread_mutex_unlock env (mwaits (tsys T)) (mlock (tsys T)))"
| "test_step uenv env T c At_Exit = call_exit T c"

definition test_act :: "ut_env \<Rightarrow> mutex_env \<Rightarrow> mtest \<Rightarrow> mtest res option" where
  "test_act uenv env T =
     Option.bind (current_thread (msched (tsys T))) (\<lambda>c. Option.bind (locals T c) (test_step uenv env T c))"

definition test_tick :: "mtest \<Rightarrow> int \<Rightarrow> mtest res" where
  "test_tick T signum = bindr (uthread_yield_handler signum (msched (tsys T))) (\<lambda>s. Inr (with_sched T s))"

inductive test_reachable :: "ut_env \<Rightarrow> mutex_env \<Rightarrow> mtest \<Rightarrow> bool" for uenv env where
  start: "uthread_init uenv sched0 = Inr s \<Longrightarrow> current_thread s = Some c \<Longrightarrow> test_reachable uenv env (mtest0 s c)"
| act: "test_reachable uenv env T \<Longrightarrow> test_act uenv env T = Some (Inr T') \<Longrightarrow> test_reachable uenv env T'"
| tick: "test_reachable uenv env T \<Longrightarrow> test_tick T signum = Inr T' \<Longrightarrow> test_reachable uenv env T'"

section \<open>What the threads have to print\<close>

definition foo_lines :: "int \<Rightarrow> int \<Rightarrow> test_line list" where
  "foo_lines th i = Passed Foo th # map (\<lambda>j. Passed Bar (j * 16 + th)) [i..NUM_THREADS]"

text \<open>The lines that a thread at a point, and those that it creates, have still to print.\<close>

primrec pending :: "test_pc \<Rightarrow> test_line list" where
  "pending (Main_Create th) = Done_Line # concat (map (\<lambda>j. foo_lines j 1) [th..3])"
| "pending (Main_Yield i) = [Done_Line]"
| "pending Main_Exit = []"
| "pending (Foo_Create th i) = foo_lines th i"
| "pending (At_Lock f th) = [Passed f th]"
| "pending (In_Lock f th) = [Passed f th]"
| "pending (At_Test f th) = [Passed f th]"
| "pending (At_Local f th) = [Passed f th]"
| "pending (At_Yield f th l) = [Passed f th]"
| "pending (At_Compare f th l) = [Passed f th]"
| "pending (At_Unlock f th) = []"
| "pending At_Exit = []"

definition pending_all :: "(nat \<rightharpoonup> test_pc) \<Rightarrow> test_line multiset" where
  "pending_all L = (\<Sum>t \<in> dom L. mset (pending (the (L t))))"

definition test_lines :: "test_line list" where
  "test_lines = pending (Main_Create 1)"

lemma pending_set:
  assumes "finite (dom L)" and "L c = Some p"
  shows "pending_all (L(c \<mapsto> q)) + mset (pending p) = pending_all L + mset (pending q)"
proof -
  have c: "c \<in> dom L" using assms(2) by blast
  have "pending_all (L(c \<mapsto> q)) = mset (pending q) + (\<Sum>t \<in> dom L - {c}. mset (pending (the ((L(c \<mapsto> q)) t))))"
    unfolding pending_all_def using assms(1) c by (simp add: sum.remove [of _ c] insert_absorb)
  also have "(\<Sum>t \<in> dom L - {c}. mset (pending (the ((L(c \<mapsto> q)) t)))) = (\<Sum>t \<in> dom L - {c}. mset (pending (the (L t))))"
    by (rule sum.cong) auto
  finally have "pending_all (L(c \<mapsto> q)) = mset (pending q) + (\<Sum>t \<in> dom L - {c}. mset (pending (the (L t))))" .
  moreover have "pending_all L = mset (pending p) + (\<Sum>t \<in> dom L - {c}. mset (pending (the (L t))))"
    unfolding pending_all_def using assms c by (simp add: sum.remove [of _ c])
  ultimately show ?thesis by simp
qed

lemma pending_new:
  assumes "finite (dom L)" and "L a = None"
  shows "pending_all (L(a \<mapsto> q)) = pending_all L + mset (pending q)"
proof -
  have a: "a \<notin> dom L" using assms(2) by blast
  have "(\<Sum>t \<in> dom L. mset (pending (the ((L(a \<mapsto> q)) t)))) = (\<Sum>t \<in> dom L. mset (pending (the (L t))))"
    by (rule sum.cong) (use a in auto)
  then show ?thesis unfolding pending_all_def using assms(1) a by simp
qed

lemma pending_exit:
  assumes "finite (dom L)" and "L c = Some p" and "pending p = []"
  shows "pending_all (L(c := None)) = pending_all L"
proof -
  have c: "c \<in> dom L" using assms(2) by blast
  have "(\<Sum>t \<in> dom L - {c}. mset (pending (the ((L(c := None)) t)))) = (\<Sum>t \<in> dom L - {c}. mset (pending (the (L t))))"
    by (rule sum.cong) auto
  then show ?thesis unfolding pending_all_def using assms c by (simp add: sum.remove [of _ c])
qed

section \<open>The invariant\<close>

primrec pc_phase :: "test_pc \<Rightarrow> phase" where
  "pc_phase (Main_Create th) = Outside"
| "pc_phase (Main_Yield i) = Outside"
| "pc_phase Main_Exit = Outside"
| "pc_phase (Foo_Create th i) = Outside"
| "pc_phase (At_Lock f th) = Outside"
| "pc_phase (In_Lock f th) = Waiting"
| "pc_phase (At_Test f th) = Holding"
| "pc_phase (At_Local f th) = Holding"
| "pc_phase (At_Yield f th l) = Holding"
| "pc_phase (At_Compare f th l) = Holding"
| "pc_phase (At_Unlock f th) = Holding"
| "pc_phase At_Exit = Outside"

definition phase_at :: "(nat \<rightharpoonup> test_pc) \<Rightarrow> nat \<Rightarrow> phase" where
  "phase_at L t = (case L t of None \<Rightarrow> Outside | Some p \<Rightarrow> pc_phase p)"

text \<open>What a thread at a point knows of \<open>test\<close>.\<close>

definition pc_value :: "int \<Rightarrow> test_pc \<Rightarrow> bool" where
  "pc_value v p = (case p of Main_Create th \<Rightarrow> th \<le> 3 | At_Yield f th l \<Rightarrow> l = v | At_Compare f th l \<Rightarrow> l = v | _ \<Rightarrow> True)"

lemma pc_value_free: "pc_phase p \<noteq> Holding \<Longrightarrow> pc_value v p = pc_value v' p"
  by (cases p) (simp_all add: pc_value_def)

definition test_inv :: "mtest \<Rightarrow> nat list \<Rightarrow> nat list \<Rightarrow> bool" where
  "test_inv T xs rs \<longleftrightarrow> msys_inv (tsys T) xs rs \<and> dom (locals T) = set xs \<and>
     phase_of (tsys T) = phase_at (locals T) \<and> (\<forall>t p. locals T t = Some p \<longrightarrow> pc_value (test_var T) p) \<and>
     mset (test_output T) + pending_all (locals T) = mset test_lines"

text \<open>A thread goes from \<open>p\<close> to \<open>q\<close>, where the ring stays as it is.\<close>

lemma moved_inv:
  assumes inv: "test_inv T xs rs" and c: "locals T c = Some p"
    and sys: "msys_inv (tsys T') xs rs'" "phase_of (tsys T') = (phase_of (tsys T))(c := pc_phase q)"
    and loc: "locals T' = (locals T)(c \<mapsto> q)" "test_output T' = test_output T @ new"
      "mset new + mset (pending q) = mset (pending p)"
    and val: "pc_value (test_var T') q" "test_var T' = test_var T \<or> pc_phase p = Holding"
  shows "test_inv T' xs rs'"
proof -
  note i = inv [unfolded test_inv_def]
  have fin: "finite (dom (locals T))" using i by simp
  have "mset (test_output T') + pending_all (locals T') = mset (test_output T) + pending_all (locals T)"
    using pending_set [OF fin c, of q, folded loc(3)] loc(1,2) by (simp add: ac_simps)
  moreover have "phase_of (tsys T') = phase_at (locals T')"
    using i sys(2) loc(1) by (auto simp: phase_at_def fun_eq_iff)
  moreover have "dom (locals T') = set xs" using i loc(1) c by auto
  moreover have "pc_value (test_var T') p'" if p': "locals T' t = Some p'" for t p'
  proof (cases "t = c")
    case True
    then show ?thesis using p' loc(1) val(1) by simp
  next
    case False
    then have t: "locals T t = Some p'" using p' loc(1) by simp
    show ?thesis
    proof (cases "pc_phase p' = Holding \<and> pc_phase p = Holding")
      case True
      then have "phase_of (tsys T) t = Holding" "phase_of (tsys T) c = Holding"
        using i t c by (simp_all add: phase_at_def)
      moreover have "\<forall>u. phase_of (tsys T) u = Holding \<longrightarrow> locking_thread (mlock (tsys T)) = Some u"
        using i unfolding msys_inv_def by blast
      ultimately have "locking_thread (mlock (tsys T)) = Some t" "locking_thread (mlock (tsys T)) = Some c" by blast+
      with False show ?thesis by simp
    next
      case neither: False
      have "pc_value (test_var T) p'" using i t by blast
      with neither val(2) pc_value_free [of p' "test_var T" "test_var T'"] show ?thesis by auto
    qed
  qed
  ultimately show ?thesis using i sys(1) unfolding test_inv_def by simp
qed

lemma sched_moved_inv:
  assumes "test_inv T xs rs" and "locals T c = Some p" and "msys_inv ((tsys T)\<lparr>msched := s\<rparr>) xs rs'"
    and "pc_phase q = pc_phase p" and "mset (pending q) = mset (pending p)" and "pc_value (test_var T) q"
  shows "test_inv (set_pc (with_sched T s) c q) xs rs'"
proof -
  have "phase_of (tsys T) c = pc_phase p" using assms(1,2) by (simp add: test_inv_def phase_at_def)
  then show ?thesis
    by (intro moved_inv [OF assms(1,2), of _ rs' q "[]"]) (use assms(3-6) in \<open>auto simp: set_pc_def with_sched_def\<close>)
qed

lemma call_yield_inv:
  assumes "test_inv T xs rs" and "locals T c = Some p" and "call_yield T c q = Inr T'"
    and "pc_phase q = pc_phase p" and "mset (pending q) = mset (pending p)" and "pc_value (test_var T) q"
  shows "test_inv T' xs rs"
proof -
  obtain s where s: "uthread_yield (msched (tsys T)) = Inr s" "T' = set_pc (with_sched T s) c q"
    using assms(3) by (cases "uthread_yield (msched (tsys T))") (auto simp: call_yield_def)
  have "msys_inv ((tsys T)\<lparr>msched := s\<rparr>) xs rs"
    using yield_inv [OF _ s(1)] assms(1) by (simp add: test_inv_def)
  with sched_moved_inv [OF assms(1,2) _ assms(4-6)] s(2) show ?thesis by simp
qed

text \<open>A thread that is created gets an address of its own and joins the ring.\<close>

lemma call_create_inv:
  assumes inv: "test_inv T xs rs" and c: "locals T c = Some p" and env: "env_fresh uenv"
    and run: "call_create uenv T c f th q = Inr T'"
    and out: "pc_phase p = Outside" "pc_phase q = Outside"
    and lines: "mset (pending (first_pc f th)) + mset (pending q) = mset (pending p)" and val: "pc_value (test_var T) q"
  shows "\<exists>ys. test_inv T' ys rs"
proof -
  note i = inv [unfolded test_inv_def]
  let ?s = "msched (tsys T)"
  have R: "reach_inv ?s xs" using i by (simp add: msys_inv_def)
  obtain a tid s' where a: "malloc_thread uenv (threads ?s) = Some a"
    and s': "uthread_create uenv ?s (fun_ptr f) th 1 = Inr (tid, s')"
    and T': "T' = set_pc (set_pc (with_sched T s') a (first_pc f th)) c q"
    using run by (auto simp: call_create_def res_simps split: option.splits)
  from create_cases [OF R env, of "fun_ptr f" th 1] s' a obtain ys where
    ys: "reach_inv s' ys" "set ys = insert a (set xs)" "a \<notin> set xs"
      "\<forall>t \<in> set xs. pri_of (threads s') t = pri_of (threads ?s) t" by auto
  have sys: "msys_inv ((tsys T)\<lparr>msched := s'\<rparr>) ys rs"
    using sched_keeps_msys [OF _ ys(1)] i ys(2,4) by auto
  have new: "locals T a = None" using i ys(3) by (metis domIff)
  have ne: "a \<noteq> c" using new c by auto
  have ph: "phase_at ((locals T)(a \<mapsto> first_pc f th)) = phase_at (locals T)"
    using new by (cases f) (auto simp: phase_at_def fun_eq_iff)
  have val0: "pc_value v (first_pc f th)" for v by (cases f) (simp_all add: pc_value_def)
  define T1 where "T1 = set_pc (with_sched T s') a (first_pc f th)"
  have "pending_all (locals T1) = pending_all (locals T) + mset (pending (first_pc f th))"
    using pending_new [of "locals T" a "first_pc f th"] new i by (simp add: T1_def set_pc_def with_sched_def)
  moreover have "finite (dom (locals T1))" "locals T1 c = Some p"
    using i c ne by (simp_all add: T1_def set_pc_def with_sched_def)
  note pending_set [OF this, of q]
  ultimately have "pending_all ((locals T1)(c \<mapsto> q)) + mset (pending p) =
      pending_all (locals T) + (mset (pending (first_pc f th)) + mset (pending q))"
    by (simp only: add.assoc)
  then have "pending_all ((locals T1)(c \<mapsto> q)) = pending_all (locals T)" by (simp only: lines add_right_cancel)
  then have pend: "pending_all (locals T') = pending_all (locals T)"
    by (simp add: T' T1_def [symmetric]) (simp add: set_pc_def)
  have "phase_at (locals T') = phase_at (locals T)"
    using ph ne c out by (auto simp: T' set_pc_def with_sched_def phase_at_def fun_eq_iff)
  moreover have "dom (locals T') = set ys" using i ys(2) c by (auto simp: T' set_pc_def with_sched_def)
  moreover have "pc_value (test_var T) r" if "locals T' t = Some r" for t r
    using that i val val0 by (auto simp: T' set_pc_def with_sched_def split: if_splits)
  ultimately have "test_inv T' ys rs"
    using i sys pend by (simp add: test_inv_def) (simp add: T' set_pc_def with_sched_def)
  then show ?thesis by blast
qed

lemma call_exit_inv:
  assumes inv: "test_inv T xs rs" and cur: "current_thread (msched (tsys T)) = Some c"
    and c: "locals T c = Some p" and run: "call_exit T c = Some (Inr T')" and p: "p \<in> {Main_Exit, At_Exit}"
  shows "\<exists>ys. test_inv T' ys rs"
proof -
  note i = inv [unfolded test_inv_def]
  let ?s = "msched (tsys T)"
  have R: "reach_inv ?s xs" using i by (simp add: msys_inv_def)
  obtain s' where s': "uthread_exit ?s = Some (Inr s')" and T': "T' = (with_sched T s')\<lparr>locals := (locals T)(c := None)\<rparr>"
    using run by (auto simp: call_exit_def res_simps)
  from exit_leaves [OF R cur s'] obtain ys where
    ys: "reach_inv s' ys" "set ys = set xs - {c}" "\<forall>t \<in> set ys. pri_of (threads s') t = pri_of (threads ?s) t" by blast
  have out: "phase_of (tsys T) c = Outside" using i c p by (auto simp: phase_at_def)
  then have "msys_inv ((tsys T)\<lparr>msched := s'\<rparr>) ys rs"
    using sched_keeps_msys [OF _ ys(1)] i ys(2,3) by (metis insert_iff insert_Diff_single)
  moreover have "pending_all (locals T') = pending_all (locals T)"
    using pending_exit [of "locals T" c p] i c p by (auto simp: T')
  moreover have "phase_at (locals T') = phase_at (locals T)"
    using i c out by (auto simp: T' phase_at_def fun_eq_iff)
  ultimately have "test_inv T' ys rs"
    using i ys(2) by (auto simp: test_inv_def T' with_sched_def split: if_splits)
  then show ?thesis by blast
qed

text \<open>Steps that keep the ring.\<close>

lemma set_mutex_inv:
  assumes "test_inv T xs rs" and "locals T c = Some p"
    and "msys_inv ((tsys T)\<lparr>mwaits := fst r, mlock := snd r, phase_of := (phase_of (tsys T))(c := pc_phase q)\<rparr>) xs rs'"
    and "mset (pending q) = mset (pending p)" and "pc_value (test_var T) q"
  shows "test_inv (set_pc (set_mutex T c (pc_phase q) r) c q) xs rs'"
  by (intro moved_inv [OF assms(1,2), of _ rs' q "[]"]) (use assms(3-5) in \<open>simp_all add: set_pc_def set_mutex_def\<close>)

lemma local_inv:
  assumes "test_inv T xs rs" and "locals T c = Some p" and "pc_phase q = pc_phase p"
    and "mset new + mset (pending q) = mset (pending p)" and "pc_value v q"
    and "v = test_var T \<or> pc_phase p = Holding"
  shows "test_inv (T\<lparr>test_var := v, test_output := test_output T @ new, locals := (locals T)(c \<mapsto> q)\<rparr>) xs rs"
proof -
  have i: "msys_inv (tsys T) xs rs" "phase_of (tsys T) c = pc_phase p"
    using assms(1,2) by (simp_all add: test_inv_def phase_at_def)
  show ?thesis
    by (intro moved_inv [OF assms(1,2), of _ rs q new]) (use assms(3-6) i in auto)
qed

lemma foo_lines_step: "i \<le> NUM_THREADS \<Longrightarrow> mset (foo_lines th i) = add_mset (Passed Bar (i * 16 + th)) (mset (foo_lines th (i + 1)))"
  by (simp add: foo_lines_def upto_rec1)

lemma main_lines_step: "th \<le> 3 \<Longrightarrow> mset (pending (Main_Create th)) =
    mset (foo_lines th 1) + mset (pending (if th < 3 then Main_Create (th + 1) else Main_Yield 0))"
  by (auto simp: upto_rec1 [of th 3] ac_simps)

text \<open>The steps that create threads.\<close>

lemma test_create_inv:
  assumes inv: "test_inv T xs rs" and uenv: "env_fresh uenv" and env: "mutex_env_good env"
    and cur: "current_thread (msched (tsys T)) = Some c" and c: "locals T c = Some p"
    and step: "test_step uenv env T c p = Some (Inr T')"
    and p: "p = Main_Create th \<or> p = Foo_Create th i"
  shows "\<exists>ys qs. test_inv T' ys qs"
  using p
proof
  have v: "pc_value (test_var T) p" using inv c by (simp add: test_inv_def)
  assume Main_Create: "p = Main_Create th"
  then have "th \<le> 3" using v by (simp add: pc_value_def)
  with call_create_inv [OF inv c uenv, of Foo th "if th < 3 then Main_Create (th + 1) else Main_Yield 0" T']
    main_lines_step [of th] step Main_Create
  show ?thesis by (auto simp: pc_value_def split: if_splits)
next
  assume Foo_Create: "p = Foo_Create th i"
  show ?thesis
  proof (cases "i \<le> NUM_THREADS")
    case True
    with call_create_inv [OF inv c uenv, of Bar "i * 16 + th" "Foo_Create th (i + 1)" T'] step Foo_Create
      foo_lines_step [OF True, of th] show ?thesis by (auto simp: pc_value_def)
  next
    case False
    with local_inv [OF inv c, of "At_Lock Foo th" "[]" "test_var T"] step Foo_Create show ?thesis
      by (auto simp: pc_value_def set_pc_def foo_lines_def)
  qed
qed

text \<open>The steps of the lock.\<close>

lemma test_lock_inv:
  assumes inv: "test_inv T xs rs" and uenv: "env_fresh uenv" and env: "mutex_env_good env"
    and cur: "current_thread (msched (tsys T)) = Some c" and c: "locals T c = Some p"
    and step: "test_step uenv env T c p = Some (Inr T')"
    and p: "p \<in> {At_Lock f th, In_Lock f th, At_Unlock f th}"
  shows "\<exists>ys qs. test_inv T' ys qs"
proof -
  let ?M = "tsys T"
  have M: "msys_inv ?M xs rs" and ph: "phase_of ?M c = pc_phase p"
    using inv c by (simp_all add: test_inv_def phase_at_def)
  consider (At_Lock) "p = At_Lock f th" | (In_Lock) "p = In_Lock f th" | (At_Unlock) "p = At_Unlock f th" using p by blast
  then show ?thesis
  proof cases
    case At_Lock
    then obtain w' m' where e: "mutex_lock_enter env (msched ?M) (mwaits ?M) (mlock ?M) = Inr (w', m')"
      "T' = set_pc (set_mutex T c Waiting (w', m')) c (In_Lock f th)"
      using step by (auto simp: res_simps)
    have "int32_ok (wait_queue_length (mlock ?M) + 1)"
    proof (rule ccontr)
      assume "\<not> ?thesis"
      then have "mutex_lock_enter env (msched ?M) (mwaits ?M) (mlock ?M) \<noteq> Inr (w', m')"
        by (auto simp: mutex_lock_enter_def c_int_def Let_def split: option.splits)
      with e show False by simp
    qed
    from enter_runs [OF M cur _ env this] ph At_Lock e set_mutex_inv [OF inv c, where r = "(w', m')" and q = "In_Lock f th"]
    show ?thesis by (auto simp: pc_value_def)
  next
    case In_Lock
    show ?thesis
    proof (cases "current_thread (msched ?M) = locking_thread (mlock ?M)")
      case True
      have "msys_inv (?M\<lparr>mwaits := mwaits ?M, mlock := mlock ?M, phase_of := (phase_of ?M)(c := Holding)\<rparr>) xs rs"
        using acquire_inv [OF M cur _ True] ph In_Lock by simp
      with set_mutex_inv [OF inv c, where r = "(mwaits ?M, mlock ?M)" and q = "At_Test f th"] step In_Lock True
      show ?thesis by (auto simp: pc_value_def)
    next
      case False
      with call_yield_inv [OF inv c, of "In_Lock f th" T'] step In_Lock show ?thesis by (auto simp: pc_value_def)
    qed
  next
    case At_Unlock
    then obtain w' m' where u: "uthread_mutex_unlock env (mwaits ?M) (mlock ?M) = Some (Inr (w', m'))"
      "T' = set_pc (set_mutex T c Outside (w', m')) c At_Exit"
      using step by (auto simp: res_simps)
    from unlock_runs [OF M _ env, of c] ph At_Unlock u set_mutex_inv [OF inv c, where r = "(w', m')" and q = At_Exit]
    show ?thesis by (auto simp: pc_value_def)
  qed
qed

lemma test_step_inv:
  assumes inv: "test_inv T xs rs" and uenv: "env_fresh uenv" and env: "mutex_env_good env"
    and cur: "current_thread (msched (tsys T)) = Some c" and c: "locals T c = Some p"
    and step: "test_step uenv env T c p = Some (Inr T')"
  shows "\<exists>ys qs. test_inv T' ys qs"
proof -
  let ?M = "tsys T"
  have M: "msys_inv ?M xs rs" and ph: "phase_of ?M c = pc_phase p" and v: "pc_value (test_var T) p"
    using inv c by (simp_all add: test_inv_def phase_at_def)
  note keep = local_inv [OF inv c]
  show ?thesis
  proof (cases p)
    case (Main_Create th)
    with test_create_inv [OF assms] show ?thesis by blast
  next
    case (Main_Yield i)
    show ?thesis
    proof (cases "i < 20")
      case True
      with call_yield_inv [OF inv c, of "Main_Yield (i + 1)" T'] step Main_Yield show ?thesis
        by (auto simp: pc_value_def)
    next
      case False
      with keep [of Main_Exit "[Done_Line]" "test_var T"] step Main_Yield show ?thesis
        by (auto simp: pc_value_def set_pc_def)
    qed
  next
    case Main_Exit
    with call_exit_inv [OF inv cur c, of T'] step show ?thesis by auto
  next
    case (Foo_Create th i)
    with test_create_inv [OF assms] show ?thesis by blast
  next
    case (At_Lock f th)
    with test_lock_inv [OF assms] show ?thesis by blast
  next
    case (In_Lock f th)
    with test_lock_inv [OF assms] show ?thesis by blast
  next
    case (At_Test f th)
    with keep [of "At_Local f th" "[]" th] step show ?thesis by (auto simp: pc_value_def set_pc_def)
  next
    case (At_Local f th)
    with keep [of "At_Yield f th (test_var T)" "[]" "test_var T"] step show ?thesis
      by (auto simp: pc_value_def set_pc_def)
  next
    case (At_Yield f th l)
    with call_yield_inv [OF inv c, of "At_Compare f th l" T'] step v show ?thesis by (auto simp: pc_value_def)
  next
    case (At_Compare f th l)
    with keep [of "At_Unlock f th" "[Passed f th]" "test_var T"] step v show ?thesis
      by (auto simp: pc_value_def set_pc_def)
  next
    case (At_Unlock f th)
    with test_lock_inv [OF assms] show ?thesis by blast
  next
    case At_Exit
    with call_exit_inv [OF inv cur c, of T'] step show ?thesis by auto
  qed
qed

lemma test_reachable_inv:
  assumes "test_reachable uenv env T" and "env_fresh uenv" and "mutex_env_good env"
  shows "\<exists>xs rs. test_inv T xs rs"
  using assms(1)
proof (induction rule: test_reachable.induct)
  case (start s c)
  from init_inv [OF assms(2)] start obtain a where a: "reach_inv s [a]" "c = a"
    by (auto simp: reach_inv_def circle_ok_def)
  then have "msys_inv (msys0 s) [a] []"
    by (simp add: msys_inv_def msys0_def mutex_inv_def uthread_mutex_init_def)
  then have "test_inv (mtest0 s c) [a] []"
    using a(2) by (auto simp: test_inv_def mtest0_def msys0_def phase_at_def pc_value_def pending_all_def test_lines_def)
  then show ?case by blast
next
  case (act T T')
  then obtain c p where "current_thread (msched (tsys T)) = Some c" "locals T c = Some p"
    "test_step uenv env T c p = Some (Inr T')"
    by (auto simp: test_act_def bind_eq_Some_conv)
  with act.IH test_step_inv [OF _ assms(2,3)] show ?case by blast
next
  case (tick T signum T')
  then obtain xs rs where inv: "test_inv T xs rs" by blast
  obtain s where s: "uthread_yield (msched (tsys T)) = Inr s" "T' = with_sched T s"
    using tick(2) by (auto simp: test_tick_def uthread_yield_handler_def res_simps)
  then have "test_inv T' xs rs"
    using inv yield_inv [OF _ s(1)] by (simp add: test_inv_def with_sched_def)
  then show ?case by blast
qed

section \<open>Properties\<close>

text \<open>
  C19. The test of the mutexes succeeds: in every state that mutex_test.c reaches, whichever steps the timer preempts its
  threads between, the lines that it has printed are among \<open>done.\<close> and one line \<open>PASSED\<close> for each of the twelve threads
  that call \<open>foo\<close> or \<open>bar\<close>; so none says \<open>FAILED\<close> and none is printed twice. When every thread that is left
  has printed its lines, all of these lines are there.
\<close>

theorem mutex_test_passes:
  assumes "test_reachable uenv env T" and "env_fresh uenv" and "mutex_env_good env"
  shows "mset (test_output T) \<subseteq># mset test_lines \<and>
    ((\<forall>t p. locals T t = Some p \<longrightarrow> pending p = []) \<longrightarrow> mset (test_output T) = mset test_lines)"
proof -
  from test_reachable_inv [OF assms] obtain xs rs where "test_inv T xs rs" by blast
  then have "mset (test_output T) + pending_all (locals T) = mset test_lines" by (simp add: test_inv_def)
  moreover from this have "mset (test_output T) \<subseteq># mset test_lines" by (metis mset_subset_eq_add_left)
  moreover have "pending_all (locals T) = {#}" if "\<forall>t p. locals T t = Some p \<longrightarrow> pending p = []"
    unfolding pending_all_def by (rule sum.neutral) (use that in auto)
  ultimately show ?thesis by auto
qed

lemma test_lines_value:
  "test_lines = Done_Line # concat (map (\<lambda>j. [Passed Foo j, Passed Bar (16 + j), Passed Bar (32 + j), Passed Bar (48 + j)]) [1, 2, 3])"
  by (simp add: test_lines_def foo_lines_def NUM_THREADS_def upto_rec1)

definition test_mutex_env :: mutex_env where
  "test_mutex_env = \<lparr>malloc_wait = small_address, malloc_wait_buf = (\<lambda>n. True), block_ok = True,
     unblock_ok = True, sort_waits = insertion_sort\<rparr>"

lemma test_envs_good: "env_fresh test_ut_env" "mutex_env_good test_mutex_env"
  by (simp_all add: test_ut_env_fresh mutex_env_good_def test_mutex_env_def small_address_free insertion_sort_ok)

text \<open>A run: \<open>True\<close> is a signal of the timer, \<open>False\<close> a step of the running thread.\<close>

primrec test_run :: "bool list \<Rightarrow> mtest \<Rightarrow> mtest option" where
  "test_run [] T = Some T"
| "test_run (b # bs) T =
     (case (if b then Some (test_tick T 14) else test_act test_ut_env test_mutex_env T) of
        Some (Inr T') \<Rightarrow> test_run bs T' | _ \<Rightarrow> None)"

text \<open>The first thread is created, preempts \<open>main\<close>, and runs until it has printed its line.\<close>

definition ex_schedule :: "bool list" where
  "ex_schedule = [False, True] @ replicate 9 False @ [True, True, True, False]"

definition ex_test :: "mtest option" where
  "ex_test = (case uthread_init test_ut_env sched0 of
     Inr s \<Rightarrow> Option.bind (current_thread s) (\<lambda>c. test_run ex_schedule (mtest0 s c)) | _ \<Rightarrow> None)"

lemma ex_test_value: "map_option test_output ex_test = Some [Passed Foo 1]"
  by code_simp

lemma test_run_reachable:
  "test_reachable test_ut_env test_mutex_env T \<Longrightarrow> test_run bs T = Some T' \<Longrightarrow>
    test_reachable test_ut_env test_mutex_env T'"
proof (induction bs arbitrary: T)
  case (Cons b bs)
  then show ?case
    by (auto split: option.splits sum.splits if_splits intro: test_reachable.act test_reachable.tick)
qed simp

lemma ex_test_reachable: "ex_test = Some T \<Longrightarrow> test_reachable test_ut_env test_mutex_env T"
  by (auto simp: ex_test_def bind_eq_Some_conv split: sum.splits intro: test_run_reachable test_reachable.start)

theorem mutex_test_passes_witness:
  "\<exists>T. ex_test = Some T \<and> mset (test_output T) \<subseteq># mset test_lines \<and> test_output T = [Passed Foo 1]"
proof -
  obtain T where T: "ex_test = Some T" "test_output T = [Passed Foo 1]" using ex_test_value by blast
  from mutex_test_passes [OF ex_test_reachable [OF T(1)] test_envs_good] T show ?thesis by blast
qed

text \<open>
  When the timer preempts \<open>main\<close> after its first \<open>uthread_create\<close>, the threads run to their ends before the second
  one, which then sorts slots that nothing has written, as the number of threads was not reduced.
\<close>

definition ex_schedule_exit :: "bool list" where
  "ex_schedule_exit = [False, True] @ replicate 42 False"

definition ex_test_exit :: "mtest option" where
  "ex_test_exit = (case uthread_init test_ut_env sched0 of
     Inr s \<Rightarrow> Option.bind (current_thread s) (\<lambda>c. test_run ex_schedule_exit (mtest0 s c)) | _ \<Rightarrow> None)"

lemma ex_test_exit_value:
  "map_option (\<lambda>T. (test_output T, case test_act test_ut_env test_mutex_env T of Some (Inl e) \<Rightarrow> Some e | _ \<Rightarrow> None)) ex_test_exit =
    Some ([Passed Foo 1, Passed Bar 49, Passed Bar 33, Passed Bar 17], Some Uninit_Read)"
  by code_simp

lemma mutex_test_uninit:
  "\<exists>T. test_reachable test_ut_env test_mutex_env T \<and> test_act test_ut_env test_mutex_env T = Some (Inl Uninit_Read)"
proof -
  obtain T where T: "ex_test_exit = Some T"
    "(case test_act test_ut_env test_mutex_env T of Some (Inl e) \<Rightarrow> Some e | _ \<Rightarrow> None) = Some Uninit_Read"
    using ex_test_exit_value by (cases ex_test_exit) (simp_all only: option.map option.inject prod.inject, auto)
  from T(2) have "test_act test_ut_env test_mutex_env T = Some (Inl Uninit_Read)"
    by (auto split: option.splits sum.splits)
  moreover from T(1) have "test_reachable test_ut_env test_mutex_env T"
    by (auto simp: ex_test_exit_def bind_eq_Some_conv split: sum.splits intro: test_run_reachable test_reachable.start)
  ultimately show ?thesis by blast
qed

end
