(* ===== verification/ListT.thy ===== *)
theory ListT imports HeapPath Qsort begin

text \<open>
  The doubly linked list of Asmt_1 and Asmt_3 (list_t.c, list_item_t.c; the two copies differ in
  comments, and Asmt_3 adds \<open>list_rotate_one\<close>). A list keeps the function pointers \<open>compare\<close>
  and \<open>data_delete\<close> it was initialised with; they act on the objects that the \<open>data\<close>
  pointers of the items name, a memory of its own type \<open>'o\<close>.
\<close>

section \<open>State\<close>

record list_item =
  li_prev :: ptr
  li_next :: ptr
  li_data :: ptr

type_synonym item_heap = "nat \<rightharpoonup> list_item"

record 'o mem =
  items :: item_heap
  objs :: 'o

record 'o list_t =
  l_head :: ptr
  l_tail :: ptr
  l_length :: uint32
  l_compare :: "'o mem \<Rightarrow> nat \<Rightarrow> nat \<Rightarrow> int res"
  l_delete :: "'o mem \<Rightarrow> ptr \<Rightarrow> 'o res"

record list_env =
  malloc_item :: "item_heap \<Rightarrow> ptr"
  sort_items :: "nat qsort"

section \<open>Operations\<close>

definition list_init :: "('o mem \<Rightarrow> nat \<Rightarrow> nat \<Rightarrow> int res) \<Rightarrow> ('o mem \<Rightarrow> ptr \<Rightarrow> 'o res) \<Rightarrow> 'o list_t" where
  "list_init compare data_delete = \<lparr>l_head = None, l_tail = None, l_length = 0,
     l_compare = compare, l_delete = data_delete\<rparr>"

definition list_item_init :: "ptr \<Rightarrow> list_item" where
  "list_item_init data = \<lparr>li_prev = None, li_next = None, li_data = data\<rparr>"

text \<open>
  The loop of \<open>list_visit_items\<close>, with the items on which the visitor has been called so far;
  \<open>None\<close> is a walk that never ends.
\<close>

partial_function (option) visit_loop :: "item_heap \<Rightarrow> ptr \<Rightarrow> nat list \<Rightarrow> nat list res option" where
  "visit_loop h current_item visited =
     (case current_item of
        None \<Rightarrow> Some (Inr visited)
      | Some a \<Rightarrow>
          (case h a of
             None \<Rightarrow> Some (Inl Dangling)
           | Some i \<Rightarrow> visit_loop h (li_next i) (visited @ [a])))"

definition list_visit_items :: "'o mem \<Rightarrow> 'o list_t \<Rightarrow> nat list res option" where
  "list_visit_items m l = visit_loop (items m) (l_head l) []"

definition list_insert_tail ::
  "list_env \<Rightarrow> 'o mem \<Rightarrow> 'o list_t \<Rightarrow> ptr \<Rightarrow> ('o mem \<times> 'o list_t) res" where
  "list_insert_tail env m l v =
     (case malloc_item env (items m) of
        None \<Rightarrow> Inl (Exit (-1))
      | Some new \<Rightarrow>
          let h1 = (items m)(new \<mapsto> list_item_init v) in
          if l_length l = 0
          then Inr (m\<lparr>items := h1\<rparr>,
                    l\<lparr>l_head := Some new, l_tail := Some new, l_length := l_length l + 1\<rparr>)
          else
            bindr (store h1 (l_tail l) (\<lambda>i. i\<lparr>li_next := Some new\<rparr>)) (\<lambda>h2.
            bindr (store h2 (Some new) (\<lambda>i. i\<lparr>li_prev := l_tail l\<rparr>)) (\<lambda>h3.
            Inr (m\<lparr>items := h3\<rparr>, l\<lparr>l_tail := Some new, l_length := l_length l + 1\<rparr>))))"

text \<open>\<open>list_insert_sorted\<close>: the pointers of all items in an array of \<open>length\<close> slots.\<close>

fun collect_items :: "item_heap \<Rightarrow> ptr \<Rightarrow> nat \<Rightarrow> nat list res" where
  "collect_items h p 0 = Inr []"
| "collect_items h p (Suc n) =
     bindr (load h p) (\<lambda>i. bindr (collect_items h (li_next i) n) (\<lambda>as. Inr (the p # as)))"

text \<open>The loop over \<open>j\<close> ties each item of the array from index 1 on to the one after it.\<close>

fun retie_loop :: "item_heap \<Rightarrow> nat list \<Rightarrow> item_heap res" where
  "retie_loop h (a # b # as) =
     bindr (store h (Some a) (\<lambda>i. i\<lparr>li_next := Some b\<rparr>)) (\<lambda>h1.
     bindr (store h1 (Some b) (\<lambda>i. i\<lparr>li_prev := Some a\<rparr>)) (\<lambda>h2.
     retie_loop h2 (b # as)))"
| "retie_loop h as = Inr h"

definition retie_items :: "item_heap \<Rightarrow> nat list \<Rightarrow> item_heap res" where
  "retie_items h its =
     (let n = length its; head = Some (its ! 0); tail = Some (its ! (n - 1)) in
      bindr (store h head (\<lambda>i. i\<lparr>li_prev := None\<rparr>)) (\<lambda>h1.
      bindr (store h1 tail (\<lambda>i. i\<lparr>li_next := None\<rparr>)) (\<lambda>h2.
      bindr (if n = 2 then
               bindr (store h2 head (\<lambda>i. i\<lparr>li_next := tail\<rparr>)) (\<lambda>h.
               store h tail (\<lambda>i. i\<lparr>li_prev := head\<rparr>))
             else Inr h2) (\<lambda>h3.
      if n > 2 then
        bindr (store h3 head (\<lambda>i. i\<lparr>li_next := Some (its ! 1)\<rparr>)) (\<lambda>h4.
        bindr (store h4 tail (\<lambda>i. i\<lparr>li_prev := Some (its ! (n - 2))\<rparr>)) (\<lambda>h5.
        retie_loop h5 (tl its)))
      else Inr h3))))"

text \<open>
  \<open>qsort\<close> may call \<open>compare\<close> on any two slots of the array; \<open>compare_pairs\<close> is the first error
  of these calls, if there is one.
\<close>

definition compare_pairs :: "(nat \<Rightarrow> nat \<Rightarrow> int res) \<Rightarrow> nat list \<Rightarrow> unit res" where
  "compare_pairs compare its =
     bindr (mapr (\<lambda>(a, b). compare a b) (filter (\<lambda>(a, b). a \<noteq> b) (List.product its its))) (\<lambda>rs. Inr ())"

definition compare_result :: "int res \<Rightarrow> int" where
  "compare_result r = (case r of Inl e \<Rightarrow> 0 | Inr n \<Rightarrow> n)"

definition list_insert_sorted ::
  "list_env \<Rightarrow> 'o mem \<Rightarrow> 'o list_t \<Rightarrow> ptr \<Rightarrow> ('o mem \<times> 'o list_t) res" where
  "list_insert_sorted env m l v =
     bindr (list_insert_tail env m l v) (\<lambda>(m1, l1).
     let n = unat (l_length l1) in
     bindr (collect_items (items m1) (l_head l1) n) (\<lambda>collected.
     bindr (compare_pairs (l_compare l1 m1) collected) (\<lambda>u.
     let its = sort_items env (\<lambda>a b. compare_result (l_compare l1 m1 a b)) collected in
     if n = 0 then Inl Out_Of_Bounds
     else
       bindr (retie_items (items m1) its) (\<lambda>h.
       Inr (m1\<lparr>items := h\<rparr>, l1\<lparr>l_head := Some (its ! 0), l_tail := Some (its ! (n - 1))\<rparr>)))))"

definition list_remove_head :: "'o mem \<Rightarrow> 'o list_t \<Rightarrow> ('o mem \<times> 'o list_t) res" where
  "list_remove_head m l =
     (if l_head l = None then Inr (m, l)
      else
        bindr (load (items m) (l_head l)) (\<lambda>i.
        bindr (l_delete l m (l_head l)) (\<lambda>objs1.
        bindr (free_ptr (items m) (l_head l)) (\<lambda>h.
        Inr (m\<lparr>items := h, objs := objs1\<rparr>, l\<lparr>l_length := l_length l - 1, l_head := li_next i\<rparr>)))))"

definition list_rotate_one :: "'o mem \<Rightarrow> 'o list_t \<Rightarrow> ('o mem \<times> 'o list_t) res" where
  "list_rotate_one m l =
     (if l_length l > 1 then
        bindr (load (items m) (l_head l)) (\<lambda>i.
        bindr (store (items m) (li_next i) (\<lambda>i. i\<lparr>li_prev := None\<rparr>)) (\<lambda>h1.
        bindr (store h1 (l_head l) (\<lambda>i. i\<lparr>li_prev := l_tail l\<rparr>)) (\<lambda>h2.
        bindr (store h2 (l_head l) (\<lambda>i. i\<lparr>li_next := None\<rparr>)) (\<lambda>h3.
        bindr (store h3 (l_tail l) (\<lambda>i. i\<lparr>li_next := l_head l\<rparr>)) (\<lambda>h4.
        Inr (m\<lparr>items := h4\<rparr>, l\<lparr>l_head := li_next i, l_tail := l_head l\<rparr>))))))
      else Inr (m, l))"

text \<open>\<open>cleanup_list\<close> of harness.c; \<open>None\<close> is a loop that never ends.\<close>

partial_function (option) cleanup_list :: "'o mem \<Rightarrow> 'o list_t \<Rightarrow> ('o mem \<times> 'o list_t) res option" where
  "cleanup_list m l =
     (if l_head l = None then Some (Inr (m, l))
      else case list_remove_head m l of
        Inl e \<Rightarrow> Some (Inl e)
      | Inr (m', l') \<Rightarrow> cleanup_list m' l')"

section \<open>The invariant\<close>

definition inext :: "item_heap \<Rightarrow> nat \<Rightarrow> ptr option" where
  "inext h a = map_option li_next (h a)"

definition iprev :: "item_heap \<Rightarrow> nat \<Rightarrow> ptr option" where
  "iprev h a = map_option li_prev (h a)"

definition idata :: "item_heap \<Rightarrow> nat \<Rightarrow> ptr" where
  "idata h a = (case h a of None \<Rightarrow> None | Some i \<Rightarrow> li_data i)"

text \<open>\<open>prevs h p xs\<close>: the \<open>prev\<close> pointers lead back along \<open>xs\<close> to \<open>p\<close>.\<close>

primrec prevs :: "item_heap \<Rightarrow> ptr \<Rightarrow> nat list \<Rightarrow> bool" where
  "prevs h p [] \<longleftrightarrow> True"
| "prevs h p (a # as) \<longleftrightarrow> iprev h a = Some p \<and> prevs h (Some a) as"

text \<open>The list holds the items \<open>xs\<close>, linked forward from head to tail.\<close>

definition list_inv :: "'o mem \<Rightarrow> 'o list_t \<Rightarrow> nat list \<Rightarrow> bool" where
  "list_inv m l xs \<longleftrightarrow> path (inext (items m)) (l_head l) xs None \<and>
     (xs \<noteq> [] \<longrightarrow> l_tail l = Some (last xs)) \<and> length xs < 2 ^ 32 \<and>
     l_length l = of_nat (length xs) \<and> finite (dom (items m))"

definition list_env_good :: "list_env \<Rightarrow> bool" where
  "list_env_good env \<longleftrightarrow> (\<forall>h. finite (dom h) \<longrightarrow> (\<exists>a. malloc_item env h = Some a \<and> h a = None)) \<and>
     qsort_ok (sort_items env)"

section \<open>Lemmas on items\<close>

lemma inext_live: "inext h a = Some q \<Longrightarrow> \<exists>i. h a = Some i \<and> li_next i = q"
  by (auto simp: inext_def)

lemma item_relinked [heap_simps]:
  "inext (h(a \<mapsto> i\<lparr>li_next := q\<rparr>)) = (inext h)(a := Some q)"
  "h a = Some i \<Longrightarrow> inext (h(a \<mapsto> i\<lparr>li_prev := q\<rparr>)) = inext h"
  "iprev (h(a \<mapsto> i\<lparr>li_prev := q\<rparr>)) = (iprev h)(a := Some q)"
  "h a = Some i \<Longrightarrow> iprev (h(a \<mapsto> i\<lparr>li_next := q\<rparr>)) = iprev h"
  "h a = Some i \<Longrightarrow> idata (h(a \<mapsto> i\<lparr>li_prev := q\<rparr>)) = idata h"
  "h a = Some i \<Longrightarrow> idata (h(a \<mapsto> i\<lparr>li_next := q\<rparr>)) = idata h"
  by (auto simp: inext_def iprev_def idata_def fun_eq_iff)

lemma store_next:
  assumes "h a \<noteq> None"
  shows "\<exists>h'. store h (Some a) (\<lambda>i. i\<lparr>li_next := q\<rparr>) = Inr h' \<and> inext h' = (inext h)(a := Some q) \<and>
    iprev h' = iprev h \<and> idata h' = idata h \<and> dom h' = dom h"
  using assms by (auto simp: heap_simps)

lemma store_prev:
  assumes "h a \<noteq> None"
  shows "\<exists>h'. store h (Some a) (\<lambda>i. i\<lparr>li_prev := q\<rparr>) = Inr h' \<and> iprev h' = (iprev h)(a := Some q) \<and>
    inext h' = inext h \<and> idata h' = idata h \<and> dom h' = dom h"
  using assms by (auto simp: heap_simps)

lemma prevs_cong: "(\<And>a. a \<in> set as \<Longrightarrow> iprev h a = iprev h' a) \<Longrightarrow> prevs h p as \<longleftrightarrow> prevs h' p as"
  by (induction as arbitrary: p) auto

lemma prevs_unchanged:
  "prevs h p as \<Longrightarrow> (\<And>a. a \<in> set as \<Longrightarrow> iprev h' a = iprev h a) \<Longrightarrow> prevs h' p as"
  using prevs_cong [of as h h' p] by simp

lemma prevs_append [simp]:
  "prevs h p (as @ [b]) \<longleftrightarrow> prevs h p as \<and> iprev h b = Some (if as = [] then p else Some (last as))"
  by (induction as arbitrary: p) auto

lemma prevs_not_last:
  "prevs h p (xs @ [a]) \<Longrightarrow> distinct (xs @ [a]) \<Longrightarrow> p \<noteq> Some a \<Longrightarrow> b \<in> set xs \<Longrightarrow>
   iprev h b \<noteq> Some (Some a)"
  by (induction xs arbitrary: p) auto

lemma visit_loop_path:
  "path (inext h) p xs None \<Longrightarrow> visit_loop h p acc = Some (Inr (acc @ xs))"
proof (induction xs arbitrary: p acc)
  case (Cons a xs)
  then obtain i where "p = Some a" "h a = Some i" "path (inext h) (li_next i) xs None"
    by (auto dest!: inext_live)
  with Cons.IH [of "li_next i" "acc @ [a]"] show ?case by (subst visit_loop.simps) simp
qed (subst visit_loop.simps, simp)

lemma collect_items_path:
  "path (inext h) p xs None \<Longrightarrow> collect_items h p (length xs) = Inr xs"
proof (induction xs arbitrary: p)
  case (Cons a xs)
  then obtain i where "p = Some a" "h a = Some i" "path (inext h) (li_next i) xs None"
    by (auto dest!: inext_live)
  with Cons.IH show ?case by simp
qed simp

lemma retie_loop_runs:
  "distinct as \<Longrightarrow> \<forall>a \<in> set as. h a \<noteq> None \<Longrightarrow>
   \<exists>h'. retie_loop h as = Inr h' \<and> dom h' = dom h \<and> idata h' = idata h \<and>
        (\<forall>a. a \<notin> set (butlast as) \<longrightarrow> inext h' a = inext h a) \<and>
        (\<forall>a. a \<notin> set (tl as) \<longrightarrow> iprev h' a = iprev h a) \<and>
        (as \<noteq> [] \<longrightarrow> path (inext h') (Some (hd as)) (butlast as) (Some (last as)) \<and>
                    prevs h' (Some (hd as)) (tl as))"
proof (induction h as rule: retie_loop.induct)
  case (1 h a b as)
  from store_next [of h a "Some b"] "1.prems"(2) obtain h1 where
    h1: "store h (Some a) (\<lambda>i. i\<lparr>li_next := Some b\<rparr>) = Inr h1" "inext h1 = (inext h)(a := Some (Some b))"
      "iprev h1 = iprev h" "idata h1 = idata h" "dom h1 = dom h" by auto
  have "h1 b \<noteq> None" using h1(5) "1.prems"(2) by (auto simp: domIff [symmetric])
  from store_prev [of h1 b "Some a", OF this] obtain h2 where
    h2: "store h1 (Some b) (\<lambda>i. i\<lparr>li_prev := Some a\<rparr>) = Inr h2" "iprev h2 = (iprev h1)(b := Some (Some a))"
      "inext h2 = inext h1" "idata h2 = idata h1" "dom h2 = dom h1" by blast
  have "\<forall>c \<in> set (b # as). h2 c \<noteq> None"
    using h1(5) h2(5) "1.prems"(2) by (auto simp: domIff [symmetric])
  with "1.IH" [OF h1(1) h2(1)] "1.prems"(1) obtain h' where
    h': "retie_loop h2 (b # as) = Inr h'" "dom h' = dom h2" "idata h' = idata h2"
      "\<forall>c. c \<notin> set (butlast (b # as)) \<longrightarrow> inext h' c = inext h2 c"
      "\<forall>c. c \<notin> set as \<longrightarrow> iprev h' c = iprev h2 c"
      "path (inext h') (Some b) (butlast (b # as)) (Some (last (b # as)))"
      "prevs h' (Some b) as" by auto
  have sub: "set (butlast (b # as)) \<subseteq> set (b # as)" by (meson in_set_butlastD subsetI)
  then have "a \<notin> set (butlast (b # as))" using "1.prems"(1) by auto
  then have next_a: "inext h' a = Some (Some b)" using h'(4) h2(3) h1(2) by simp
  have prev_b: "iprev h' b = Some (Some a)" using h'(5) h2(2) "1.prems"(1) by simp
  have "\<forall>c. c \<notin> set (butlast (a # b # as)) \<longrightarrow> inext h' c = inext h c"
    using h'(4) h2(3) h1(2) by auto
  moreover have "\<forall>c. c \<notin> set (tl (a # b # as)) \<longrightarrow> iprev h' c = iprev h c"
    using h'(5) h2(2) h1(3) by auto
  moreover have "path (inext h') (Some a) (butlast (a # b # as)) (Some (last (a # b # as)))"
    using next_a h'(6) by simp
  moreover have "prevs h' (Some a) (tl (a # b # as))" using prev_b h'(7) by simp
  ultimately show ?case using h1(1,4,5) h2(1,4,5) h'(1,2,3) by simp
qed auto

text \<open>
  What the retying does, and does not: the items are linked forward along the array, the
  backward pointers follow, except for that of the second of more than two items, which keeps
  its old value.
\<close>

text \<open>The third part, of three or more items, from where the last one has no next.\<close>

lemma retie_long:
  assumes dist: "distinct (a # b # cs)" and cs: "cs \<noteq> []" and z: "z = last cs" "inext h z = Some None"
    and live: "\<forall>c \<in> set (a # b # cs). h c \<noteq> None"
  shows "\<exists>h4 h5 h6. store h (Some a) (\<lambda>i. i\<lparr>li_next := Some b\<rparr>) = Inr h4 \<and>
    store h4 (Some z) (\<lambda>i. i\<lparr>li_prev := y\<rparr>) = Inr h5 \<and> retie_loop h5 (b # cs) = Inr h6 \<and>
    path (inext h6) (Some a) (a # b # cs) None \<and> idata h6 = idata h \<and> dom h6 = dom h \<and>
    iprev h6 a = iprev h a \<and> iprev h6 b = iprev h b \<and> prevs h6 (Some b) cs"
proof -
  have zc: "z \<in> set cs" "z = last (b # cs)" using cs z(1) by simp_all
  have za: "z \<noteq> a" "z \<noteq> b" "a \<noteq> b" using dist zc(1) by auto
  from store_next [of h a "Some b"] live obtain h4 where
    h4: "store h (Some a) (\<lambda>i. i\<lparr>li_next := Some b\<rparr>) = Inr h4" "inext h4 = (inext h)(a := Some (Some b))"
      "iprev h4 = iprev h" "idata h4 = idata h" "dom h4 = dom h" by auto
  have "h4 z \<noteq> None" using h4(5) live zc(1) by (auto simp: domIff [symmetric])
  from store_prev [of h4 z y, OF this] obtain h5 where
    h5: "store h4 (Some z) (\<lambda>i. i\<lparr>li_prev := y\<rparr>) = Inr h5" "iprev h5 = (iprev h4)(z := Some y)"
      "inext h5 = inext h4" "idata h5 = idata h4" "dom h5 = dom h4" by blast
  have "\<forall>c \<in> set (b # cs). h5 c \<noteq> None"
    using h4(5) h5(5) live by (auto simp: domIff [symmetric])
  with retie_loop_runs [of "b # cs" h5] dist obtain h6 where
    h6: "retie_loop h5 (b # cs) = Inr h6" "dom h6 = dom h5" "idata h6 = idata h5"
      "\<forall>c. c \<notin> set (butlast (b # cs)) \<longrightarrow> inext h6 c = inext h5 c"
      "\<forall>c. c \<notin> set cs \<longrightarrow> iprev h6 c = iprev h5 c"
      "path (inext h6) (Some b) (butlast (b # cs)) (Some (last (b # cs)))"
      "prevs h6 (Some b) cs" by auto
  have "z \<notin> set (butlast (b # cs))" using last_notin_butlast [of "b # cs"] dist zc(2) by simp
  moreover have "a \<notin> set (butlast (b # cs))" using dist by (meson distinct.simps(2) in_set_butlastD)
  ultimately have nx: "inext h6 a = Some (Some b)" "inext h6 z = Some None"
    using h6(4) h5(3) h4(2) z(2) za by simp_all
  have "path (inext h6) (Some b) (b # cs) None"
    using h6(6) nx(2) zc(2) path_last [of "b # cs" "inext h6" "Some b" None] by simp
  then have "path (inext h6) (Some a) (a # b # cs) None" using nx(1) by simp
  moreover have "iprev h6 a = iprev h a" "iprev h6 b = iprev h b"
    using h6(5) h5(2) h4(3) dist za by auto
  ultimately show ?thesis using h4 h5 h6 by (intro exI [of _ h4] exI [of _ h5] exI [of _ h6]) simp
qed

lemma retie_items_runs:
  assumes dist: "distinct its" and ne: "its \<noteq> []" and live: "\<forall>a \<in> set its. h a \<noteq> None"
  shows "\<exists>h'. retie_items h its = Inr h' \<and> path (inext h') (Some (hd its)) its None \<and>
    idata h' = idata h \<and> dom h' = dom h \<and> iprev h' (hd its) = Some None \<and>
    (if length its > 2 then iprev h' (its ! 1) = iprev h (its ! 1) \<and> prevs h' (Some (its ! 1)) (drop 2 its)
     else prevs h' None its)"
proof -
  let ?x = "its ! 0" and ?n = "length its"
  define z where "z = its ! (?n - 1)"
  have x: "?x \<in> set its" "hd its = ?x" and z: "z \<in> set its" "last its = z"
    using ne by (auto simp: hd_conv_nth last_conv_nth z_def)
  from store_prev [of h ?x None] live x obtain h1 where
    h1: "store h (Some ?x) (\<lambda>i. i\<lparr>li_prev := None\<rparr>) = Inr h1" "iprev h1 = (iprev h)(?x := Some None)"
      "inext h1 = inext h" "idata h1 = idata h" "dom h1 = dom h" by blast
  have "h1 z \<noteq> None" using h1(5) live z by (auto simp: domIff [symmetric])
  from store_next [of h1 z None, OF this] obtain h2 where
    h2: "store h1 (Some z) (\<lambda>i. i\<lparr>li_next := None\<rparr>) = Inr h2" "inext h2 = (inext h1)(z := Some None)"
      "iprev h2 = iprev h1" "idata h2 = idata h1" "dom h2 = dom h1" by blast
  have lv: "\<forall>a \<in> set its. h2 a \<noteq> None" using h1(5) h2(5) live by (auto simp: domIff [symmetric])
  have "0 < ?n" using ne by simp
  then consider "?n = 1" | "?n = 2" | "?n > 2" by linarith
  then show ?thesis
  proof cases
    case 1
    then obtain a where "its = [a]" by (auto simp: length_Suc_conv)
    then show ?thesis using h1 h2 by (simp add: retie_items_def z_def del: store.simps)
  next
    case 2
    then obtain a b where its: "its = [a, b]" by (auto simp: numeral_2_eq_2 length_Suc_conv)
    from store_next [of h2 a "Some b"] lv its obtain h3 where
      h3: "store h2 (Some a) (\<lambda>i. i\<lparr>li_next := Some b\<rparr>) = Inr h3" "inext h3 = (inext h2)(a := Some (Some b))"
        "iprev h3 = iprev h2" "idata h3 = idata h2" "dom h3 = dom h2" by auto
    have "h3 b \<noteq> None" using h3(5) lv its by (auto simp: domIff [symmetric])
    from store_prev [of h3 b "Some a", OF this] obtain h4 where
      h4: "store h3 (Some b) (\<lambda>i. i\<lparr>li_prev := Some a\<rparr>) = Inr h4" "iprev h4 = (iprev h3)(b := Some (Some a))"
        "inext h4 = inext h3" "idata h4 = idata h3" "dom h4 = dom h3" by blast
    have "retie_items h its = Inr h4"
      using h1(1) h2(1) h3(1) h4(1) its by (simp add: retie_items_def z_def del: store.simps)
    then show ?thesis using dist its h1 h2 h3 h4 by (auto simp: z_def)
  next
    case 3
    then obtain a b cs where its: "its = a # b # cs" and cs: "cs \<noteq> []"
      by (cases its rule: list.exhaust; cases "tl its") auto
    have zl: "z = last cs" "inext h2 z = Some None" using z(2) its cs h2(2) by simp_all
    from retie_long [OF _ cs zl, of a b "Some (its ! (?n - 2))"] dist lv its obtain h4 h5 h6 where
      h4: "store h2 (Some a) (\<lambda>i. i\<lparr>li_next := Some b\<rparr>) = Inr h4"
        "store h4 (Some z) (\<lambda>i. i\<lparr>li_prev := Some (its ! (?n - 2))\<rparr>) = Inr h5" "retie_loop h5 (b # cs) = Inr h6" and
      h6: "path (inext h6) (Some a) (a # b # cs) None" "idata h6 = idata h2" "dom h6 = dom h2"
        "iprev h6 a = iprev h2 a" "iprev h6 b = iprev h2 b" "prevs h6 (Some b) cs" by auto
    have "retie_items h its = Inr h6"
      using h1(1) h2(1) h4 3 its cs by (simp add: retie_items_def z_def del: store.simps)
    then show ?thesis
      using h6 h2(3-5) h1(2,4,5) dist its 3 by auto
  qed
qed

section \<open>The operations keep the invariant\<close>

lemma list_invD:
  assumes "list_inv m l xs"
  shows "path (inext (items m)) (l_head l) xs None" and "distinct xs"
    and "xs \<noteq> [] \<Longrightarrow> l_tail l = Some (last xs)" and "length xs < 2 ^ 32"
    and "unat (l_length l) = length xs" and "l_length l = 0 \<longleftrightarrow> xs = []"
    and "a \<in> set xs \<Longrightarrow> items m a \<noteq> None"
proof -
  show p: "path (inext (items m)) (l_head l) xs None" and len: "length xs < 2 ^ 32"
    using assms by (simp_all add: list_inv_def)
  show "distinct xs" by (rule path_None_distinct [OF p])
  show "xs \<noteq> [] \<Longrightarrow> l_tail l = Some (last xs)" using assms by (simp add: list_inv_def)
  show "a \<in> set xs \<Longrightarrow> items m a \<noteq> None" using path_live [OF p] by (auto simp: inext_def)
  have l: "l_length l = of_nat (length xs)" using assms by (simp add: list_inv_def)
  have "length xs mod 2 ^ 32 = length xs" using len by (rule mod_less)
  then show u: "unat (l_length l) = length xs" unfolding l by (simp add: unat_of_nat take_bit_eq_mod)
  have "l_length l = 0 \<longleftrightarrow> unat (l_length l) = 0" by (simp add: unsigned_eq_0_iff)
  then show "l_length l = 0 \<longleftrightarrow> xs = []" unfolding u by simp
qed

text \<open>The item \<open>a\<close> that stands alone is linked behind the last one.\<close>

lemma append_item:
  assumes p: "path (inext h) p xs None" and ne: "xs \<noteq> []" and d: "distinct xs" and a: "a \<notin> set xs" "inext h a = Some None"
  shows "\<exists>h2 h3. store h (Some (last xs)) (\<lambda>i. i\<lparr>li_next := Some a\<rparr>) = Inr h2 \<and>
    store h2 (Some a) (\<lambda>i. i\<lparr>li_prev := Some (last xs)\<rparr>) = Inr h3 \<and> path (inext h3) p (xs @ [a]) None \<and>
    iprev h3 = (iprev h)(a := Some (Some (last xs))) \<and> idata h3 = idata h \<and> dom h3 = dom h"
proof -
  let ?t = "last xs"
  have t: "?t \<in> set xs" "?t \<noteq> a" using ne a(1) by auto
  have pb: "path (inext h) p (butlast xs) (Some ?t)" "inext h ?t = Some None" using p path_last [OF ne, of "inext h"] by auto
  then have "h ?t \<noteq> None" "h a \<noteq> None" using a(2) by (auto simp: inext_def)
  from store_next [of h ?t "Some a", OF this(1)] obtain h2 where
    h2: "store h (Some ?t) (\<lambda>i. i\<lparr>li_next := Some a\<rparr>) = Inr h2" "inext h2 = (inext h)(?t := Some (Some a))"
      "iprev h2 = iprev h" "idata h2 = idata h" "dom h2 = dom h" by blast
  have "h2 a \<noteq> None" using h2(5) \<open>h a \<noteq> None\<close> by (auto simp: domIff [symmetric])
  from store_prev [of h2 a "Some ?t", OF this] obtain h3 where
    h3: "store h2 (Some a) (\<lambda>i. i\<lparr>li_prev := Some ?t\<rparr>) = Inr h3" "iprev h3 = (iprev h2)(a := Some (Some ?t))"
      "inext h3 = inext h2" "idata h3 = idata h2" "dom h3 = dom h2" by blast
  have "path (inext h3) p (butlast xs) (Some ?t)"
    using pb(1) last_notin_butlast [of xs] d ne by (simp add: h3(3) h2(2))
  moreover have "inext h3 ?t = Some (Some a)" "inext h3 a = Some None"
    using t(2) a(2) by (simp_all add: h3(3) h2(2))
  ultimately have "path (inext h3) p ((butlast xs @ [?t]) @ [a]) None" by auto
  then have "path (inext h3) p (xs @ [a]) None" using ne by simp
  with h2 h3 show ?thesis by (intro exI [of _ h2] exI [of _ h3]) simp
qed

lemma insert_tail_spec:
  assumes inv: "list_inv m l xs" and env: "list_env_good env" and len: "length xs + 1 < 2 ^ 32"
  shows "\<exists>a m' l'. list_insert_tail env m l v = Inr (m', l') \<and> items m a = None \<and>
    list_inv m' l' (xs @ [a]) \<and> objs m' = objs m \<and> idata (items m') = (idata (items m))(a := v) \<and>
    (prevs (items m) None xs \<longrightarrow> prevs (items m') None (xs @ [a])) \<and>
    l_compare l' = l_compare l \<and> l_delete l' = l_delete l \<and>
    dom (items m') = insert a (dom (items m))"
proof -
  note D = list_invD [OF inv]
  from env inv obtain a where a: "malloc_item env (items m) = Some a" "items m a = None"
    unfolding list_env_good_def list_inv_def by blast
  define h1 where "h1 = (items m)(a \<mapsto> list_item_init v)"
  have anew: "a \<notin> set xs" using D(7) a(2) by blast
  have "path (inext (items m)) (l_head l) xs None \<longleftrightarrow> path (inext h1) (l_head l) xs None"
    by (rule path_cong) (use anew in \<open>auto simp: h1_def inext_def\<close>)
  then have p1: "path (inext h1) (l_head l) xs None" using D(1) by simp
  have d1: "idata h1 = (idata (items m))(a := v)"
    by (auto simp: h1_def idata_def list_item_init_def fun_eq_iff)
  have a1: "inext h1 a = Some None" "iprev h1 a = Some None"
    by (simp_all add: h1_def inext_def iprev_def list_item_init_def)
  have b1: "prevs h1 None xs \<longleftrightarrow> prevs (items m) None xs"
    by (rule prevs_cong) (use anew in \<open>auto simp: h1_def iprev_def\<close>)
  have dom1: "dom h1 = insert a (dom (items m))" by (simp add: h1_def)
  have fin: "finite (dom h1)" using inv by (simp add: h1_def list_inv_def)
  have l1: "l_length l + 1 = of_nat (length (xs @ [a]))" using inv by (simp add: list_inv_def)
  show ?thesis
  proof (cases "xs = []")
    case True
    let ?l' = "l\<lparr>l_head := Some a, l_tail := Some a, l_length := l_length l + 1\<rparr>"
    have "list_insert_tail env m l v = Inr (m\<lparr>items := h1\<rparr>, ?l')"
      using a(1) D(6) True by (simp add: list_insert_tail_def h1_def)
    moreover have "list_inv (m\<lparr>items := h1\<rparr>) ?l' [a]"
      using a1(1) fin l1 True by (simp add: list_inv_def)
    ultimately show ?thesis using a(2) d1 a1(2) dom1 True
      by (intro exI [of _ a] exI [of _ "m\<lparr>items := h1\<rparr>"] exI [of _ ?l']) simp
  next
    case False
    have t: "l_tail l = Some (last xs)" using D(3) False by simp
    from append_item [OF p1 False D(2) anew a1(1)] obtain h2 h3 where
      h: "store h1 (Some (last xs)) (\<lambda>i. i\<lparr>li_next := Some a\<rparr>) = Inr h2"
        "store h2 (Some a) (\<lambda>i. i\<lparr>li_prev := Some (last xs)\<rparr>) = Inr h3" "path (inext h3) (l_head l) (xs @ [a]) None"
        "iprev h3 = (iprev h1)(a := Some (Some (last xs)))" "idata h3 = idata h1" "dom h3 = dom h1" by blast
    let ?m' = "m\<lparr>items := h3\<rparr>" and ?l' = "l\<lparr>l_tail := Some a, l_length := l_length l + 1\<rparr>"
    have run: "list_insert_tail env m l v = Inr (?m', ?l')"
      using a(1) D(6) False t h(1,2) by (simp add: list_insert_tail_def h1_def)
    have "prevs h3 None xs \<longleftrightarrow> prevs h1 None xs" by (rule prevs_cong) (use anew in \<open>auto simp: h(4)\<close>)
    then have b3: "prevs (items m) None xs \<longrightarrow> prevs h3 None (xs @ [a])" using b1 False by (simp add: h(4))
    have "list_inv ?m' ?l' (xs @ [a])" using h(3,6) len fin l1 by (simp add: list_inv_def)
    with run a(2) d1 h(5,6) dom1 b3 show ?thesis
      by (intro exI [of _ a] exI [of _ ?m'] exI [of _ ?l']) simp
  qed
qed

lemma of_nat_pred: "(of_nat (Suc n) :: uint32) - 1 = of_nat n"
  by simp

lemma remove_head_spec:
  assumes inv: "list_inv m l (a # xs)" and del: "l_delete l m (Some a) = Inr objs1"
  shows "\<exists>m' l'. list_remove_head m l = Inr (m', l') \<and> list_inv m' l' xs \<and>
    items m' = (items m)(a := None) \<and> objs m' = objs1 \<and>
    l_compare l' = l_compare l \<and> l_delete l' = l_delete l"
proof -
  note D = list_invD [OF inv]
  from D(1) obtain i where i: "l_head l = Some a" "items m a = Some i"
    "path (inext (items m)) (li_next i) xs None"
    by (auto dest!: inext_live)
  let ?h = "(items m)(a := None)"
  let ?m' = "m\<lparr>items := ?h, objs := objs1\<rparr>"
    and ?l' = "l\<lparr>l_length := l_length l - 1, l_head := li_next i\<rparr>"
  have "inext ?h = (inext (items m))(a := None)" by (auto simp: inext_def fun_eq_iff)
  then have "path (inext ?h) (li_next i) xs None" using i(3) D(2) by simp
  moreover have "l_length l - 1 = of_nat (length xs)"
    using inv of_nat_pred [of "length xs"] by (simp add: list_inv_def)
  ultimately have "list_inv ?m' ?l' xs" using inv by (auto simp: list_inv_def)
  moreover have "list_remove_head m l = Inr (?m', ?l')"
    using i del by (simp add: list_remove_head_def)
  ultimately show ?thesis by (intro exI [of _ ?m'] exI [of _ ?l']) simp
qed

lemma remove_head_empty: "list_inv m l [] \<Longrightarrow> list_remove_head m l = Inr (m, l)"
  by (simp add: list_inv_def list_remove_head_def)

lemma length_gt_1:
  assumes "list_inv m l xs"
  shows "l_length l > 1 \<longleftrightarrow> 1 < length xs"
  using list_invD(5) [OF assms] by (simp add: word_less_nat_alt)

text \<open>The first item is linked behind the last one; the second becomes the first.\<close>

lemma rotate_links:
  assumes p: "path (inext h) (Some a) (a # xs) None" and ne: "xs \<noteq> []" and d: "distinct (a # xs)"
  shows "\<exists>h1 h2 h3 h4. store h (Some (hd xs)) (\<lambda>i. i\<lparr>li_prev := None\<rparr>) = Inr h1 \<and>
    store h1 (Some a) (\<lambda>i. i\<lparr>li_prev := Some (last xs)\<rparr>) = Inr h2 \<and>
    store h2 (Some a) (\<lambda>i. i\<lparr>li_next := None\<rparr>) = Inr h3 \<and>
    store h3 (Some (last xs)) (\<lambda>i. i\<lparr>li_next := Some a\<rparr>) = Inr h4 \<and>
    path (inext h4) (Some (hd xs)) (xs @ [a]) None \<and>
    iprev h4 = (iprev h)(hd xs := Some None, a := Some (Some (last xs))) \<and> idata h4 = idata h \<and> dom h4 = dom h"
proof -
  let ?t = "last xs" and ?b = "hd xs"
  have t: "?t \<in> set xs" "?t \<noteq> a" "?b \<in> set xs" using ne d by auto
  have px: "path (inext h) (Some ?b) xs None" using p ne path_nonempty by (cases xs) auto
  have live: "h c \<noteq> None" if "c \<in> set (a # xs)" for c
    using path_live [OF p that] by (auto simp: inext_def)
  from store_prev [of h ?b None, OF live] t(3) obtain h1 where
    h1: "store h (Some ?b) (\<lambda>i. i\<lparr>li_prev := None\<rparr>) = Inr h1" "iprev h1 = (iprev h)(?b := Some None)"
      "inext h1 = inext h" "idata h1 = idata h" "dom h1 = dom h" by auto
  have "h1 a \<noteq> None" using h1(5) live by (auto simp: domIff [symmetric])
  from store_prev [of h1 a "Some ?t", OF this] obtain h2 where
    h2: "store h1 (Some a) (\<lambda>i. i\<lparr>li_prev := Some ?t\<rparr>) = Inr h2" "iprev h2 = (iprev h1)(a := Some (Some ?t))"
      "inext h2 = inext h1" "idata h2 = idata h1" "dom h2 = dom h1" by blast
  have "h2 a \<noteq> None" using h1(5) h2(5) live by (auto simp: domIff [symmetric])
  from store_next [of h2 a None, OF this] obtain h3 where
    h3: "store h2 (Some a) (\<lambda>i. i\<lparr>li_next := None\<rparr>) = Inr h3" "inext h3 = (inext h2)(a := Some None)"
      "iprev h3 = iprev h2" "idata h3 = idata h2" "dom h3 = dom h2" by blast
  have "h3 ?t \<noteq> None" using h1(5) h2(5) h3(5) live t(1) by (auto simp: domIff [symmetric])
  from store_next [of h3 ?t "Some a", OF this] obtain h4 where
    h4: "store h3 (Some ?t) (\<lambda>i. i\<lparr>li_next := Some a\<rparr>) = Inr h4" "inext h4 = (inext h3)(?t := Some (Some a))"
      "iprev h4 = iprev h3" "idata h4 = idata h3" "dom h4 = dom h3" by blast
  have "path (inext h) (Some ?b) (butlast xs) (Some ?t)" using px path_last [OF ne, of "inext h"] by simp
  moreover have "?t \<notin> set (butlast xs)" "a \<notin> set (butlast xs)"
    using last_notin_butlast [of xs] d ne by (auto dest: in_set_butlastD)
  ultimately have "path (inext h4) (Some ?b) (butlast xs) (Some ?t)" by (simp add: h4(2) h3(2) h2(3) h1(3))
  moreover have "inext h4 ?t = Some (Some a)" "inext h4 a = Some None" using t(2) by (simp_all add: h4(2) h3(2))
  ultimately have "path (inext h4) (Some ?b) (xs @ [a]) None"
    using path_last [OF ne, of "inext h4" "Some ?b" "Some a"] by simp
  then show ?thesis using h1 h2 h3 h4
    by (intro exI [of _ h1] exI [of _ h2] exI [of _ h3] exI [of _ h4]) simp
qed

lemma rotate_one_spec:
  assumes inv: "list_inv m l (a # xs)" and ne: "xs \<noteq> []"
  shows "\<exists>m' l'. list_rotate_one m l = Inr (m', l') \<and> list_inv m' l' (xs @ [a]) \<and> objs m' = objs m \<and>
    idata (items m') = idata (items m) \<and> dom (items m') = dom (items m) \<and>
    (prevs (items m) (Some a) xs \<longrightarrow> prevs (items m') None (xs @ [a])) \<and>
    l_compare l' = l_compare l \<and> l_delete l' = l_delete l"
proof -
  note D = list_invD [OF inv]
  obtain b bs where xs: "xs = b # bs" using ne by (cases xs) auto
  from D(1) obtain i where i: "l_head l = Some a" "items m a = Some i" "li_next i = Some b"
    using xs by (auto dest: inext_live)
  from rotate_links [OF D(1) [unfolded i(1)] ne D(2)] obtain h1 h2 h3 h4 where
    h: "store (items m) (Some b) (\<lambda>i. i\<lparr>li_prev := None\<rparr>) = Inr h1"
      "store h1 (Some a) (\<lambda>i. i\<lparr>li_prev := Some (last xs)\<rparr>) = Inr h2" "store h2 (Some a) (\<lambda>i. i\<lparr>li_next := None\<rparr>) = Inr h3"
      "store h3 (Some (last xs)) (\<lambda>i. i\<lparr>li_next := Some a\<rparr>) = Inr h4" and
    h4: "path (inext h4) (Some b) (xs @ [a]) None" "iprev h4 = (iprev (items m))(b := Some None, a := Some (Some (last xs)))"
      "idata h4 = idata (items m)" "dom h4 = dom (items m)" by (auto simp: xs)
  let ?m' = "m\<lparr>items := h4\<rparr>" and ?l' = "l\<lparr>l_head := Some b, l_tail := Some a\<rparr>"
  have "l_length l > 1" "l_tail l = Some (last xs)" using length_gt_1 [OF inv] ne D(3) by simp_all
  then have run: "list_rotate_one m l = Inr (?m', ?l')"
    using i h by (simp add: list_rotate_one_def del: store.simps)
  have "list_inv ?m' ?l' (xs @ [a])" using inv h4(1,4) by (simp add: list_inv_def)
  moreover have "prevs h4 None (xs @ [a])" if "prevs (items m) (Some a) xs"
  proof -
    have "prevs (items m) (Some b) bs" "a \<notin> set xs" "b \<notin> set bs" using that xs D(2) by auto
    then have "prevs h4 (Some b) bs" by (elim prevs_unchanged) (use xs in \<open>auto simp: h4(2)\<close>)
    then show ?thesis using xs \<open>a \<notin> set xs\<close> by (simp add: h4(2))
  qed
  ultimately show ?thesis using run h4(3,4) by (intro exI [of _ ?m'] exI [of _ ?l']) simp
qed

lemma rotate_one_short:
  assumes "list_inv m l xs" and "length xs \<le> 1"
  shows "list_rotate_one m l = Inr (m, l)"
proof -
  have "\<not> l_length l > 1" using length_gt_1 [OF assms(1)] assms(2) by simp
  then show ?thesis by (simp add: list_rotate_one_def)
qed

text \<open>
  A comparison function orders the items by a key of the data they point to, whatever the
  memory; \<open>ok\<close> says which data can be compared.
\<close>

definition compares_by ::
  "('o mem \<Rightarrow> nat \<Rightarrow> nat \<Rightarrow> int res) \<Rightarrow> ('o \<Rightarrow> ptr \<Rightarrow> bool) \<Rightarrow> ('o \<Rightarrow> ptr \<Rightarrow> 'k :: linorder) \<Rightarrow> bool" where
  "compares_by cmp ok key \<longleftrightarrow> (\<forall>m a b. items m a \<noteq> None \<longrightarrow> items m b \<noteq> None \<longrightarrow>
     ok (objs m) (idata (items m) a) \<longrightarrow> ok (objs m) (idata (items m) b) \<longrightarrow>
     (\<exists>x. cmp m a b = Inr x \<and> (x \<le> 0 \<longleftrightarrow> key (objs m) (idata (items m) a) \<le> key (objs m) (idata (items m) b))))"

lemma compares_by_keyed:
  assumes "compares_by cmp ok key"
    and "\<And>a. a \<in> A \<Longrightarrow> items m a \<noteq> None \<and> ok (objs m) (idata (items m) a)"
  shows "keyed_comparison (\<lambda>a b. compare_result (cmp m a b)) (\<lambda>a. key (objs m) (idata (items m) a)) A"
proof
  fix a b assume "a \<in> A" "b \<in> A"
  with assms obtain x where "cmp m a b = Inr x"
    "x \<le> 0 \<longleftrightarrow> key (objs m) (idata (items m) a) \<le> key (objs m) (idata (items m) b)"
    unfolding compares_by_def by blast
  then show "compare_result (cmp m a b) \<le> 0 \<longleftrightarrow>
    key (objs m) (idata (items m) a) \<le> key (objs m) (idata (items m) b)"
    by (simp add: compare_result_def)
qed

lemma compare_pairs_ok:
  assumes "compares_by cmp ok key"
    and "\<And>a. a \<in> set its \<Longrightarrow> items m a \<noteq> None \<and> ok (objs m) (idata (items m) a)"
  shows "compare_pairs (cmp m) its = Inr ()"
proof -
  have "(\<lambda>(a, b). cmp m a b) ab = Inr (compare_result (cmp m (fst ab) (snd ab)))"
    if in_prod: "ab \<in> set (List.product its its)" for ab
  proof -
    obtain a b where ab: "ab = (a, b)" "a \<in> set its" "b \<in> set its" using in_prod by auto
    with assms obtain x where "cmp m a b = Inr x" unfolding compares_by_def by blast
    with ab show ?thesis by (simp add: compare_result_def)
  qed
  then have "mapr (\<lambda>(a, b). cmp m a b) (filter (\<lambda>(a, b). a \<noteq> b) (List.product its its)) =
    Inr (map (\<lambda>ab. compare_result (cmp m (fst ab) (snd ab))) (filter (\<lambda>(a, b). a \<noteq> b) (List.product its its)))"
    by (intro mapr_Inr) (meson filter_is_subset subsetD)
  then show ?thesis by (simp add: compare_pairs_def)
qed

lemma insert_sorted_spec:
  assumes inv: "list_inv m l xs" and env: "list_env_good env" and len: "length xs + 1 < 2 ^ 32"
    and cmp: "compares_by (l_compare l) ok key"
    and ok: "\<forall>b \<in> set xs. ok (objs m) (idata (items m) b)" "ok (objs m) v"
  shows "\<exists>a ys m' l'. list_insert_sorted env m l v = Inr (m', l') \<and> items m a = None \<and>
    mset ys = mset (a # xs) \<and> list_inv m' l' ys \<and> objs m' = objs m \<and>
    idata (items m') = (idata (items m))(a := v) \<and>
    sorted (map (\<lambda>b. key (objs m') (idata (items m') b)) ys) \<and>
    l_compare l' = l_compare l \<and> l_delete l' = l_delete l \<and>
    dom (items m') = insert a (dom (items m)) \<and>
    (prevs (items m) None xs \<longrightarrow> 2 \<le> length xs \<longrightarrow> hd ys = a \<longrightarrow>
       iprev (items m') (ys ! 1) \<noteq> Some (Some a))"
proof -
  from insert_tail_spec [OF inv env len, of v] obtain a m1 l1 where
    t: "list_insert_tail env m l v = Inr (m1, l1)" "items m a = None" "list_inv m1 l1 (xs @ [a])"
      "objs m1 = objs m" "idata (items m1) = (idata (items m))(a := v)"
      "l_compare l1 = l_compare l" "l_delete l1 = l_delete l"
      "prevs (items m) None xs \<longrightarrow> prevs (items m1) None (xs @ [a])"
      "dom (items m1) = insert a (dom (items m))" by blast
  note D = list_invD [OF t(3)]
  have all_ok: "items m1 b \<noteq> None \<and> ok (objs m1) (idata (items m1) b)" if "b \<in> set (xs @ [a])" for b
    using ok D(7) that by (auto simp: t(4,5))
  have kc: "keyed_comparison (\<lambda>a b. compare_result (l_compare l m1 a b))
      (\<lambda>a. key (objs m1) (idata (items m1) a)) (set (xs @ [a]))"
    by (rule compares_by_keyed [OF cmp all_ok])
  have pairs: "compare_pairs (l_compare l m1) (xs @ [a]) = Inr ()"
    by (rule compare_pairs_ok [OF cmp all_ok])
  have qs: "qsort_ok (sort_items env)" using env by (simp add: list_env_good_def)
  define ys where "ys = sort_items env (\<lambda>a b. compare_result (l_compare l m1 a b)) (xs @ [a])"
  have ms: "mset ys = mset (xs @ [a])"
    unfolding ys_def by (rule keyed_comparison.qsort_mset [OF kc qs]) simp
  have sorted: "sorted (map (\<lambda>a. key (objs m1) (idata (items m1) a)) ys)"
    unfolding ys_def by (rule keyed_comparison.qsort_sorted [OF kc qs]) simp
  have set_ys: "set ys = set (xs @ [a])" using mset_eq_setD [OF ms] .
  have ne: "ys \<noteq> []" using set_ys by auto
  have dist: "distinct ys" using mset_eq_imp_distinct_iff [OF ms] D(2) by simp
  have live: "\<forall>b \<in> set ys. items m1 b \<noteq> None" using D(7) set_ys by blast
  have n: "length ys = unat (l_length l1)" "length ys = length (xs @ [a])"
    using mset_eq_length [OF ms] D(5) by simp_all
  from retie_items_runs [OF dist ne live] obtain h where
    h: "retie_items (items m1) ys = Inr h" "path (inext h) (Some (hd ys)) ys None"
      "idata h = idata (items m1)" "dom h = dom (items m1)"
      "if length ys > 2 then iprev h (ys ! 1) = iprev (items m1) (ys ! 1) \<and> prevs h (Some (ys ! 1)) (drop 2 ys)
       else prevs h None ys" by blast
  have backlink: "iprev h (ys ! 1) \<noteq> Some (Some a)"
    if "prevs (items m) None xs" "2 \<le> length xs" "hd ys = a"
  proof -
    have len: "2 < length ys" using n(2) that(2) by simp
    have "ys ! 1 \<noteq> ys ! 0" using dist len nth_eq_iff_index_eq [of ys 1 0] by fastforce
    then have "ys ! 1 \<in> set xs" using that(3) ne set_ys len nth_mem [of 1 ys] by (auto simp: hd_conv_nth)
    then have "iprev (items m1) (ys ! 1) \<noteq> Some (Some a)"
      using prevs_not_last [of "items m1" None xs a "ys ! 1"] t(8) that(1) D(2) by simp
    with h(5) len show ?thesis by simp
  qed
  have "collect_items (items m1) (l_head l1) (unat (l_length l1)) = Inr (xs @ [a])"
    using collect_items_path [OF D(1)] D(5) by simp
  moreover have "unat (l_length l1) \<noteq> 0" using n ne by auto
  moreover have ends: "ys ! 0 = hd ys" "ys ! (unat (l_length l1) - 1) = last ys"
    using ne n(1) by (simp_all add: hd_conv_nth last_conv_nth)
  ultimately have run: "list_insert_sorted env m l v = Inr (m1\<lparr>items := h\<rparr>,
      l1\<lparr>l_head := Some (hd ys), l_tail := Some (last ys)\<rparr>)"
    using t(1,6) h(1) pairs by (simp add: list_insert_sorted_def ys_def [symmetric])
  have "list_inv (m1\<lparr>items := h\<rparr>) (l1\<lparr>l_head := Some (hd ys), l_tail := Some (last ys)\<rparr>) ys"
    using t(3) h(2,4) n(2) by (simp add: list_inv_def)
  with run t sorted h(3,4) ms backlink show ?thesis
    by (intro exI [of _ a] exI [of _ ys] exI [of _ "m1\<lparr>items := h\<rparr>"]
        exI [of _ "l1\<lparr>l_head := Some (hd ys), l_tail := Some (last ys)\<rparr>"]) simp
qed

text \<open>The same for the data of a list of live items, each of which is the data of one item.\<close>

lemma insert_sorted_data:
  assumes inv: "list_inv m l xs" and data: "map (idata (items m)) xs = map Some ds" and dom: "dom (items m) = set xs"
    and env: "list_env_good env" and len: "length ds + 1 < 2 ^ 32" and cmp: "compares_by (l_compare l) ok key"
    and ok: "\<forall>e \<in> set (d # ds). ok (objs m) (Some e)"
  shows "\<exists>ys ds' m' l'. list_insert_sorted env m l (Some d) = Inr (m', l') \<and> list_inv m' l' ys \<and>
    map (idata (items m')) ys = map Some ds' \<and> dom (items m') = set ys \<and> mset ds' = mset (d # ds) \<and>
    objs m' = objs m \<and> sorted (map (\<lambda>e. key (objs m) (Some e)) ds') \<and>
    l_compare l' = l_compare l \<and> l_delete l' = l_delete l"
proof -
  have "length xs + 1 < 2 ^ 32" using len arg_cong [OF data, of length] by simp
  moreover have "\<forall>b \<in> set xs. ok (objs m) (idata (items m) b)"
  proof
    fix b assume "b \<in> set xs"
    then have "idata (items m) b \<in> set (map Some ds)" unfolding data [symmetric] by simp
    with ok show "ok (objs m) (idata (items m) b)" by auto
  qed
  ultimately obtain a ys m' l' where
    r: "list_insert_sorted env m l (Some d) = Inr (m', l')" "items m a = None" "mset ys = mset (a # xs)"
      "list_inv m' l' ys" "objs m' = objs m" "idata (items m') = (idata (items m))(a := Some d)"
      "sorted (map (\<lambda>b. key (objs m') (idata (items m') b)) ys)"
      "l_compare l' = l_compare l" "l_delete l' = l_delete l" "dom (items m') = insert a (dom (items m))"
    using insert_sorted_spec [OF inv env _ cmp, of "Some d"] ok by auto
  define ds' where "ds' = map (\<lambda>b. the (idata (items m') b)) ys"
  have "a \<notin> set xs" using r(2) dom by auto
  then have all: "map (idata (items m')) (a # xs) = map Some (d # ds)" by (simp add: r(6) data)
  have "idata (items m') b \<in> set (map Some (d # ds))" if "b \<in> set ys" for b
    using that mset_eq_setD [OF r(3)] unfolding all [symmetric] by auto
  then have data': "map (idata (items m')) ys = map Some ds'" unfolding ds'_def by fastforce
  have "image_mset Some (mset ds') = image_mset Some (mset (d # ds))"
    using arg_cong [OF r(3), of "image_mset (idata (items m'))"]
    by (simp only: data' all mset_map [symmetric])
  then have "mset ds' = mset (d # ds)"
    by (auto dest!: arg_cong [of _ _ "image_mset the"] simp: multiset.map_comp comp_def)
  moreover have "map (\<lambda>b. key (objs m') (idata (items m') b)) ys = map (\<lambda>e. key (objs m) (Some e)) ds'"
    using arg_cong [OF data', of "map (key (objs m'))"] by (simp add: comp_def r(5))
  moreover have "dom (items m') = set ys" using r(10) dom mset_eq_setD [OF r(3)] by simp
  ultimately show ?thesis using r(1,4,5,7,8,9) data' by metis
qed

section \<open>Visiting and cleaning up\<close>

lemma visit_items_spec: "list_inv m l xs \<Longrightarrow> list_visit_items m l = Some (Inr xs)"
  using visit_loop_path [of "items m" "l_head l" xs "[]"] list_invD(1)
  by (auto simp: list_visit_items_def)

section \<open>The queue the list implements\<close>

text \<open>
  What a client relies on: \<open>holds s xs ds\<close> says that the state \<open>s\<close> holds the data \<open>ds\<close> in
  this order, in the items \<open>xs\<close>; \<open>nodes s\<close> are the items allocated in all, \<open>objects s\<close>
  the memory of the data; \<open>cap\<close> bounds the number of items.
\<close>

locale queue =
  fixes holds :: "'s \<Rightarrow> nat list \<Rightarrow> 'd list \<Rightarrow> bool" and nodes :: "'s \<Rightarrow> nat set"
    and objects :: "'s \<Rightarrow> 'd \<rightharpoonup> 'v"
    and insert_tail :: "'s \<Rightarrow> 'd \<Rightarrow> 's res" and remove_head :: "'s \<Rightarrow> 's res"
    and rotate_one :: "'s \<Rightarrow> 's res" and cap :: nat
  assumes same_length: "holds s xs ds \<Longrightarrow> length xs = length ds"
    and insert_ok: "holds s xs ds \<Longrightarrow> objects s d \<noteq> None \<Longrightarrow> d \<notin> set ds \<Longrightarrow> length ds < cap \<Longrightarrow>
      \<exists>a s'. insert_tail s d = Inr s' \<and> a \<notin> nodes s \<and> holds s' (xs @ [a]) (ds @ [d]) \<and>
        nodes s' = insert a (nodes s) \<and> objects s' = objects s"
    and remove_ok: "holds s (x # xs) (d # ds) \<Longrightarrow> \<exists>s'. remove_head s = Inr s' \<and> holds s' xs ds \<and>
      nodes s' = nodes s - {x} \<and> objects s' = (objects s)(d := None)"
    and remove_empty: "holds s [] [] \<Longrightarrow> remove_head s = Inr s"
    and rotate_ok: "holds s xs ds \<Longrightarrow> \<exists>s'. rotate_one s = Inr s' \<and> holds s' (rotate1 xs) (rotate1 ds) \<and>
      nodes s' = nodes s \<and> objects s' = objects s"
begin

lemma rotate_many:
  "holds s xs ds \<Longrightarrow> \<exists>s'. repeat_step rotate_one k s = Inr s' \<and> holds s' (rotate k xs) (rotate k ds) \<and>
    nodes s' = nodes s \<and> objects s' = objects s"
proof (induction k arbitrary: s xs ds)
  case (Suc k)
  from rotate_ok [OF Suc.prems] obtain s1 where "rotate_one s = Inr s1"
    "holds s1 (rotate1 xs) (rotate1 ds)" "nodes s1 = nodes s" "objects s1 = objects s" by blast
  with Suc.IH [of s1 "rotate1 xs" "rotate1 ds"] show ?case by (auto simp: rotate1_rotate_swap)
qed simp

lemma remove_many:
  "holds s xs ds \<Longrightarrow> \<exists>s'. repeat_step remove_head k s = Inr s' \<and> holds s' (drop k xs) (drop k ds) \<and>
    nodes s' = nodes s - set (take k xs) \<and> objects s' = objects s |` (- set (take k ds))"
proof (induction k arbitrary: s xs ds)
  case (Suc k)
  show ?case
  proof (cases ds)
    case Nil
    then have "xs = []" using same_length [OF Suc.prems] by simp
    with Nil Suc.IH [OF Suc.prems] remove_empty [of s] Suc.prems show ?thesis by auto
  next
    case (Cons d es)
    then obtain x ys where xs: "xs = x # ys" using same_length [OF Suc.prems] by (cases xs) auto
    with Cons remove_ok [of s x ys d es] Suc.prems obtain s1 where
      s1: "remove_head s = Inr s1" "holds s1 ys es" "nodes s1 = nodes s - {x}"
        "objects s1 = (objects s)(d := None)" by blast
    from Suc.IH [OF s1(2)] obtain s' where s': "repeat_step remove_head k s1 = Inr s'"
      "holds s' (drop k ys) (drop k es)" "nodes s' = nodes s1 - set (take k ys)"
      "objects s' = objects s1 |` (- set (take k es))" by blast
    have "objects s' = objects s |` (- set (take (Suc k) ds))"
      using Cons s1(4) s'(4) by (auto simp: restrict_map_def fun_eq_iff)
    moreover have "nodes s' = nodes s - set (take (Suc k) xs)" using xs s1(3) s'(3) by auto
    ultimately show ?thesis using s1(1) s'(1,2) Cons xs by (intro exI [of _ s']) simp
  qed
qed (simp add: restrict_map_def)

lemma insert_many:
  "holds s xs ds \<Longrightarrow> distinct (ds @ es) \<Longrightarrow> \<forall>d \<in> set es. objects s d \<noteq> None \<Longrightarrow> length ds + length es \<le> cap \<Longrightarrow>
   \<exists>as s'. foldl (\<lambda>r d. bindr r (\<lambda>s. insert_tail s d)) (Inr s) es = Inr s' \<and> holds s' (xs @ as) (ds @ es) \<and>
     set as \<inter> nodes s = {} \<and> nodes s' = nodes s \<union> set as \<and> objects s' = objects s"
proof (induction es arbitrary: s xs ds)
  case Nil
  then show ?case by (intro exI [of _ "[]"]) simp
next
  case (Cons e es)
  then obtain a s1 where s1: "insert_tail s e = Inr s1" "holds s1 (xs @ [a]) (ds @ [e])" "a \<notin> nodes s"
    "nodes s1 = insert a (nodes s)" "objects s1 = objects s"
    using insert_ok [of s xs ds e] by auto
  have "distinct ((ds @ [e]) @ es)" "\<forall>d \<in> set es. objects s1 d \<noteq> None" "length (ds @ [e]) + length es \<le> cap"
    using Cons.prems(2-4) s1(5) by auto
  from Cons.IH [OF s1(2) this] obtain as s' where
    "foldl (\<lambda>r d. bindr r (\<lambda>s. insert_tail s d)) (Inr s1) es = Inr s'" "holds s' ((xs @ [a]) @ as) ((ds @ [e]) @ es)"
    "set as \<inter> nodes s1 = {}" "nodes s' = nodes s1 \<union> set as" "objects s' = objects s1" by blast
  with s1 show ?case by (intro exI [of _ "a # as"]) auto
qed

end

text \<open>
  \<open>data_delete\<close> of both programs frees the object an item points to: \<open>string_data_delete\<close> of
  Asmt_1 and \<open>thread_data_delete\<close> of Asmt_3. Memory of objects maps addresses to objects.
\<close>

definition string_data_delete :: "(nat \<rightharpoonup> 'v) mem \<Rightarrow> ptr \<Rightarrow> (nat \<rightharpoonup> 'v) res" where
  "string_data_delete m item = bindr (load (items m) item) (\<lambda>i. free_ptr (objs m) (li_data i))"

text \<open>
  The list holds distinct live objects \<open>ds\<close>, in the items \<open>xs\<close>, and deletes them when they
  are removed.
\<close>

definition list_queue :: "(nat \<rightharpoonup> 'v) mem \<times> (nat \<rightharpoonup> 'v) list_t \<Rightarrow> nat list \<Rightarrow> nat list \<Rightarrow> bool" where
  "list_queue s xs ds \<longleftrightarrow> list_inv (fst s) (snd s) xs \<and> map (idata (items (fst s))) xs = map Some ds \<and>
     distinct ds \<and> (\<forall>d \<in> set ds. objs (fst s) d \<noteq> None) \<and> l_delete (snd s) = string_data_delete"

definition list_holds :: "(nat \<rightharpoonup> 'v) mem \<times> (nat \<rightharpoonup> 'v) list_t \<Rightarrow> nat list \<Rightarrow> bool" where
  "list_holds s ds \<longleftrightarrow> (\<exists>xs. list_inv (fst s) (snd s) xs \<and> map (idata (items (fst s))) xs = map Some ds) \<and>
     distinct ds \<and> (\<forall>d \<in> set ds. objs (fst s) d \<noteq> None) \<and> l_delete (snd s) = string_data_delete"

definition object_live :: "(nat \<rightharpoonup> 'v) mem \<times> (nat \<rightharpoonup> 'v) list_t \<Rightarrow> nat \<Rightarrow> bool" where
  "object_live s d \<longleftrightarrow> objs (fst s) d \<noteq> None"

text \<open>The operations on the data of a list.\<close>

lemma insert_tail_data:
  assumes "list_inv m l xs" and "map (idata (items m)) xs = map Some ds" and "list_env_good env" and "length ds + 1 < 2 ^ 32"
  shows "\<exists>a m' l'. list_insert_tail env m l (Some d) = Inr (m', l') \<and> list_inv m' l' (xs @ [a]) \<and>
    map (idata (items m')) (xs @ [a]) = map Some (ds @ [d]) \<and> dom (items m') = insert a (dom (items m)) \<and>
    items m a = None \<and> objs m' = objs m \<and> l_compare l' = l_compare l \<and> l_delete l' = l_delete l"
proof -
  have "length xs + 1 < 2 ^ 32" using assms(4) arg_cong [OF assms(2), of length] by simp
  from insert_tail_spec [OF assms(1,3) this, of "Some d"] obtain a m' l' where
    r: "list_insert_tail env m l (Some d) = Inr (m', l')" "items m a = None" "list_inv m' l' (xs @ [a])" "objs m' = objs m"
      "idata (items m') = (idata (items m))(a := Some d)" "l_compare l' = l_compare l" "l_delete l' = l_delete l"
      "dom (items m') = insert a (dom (items m))" by blast
  have "a \<notin> set xs" using list_invD(7) [OF assms(1)] r(2) by blast
  then have "map (idata (items m')) (xs @ [a]) = map Some (ds @ [d])" using assms(2) by (simp add: r(5))
  with r show ?thesis by blast
qed

lemma remove_head_data:
  assumes "list_inv m l (a # xs)" and "map (idata (items m)) (a # xs) = map Some (d # ds)"
    and "l_delete l = string_data_delete" and "objs m d \<noteq> None"
  shows "\<exists>m' l'. list_remove_head m l = Inr (m', l') \<and> list_inv m' l' xs \<and>
    map (idata (items m')) xs = map Some ds \<and> dom (items m') = dom (items m) - {a} \<and>
    objs m' = (objs m)(d := None) \<and> l_compare l' = l_compare l \<and> l_delete l' = l_delete l"
proof -
  note D = list_invD [OF assms(1)]
  from D(7) [of a] obtain i where i: "items m a = Some i" by auto
  then have "li_data i = Some d" using assms(2) by (simp add: idata_def)
  then have "l_delete l m (Some a) = Inr ((objs m)(d := None))"
    using assms(3,4) i by (simp add: string_data_delete_def)
  from remove_head_spec [OF assms(1) this] obtain m' l' where
    r: "list_remove_head m l = Inr (m', l')" "list_inv m' l' xs" "items m' = (items m)(a := None)"
      "objs m' = (objs m)(d := None)" "l_compare l' = l_compare l" "l_delete l' = l_delete l" by blast
  have "idata (items m') b = idata (items m) b" if "b \<in> set xs" for b
    using that D(2) by (auto simp: r(3) idata_def)
  then have "map (idata (items m')) xs = map Some ds" using assms(2) by (simp cong: map_cong)
  with r show ?thesis by auto
qed

lemma rotate_one_data:
  assumes "list_inv m l xs" and "map (idata (items m)) xs = map Some ds"
  shows "\<exists>m' l'. list_rotate_one m l = Inr (m', l') \<and> list_inv m' l' (rotate1 xs) \<and>
    map (idata (items m')) (rotate1 xs) = map Some (rotate1 ds) \<and> dom (items m') = dom (items m) \<and>
    objs m' = objs m \<and> l_compare l' = l_compare l \<and> l_delete l' = l_delete l"
proof (cases "length xs \<le> 1")
  case True
  then have "rotate1 xs = xs" "rotate1 ds = ds"
    using arg_cong [OF assms(2), of length] by (cases xs; cases ds; auto)+
  with rotate_one_short [OF assms(1) True] assms show ?thesis by (intro exI [of _ m] exI [of _ l]) simp
next
  case False
  then obtain a ys where xs: "xs = a # ys" "ys \<noteq> []" by (cases xs) auto
  with assms(2) have "rotate1 ds \<noteq> []" by auto
  from rotate_one_spec [OF assms(1) [unfolded xs(1)] xs(2)] obtain m' l' where
    r: "list_rotate_one m l = Inr (m', l')" "list_inv m' l' (ys @ [a])" "objs m' = objs m" "idata (items m') = idata (items m)"
      "dom (items m') = dom (items m)" "l_compare l' = l_compare l" "l_delete l' = l_delete l" by blast
  have "map (idata (items m')) (rotate1 xs) = map Some (rotate1 ds)" using assms(2) by (simp add: r(4) rotate1_map [symmetric])
  with r xs(1) show ?thesis by simp
qed

lemma list_queue_insert:
  assumes "list_env_good env" and "list_queue s xs ds" and "objs (fst s) d \<noteq> None" and "d \<notin> set ds"
    and "length ds < 2 ^ 32 - 1"
  shows "\<exists>a s'. list_insert_tail env (fst s) (snd s) (Some d) = Inr s' \<and> a \<notin> dom (items (fst s)) \<and>
    list_queue s' (xs @ [a]) (ds @ [d]) \<and> dom (items (fst s')) = insert a (dom (items (fst s))) \<and>
    objs (fst s') = objs (fst s)"
proof -
  note q = assms(2) [unfolded list_queue_def]
  have "length ds + 1 < 2 ^ 32" using assms(5) by simp
  from insert_tail_data [of "fst s" "snd s" xs ds env d] q assms(1) this obtain a m' l' where
    r: "list_insert_tail env (fst s) (snd s) (Some d) = Inr (m', l')" "list_inv m' l' (xs @ [a])"
      "items (fst s) a = None"
      "map (idata (items m')) (xs @ [a]) = map Some (ds @ [d])" "objs m' = objs (fst s)" "l_delete l' = l_delete (snd s)"
      "dom (items m') = insert a (dom (items (fst s)))"
    by blast
  then have "list_queue (m', l') (xs @ [a]) (ds @ [d])"
    using q assms(3,4) by (auto simp: list_queue_def simp del: map_append)
  with r(1,3,5,7) show ?thesis by (intro exI [of _ a] exI [of _ "(m', l')"]) auto
qed

lemma list_queue_remove:
  assumes "list_queue s (a # xs) (d # ds)"
  shows "\<exists>s'. list_remove_head (fst s) (snd s) = Inr s' \<and> list_queue s' xs ds \<and>
    dom (items (fst s')) = dom (items (fst s)) - {a} \<and> objs (fst s') = (objs (fst s))(d := None)"
proof -
  note q = assms [unfolded list_queue_def]
  from remove_head_data [of "fst s" "snd s" a xs d ds] q obtain m' l' where
    r: "list_remove_head (fst s) (snd s) = Inr (m', l')" "list_inv m' l' xs" "map (idata (items m')) xs = map Some ds"
      "dom (items m') = dom (items (fst s)) - {a}"
      "objs m' = (objs (fst s))(d := None)" "l_delete l' = l_delete (snd s)" by auto
  then have "list_queue (m', l') xs ds" using q by (auto simp: list_queue_def)
  with r(1,4,5) show ?thesis by (intro exI [of _ "(m', l')"]) simp
qed

lemma list_queue_rotate:
  assumes "list_queue s xs ds"
  shows "\<exists>s'. list_rotate_one (fst s) (snd s) = Inr s' \<and> list_queue s' (rotate1 xs) (rotate1 ds) \<and>
    dom (items (fst s')) = dom (items (fst s)) \<and> objs (fst s') = objs (fst s)"
proof -
  note q = assms [unfolded list_queue_def]
  from rotate_one_data [of "fst s" "snd s" xs ds] q obtain m' l' where
    r: "list_rotate_one (fst s) (snd s) = Inr (m', l')" "list_inv m' l' (rotate1 xs)"
      "map (idata (items m')) (rotate1 xs) = map Some (rotate1 ds)" "dom (items m') = dom (items (fst s))"
      "objs m' = objs (fst s)" "l_delete l' = l_delete (snd s)" by blast
  then have "list_queue (m', l') (rotate1 xs) (rotate1 ds)" using q by (auto simp: list_queue_def)
  with r(1,4,5) show ?thesis by (intro exI [of _ "(m', l')"]) simp
qed

lemma list_queue_empty: "list_queue s [] [] \<Longrightarrow> list_remove_head (fst s) (snd s) = Inr s"
  using remove_head_empty [of "fst s" "snd s"] by (auto simp: list_queue_def)

lemma list_queue_length: "list_queue s xs ds \<Longrightarrow> length xs = length ds"
  by (auto simp: list_queue_def dest: map_eq_imp_length_eq)

interpretation lq: queue "\<lambda>s xs ds. list_env_good env \<and> list_queue s xs ds" "\<lambda>s. dom (items (fst s))"
    "\<lambda>s. objs (fst s)" "\<lambda>s d. list_insert_tail env (fst s) (snd s) (Some d)"
    "\<lambda>s. list_remove_head (fst s) (snd s)" "\<lambda>s. list_rotate_one (fst s) (snd s)" "2 ^ 32 - 1" for env
  by (unfold_locales, use list_queue_length in blast, use list_queue_insert [of env] in blast,
    use list_queue_remove in blast, use list_queue_empty in blast, use list_queue_rotate in blast)

lemma list_holds_queue: "list_holds s ds \<longleftrightarrow> (\<exists>xs. list_queue s xs ds)"
  by (auto simp: list_holds_def list_queue_def)

text \<open>The same without the items, for the cooperative threads.\<close>

lemma list_holds_insert:
  assumes "list_env_good env" and "list_holds s ds" and "object_live s d" and "d \<notin> set ds"
    and "length ds < 2 ^ 32 - 1"
  shows "\<exists>s'. list_insert_tail env (fst s) (snd s) (Some d) = Inr s' \<and> list_holds s' (ds @ [d]) \<and>
    object_live s' = object_live s \<and> objs (fst s') = objs (fst s)"
proof -
  from assms(2) obtain xs where "list_env_good env \<and> list_queue s xs ds"
    using assms(1) by (auto simp: list_holds_queue)
  from lq.insert_ok [OF this _ assms(4,5)] assms(3) show ?thesis
    by (fastforce simp: list_holds_queue object_live_def)
qed

lemma list_holds_remove:
  assumes "list_holds s (d # ds)"
  shows "\<exists>s'. list_remove_head (fst s) (snd s) = Inr s' \<and> list_holds s' ds \<and>
    object_live s' = (object_live s)(d := False) \<and> objs (fst s') = (objs (fst s))(d := None)"
proof -
  from assms obtain ys where "list_queue s ys (d # ds)" by (auto simp: list_holds_queue)
  moreover from this obtain a xs where "ys = a # xs" by (cases ys) (auto dest: list_queue_length)
  ultimately have "list_queue s (a # xs) (d # ds)" by simp
  from list_queue_remove [OF this] show ?thesis
    by (fastforce simp: list_holds_queue object_live_def fun_eq_iff)
qed

lemma list_holds_rotate:
  assumes "list_holds s ds"
  shows "\<exists>s'. list_rotate_one (fst s) (snd s) = Inr s' \<and> list_holds s' (rotate1 ds) \<and>
    object_live s' = object_live s \<and> objs (fst s') = objs (fst s)"
proof -
  from assms obtain xs where "list_queue s xs ds" by (auto simp: list_holds_queue)
  from list_queue_rotate [OF this] show ?thesis by (fastforce simp: list_holds_queue object_live_def)
qed

end
