(* ===== verification/CoThread.thy ===== *)
theory CoThread imports ListT begin

text \<open>
  The cooperative threads of Asmt_3 (uthread.c, thread_t.c): the threads are the data of one list,
  \<open>thread_queue\<close>, whose head is the running thread. A yield rotates the list; the priority
  given to \<open>uthread_create\<close> is stored but never used. The names of the functions carry a
  suffix, as Asmt_4 has functions of the same names.
\<close>

section \<open>State\<close>

datatype thread_context = Unset | Saved | Entry nat int

record thread_t =
  ucp :: thread_context
  t_pri :: int
  t_id :: int

type_synonym thread_objs = "nat \<rightharpoonup> thread_t"

record co_state =
  co_mem :: "thread_objs mem"
  thread_queue :: "thread_objs list_t"
  thread_id :: int

record co_env =
  list_env_of :: list_env
  malloc_thread_t :: "thread_objs \<Rightarrow> ptr"

definition thread_data_delete :: "thread_objs mem \<Rightarrow> ptr \<Rightarrow> thread_objs res" where
  "thread_data_delete m item = bindr (load (items m) item) (\<lambda>i. free_ptr (objs m) (li_data i))"

definition thread_compare_pri :: "thread_objs mem \<Rightarrow> nat \<Rightarrow> nat \<Rightarrow> int res" where
  "thread_compare_pri m key other =
     bindr (load (items m) (Some key)) (\<lambda>arg1.
     bindr (load (items m) (Some other)) (\<lambda>arg2.
     bindr (load (objs m) (li_data arg1)) (\<lambda>t1.
     bindr (load (objs m) (li_data arg2)) (\<lambda>t2.
     c_int (t_pri t1 - t_pri t2)))))"

definition thread_init :: "int \<Rightarrow> int \<Rightarrow> thread_t" where
  "thread_init pri tid = \<lparr>ucp = Unset, t_pri = pri, t_id = tid\<rparr>"

section \<open>Operations\<close>

text \<open>\<open>thread_init\<close> into fresh memory and \<open>list_insert_tail\<close>; the context is set on the way.\<close>

definition uthread_init_3 :: "co_env \<Rightarrow> co_state \<Rightarrow> co_state res" where
  "uthread_init_3 env s =
     (let q = list_init thread_compare_pri thread_data_delete in
      case malloc_thread_t env (objs (co_mem s)) of
        None \<Rightarrow> Inl Null_Deref
      | Some new_thread \<Rightarrow>
          let m1 = (co_mem s)\<lparr>objs := (objs (co_mem s))(new_thread \<mapsto> thread_init 0 0)\<rparr> in
          bindr (list_insert_tail (list_env_of env) m1 q (Some new_thread)) (\<lambda>(m2, q2).
          bindr (store (objs m2) (Some new_thread) (\<lambda>t. t\<lparr>ucp := Saved\<rparr>)) (\<lambda>o3.
          Inr (s\<lparr>co_mem := m2\<lparr>objs := o3\<rparr>, thread_queue := q2, thread_id := 1\<rparr>))))"

definition uthread_create_3 :: "co_env \<Rightarrow> co_state \<Rightarrow> nat \<Rightarrow> int \<Rightarrow> int \<Rightarrow> (int \<times> co_state) res" where
  "uthread_create_3 env s func val pri =
     (case malloc_thread_t env (objs (co_mem s)) of
        None \<Rightarrow> Inl Null_Deref
      | Some new_thread \<Rightarrow>
          let t = (thread_init pri (thread_id s))\<lparr>ucp := Entry func val\<rparr> in
          bindr (c_int (thread_id s + 1)) (\<lambda>tid.
          let m1 = (co_mem s)\<lparr>objs := (objs (co_mem s))(new_thread \<mapsto> t)\<rparr> in
          bindr (list_insert_tail (list_env_of env) m1 (thread_queue s) (Some new_thread)) (\<lambda>(m2, q2).
          Inr (tid - 1, s\<lparr>co_mem := m2, thread_queue := q2, thread_id := tid\<rparr>))))"

text \<open>The thread object that an item points to.\<close>

definition item_thread :: "thread_objs mem \<Rightarrow> ptr \<Rightarrow> ptr res" where
  "item_thread m p = bindr (load (items m) p) (\<lambda>i. Inr (li_data i))"

definition uthread_yield_3 :: "co_state \<Rightarrow> co_state res" where
  "uthread_yield_3 s =
     (if l_length (thread_queue s) > 1 then
        bindr (item_thread (co_mem s) (l_head (thread_queue s))) (\<lambda>cur_thread.
        bindr (list_rotate_one (co_mem s) (thread_queue s)) (\<lambda>(m1, q1).
        bindr (item_thread m1 (l_head q1)) (\<lambda>new_thread.
        bindr (store (objs m1) cur_thread (\<lambda>t. t\<lparr>ucp := Saved\<rparr>)) (\<lambda>o2.
        bindr (load o2 new_thread) (\<lambda>t.
        Inr (s\<lparr>co_mem := m1\<lparr>objs := o2\<rparr>, thread_queue := q1\<rparr>))))))
      else Inr s)"

text \<open>
  One turn of the loop of \<open>uthread_handler\<close>; \<open>setcontext\<close> to another thread leaves it, and
  when no thread is left the function returns, which ends the process.
\<close>

definition uthread_handler_3 :: "co_state \<Rightarrow> co_state res" where
  "uthread_handler_3 s =
     bindr (list_remove_head (co_mem s) (thread_queue s)) (\<lambda>(m1, q1).
     if l_length q1 \<ge> 1 then
       bindr (item_thread m1 (l_head q1)) (\<lambda>head_thread.
       bindr (load (objs m1) head_thread) (\<lambda>t.
       Inr (s\<lparr>co_mem := m1, thread_queue := q1\<rparr>)))
     else Inl (Exit 0))"

definition uthread_exit_3 :: "co_state \<Rightarrow> co_state res" where
  "uthread_exit_3 s = uthread_handler_3 s"

section \<open>The invariant\<close>

text \<open>The threads in the order of the queue; the first one runs.\<close>

definition co_inv :: "co_state \<Rightarrow> nat list \<Rightarrow> bool" where
  "co_inv s ds \<longleftrightarrow> ds \<noteq> [] \<and> list_holds (co_mem s, thread_queue s) ds \<and>
     finite (dom (objs (co_mem s)))"

definition co_env_good :: "co_env \<Rightarrow> bool" where
  "co_env_good env \<longleftrightarrow> list_env_good (list_env_of env) \<and>
     (\<forall>h. finite (dom h) \<longrightarrow> (\<exists>a. malloc_thread_t env h = Some a \<and> h a = None))"

text \<open>The priority of the thread that a \<open>data\<close> pointer names, and when two can be subtracted.\<close>

definition thread_pri :: "thread_objs \<Rightarrow> ptr \<Rightarrow> int" where
  "thread_pri h p = (case p of None \<Rightarrow> 0 | Some d \<Rightarrow> (case h d of None \<Rightarrow> 0 | Some t \<Rightarrow> t_pri t))"

definition thread_ok :: "thread_objs \<Rightarrow> ptr \<Rightarrow> bool" where
  "thread_ok h p \<longleftrightarrow> (\<exists>d t. p = Some d \<and> h d = Some t \<and> \<bar>t_pri t\<bar> < 2 ^ 30)"

lemma thread_compares_by: "compares_by thread_compare_pri thread_ok thread_pri"
  unfolding compares_by_def
  by (auto simp: thread_ok_def thread_pri_def thread_compare_pri_def idata_def c_int_def int32_ok_def)

lemma thread_data_delete_eq: "thread_data_delete = string_data_delete"
  by (simp add: fun_eq_iff thread_data_delete_def string_data_delete_def)

lemma list_holds_objs:
  assumes "list_holds (m, q) ds" and "\<And>d. d \<in> set ds \<Longrightarrow> h d \<noteq> None"
  shows "list_holds (m\<lparr>objs := h\<rparr>, q) ds"
  using assms by (auto simp: list_holds_def list_inv_def)

text \<open>The head of the list is the first thread.\<close>

lemma head_thread_of:
  assumes "list_holds (m, q) (d # ds)"
  shows "item_thread m (l_head q) = Inr (Some d)" and "objs m d \<noteq> None"
    and "l_length q \<ge> 1"
proof -
  from assms obtain a xs where xs: "list_inv m q (a # xs)" "idata (items m) a = Some d"
    by (auto simp: list_holds_def map_eq_Cons_conv)
  from list_invD(1) [OF xs(1)] obtain i where "l_head q = Some a" "items m a = Some i"
    by (auto dest!: inext_live)
  with xs(2) show "item_thread m (l_head q) = Inr (Some d)" by (simp add: item_thread_def idata_def)
  show "objs m d \<noteq> None" using assms by (simp add: list_holds_def)
  show "l_length q \<ge> 1" using list_invD(5) [OF xs(1)] by (simp add: word_le_nat_alt)
qed

lemma queue_length:
  assumes "list_holds (m, q) ds"
  shows "l_length q > 1 \<longleftrightarrow> 1 < length ds" and "l_length q \<ge> 1 \<longleftrightarrow> ds \<noteq> []"
proof -
  from assms obtain xs where xs: "list_inv m q xs" "length ds = length xs"
    by (auto simp: list_holds_def dest: map_eq_imp_length_eq)
  show "l_length q > 1 \<longleftrightarrow> 1 < length ds" using length_gt_1 [OF xs(1)] xs(2) by simp
  have "l_length q \<ge> 1 \<longleftrightarrow> 0 < length ds"
    using list_invD(5) [OF xs(1)] xs(2) by (simp add: word_le_nat_alt Suc_le_eq)
  then show "l_length q \<ge> 1 \<longleftrightarrow> ds \<noteq> []" by simp
qed

lemma co_yield_spec:
  assumes "co_inv s ds"
  shows "\<exists>s'. uthread_yield_3 s = Inr s' \<and> co_inv s' (rotate1 ds) \<and> thread_id s' = thread_id s"
proof -
  let ?m = "co_mem s" and ?q = "thread_queue s"
  have h: "list_holds (?m, ?q) ds" and fin: "finite (dom (objs ?m))" and ne: "ds \<noteq> []"
    using assms by (simp_all add: co_inv_def)
  show ?thesis
  proof (cases "1 < length ds")
    case False
    then have "length ds = 1" using ne by (cases ds) auto
    then have "rotate1 ds = ds" by (auto simp: length_Suc_conv)
    moreover have "uthread_yield_3 s = Inr s"
      using queue_length(1) [OF h] False by (simp add: uthread_yield_3_def)
    ultimately show ?thesis using assms by simp
  next
    case True
    then obtain d e es where ds: "ds = d # e # es" by (cases ds; cases "tl ds") auto
    from list_holds_rotate [OF h] obtain m1 q1 where
      r: "list_rotate_one ?m ?q = Inr (m1, q1)" "list_holds (m1, q1) (e # es @ [d])"
        "object_live (m1, q1) = object_live (?m, ?q)"
      using ds by auto
    have "objs m1 d \<noteq> None" using r(2) by (simp add: list_holds_def)
    then obtain t where t: "objs m1 d = Some t" by auto
    define o2 where "o2 = (objs m1)(d \<mapsto> t\<lparr>ucp := Saved\<rparr>)"
    have live: "o2 x \<noteq> None \<longleftrightarrow> objs m1 x \<noteq> None" for x using t by (simp add: o2_def)
    have "o2 e \<noteq> None" using head_thread_of(2) [OF r(2)] live by blast
    then have "uthread_yield_3 s = Inr (s\<lparr>co_mem := m1\<lparr>objs := o2\<rparr>, thread_queue := q1\<rparr>)"
      using head_thread_of(1) [OF h [unfolded ds]] head_thread_of(1) [OF r(2)] r(1) t True
        queue_length(1) [OF h]
      by (auto simp: uthread_yield_3_def o2_def [symmetric])
    moreover have "list_holds (m1\<lparr>objs := o2\<rparr>, q1) (rotate1 ds)"
    proof -
      have "o2 x \<noteq> None" if "x \<in> set (e # es @ [d])" for x
        using r(2) that unfolding live list_holds_def by auto
      from list_holds_objs [OF r(2), of o2] this show ?thesis using ds by simp
    qed
    moreover have "dom o2 = dom (objs ?m)"
      using r(3) t by (auto simp: o2_def object_live_def fun_eq_iff dom_def)
    ultimately show ?thesis using fin ds by (simp add: co_inv_def)
  qed
qed

interpretation coop: cyclic_yield uthread_yield_3 "\<lambda>s i. co_inv s (rotate i ds)" "length ds" for ds
proof
  fix s i assume "co_inv s (rotate i ds)" "i < length ds"
  then show "\<exists>s'. uthread_yield_3 s = Inr s' \<and> co_inv s' (rotate (Suc i mod length ds) ds)"
    using co_yield_spec [of s "rotate i ds"] by (metis rotate_Suc rotate_conv_mod)
qed

lemma co_exit_spec:
  assumes "co_inv s (d # ds)" and "ds \<noteq> []"
  shows "\<exists>s'. uthread_exit_3 s = Inr s' \<and> co_inv s' ds \<and> thread_id s' = thread_id s \<and>
    objs (co_mem s') = (objs (co_mem s))(d := None)"
proof -
  have h: "list_holds (co_mem s, thread_queue s) (d # ds)" "finite (dom (objs (co_mem s)))"
    using assms(1) by (simp_all add: co_inv_def)
  from list_holds_remove [OF h(1)] obtain m1 q1 where
    r: "list_remove_head (co_mem s) (thread_queue s) = Inr (m1, q1)" "list_holds (m1, q1) ds"
      "objs m1 = (objs (co_mem s))(d := None)" by auto
  obtain e es where ds: "ds = e # es" using assms(2) by (cases ds) auto
  note hd = head_thread_of [OF r(2) [unfolded ds]]
  then have "uthread_exit_3 s = Inr (s\<lparr>co_mem := m1, thread_queue := q1\<rparr>)"
    using r(1) by (auto simp: uthread_exit_3_def uthread_handler_3_def)
  moreover have "co_inv (s\<lparr>co_mem := m1, thread_queue := q1\<rparr>) ds"
    using r h(2) assms(2) by (simp add: co_inv_def)
  ultimately show ?thesis using r(3) by simp
qed

lemma co_exit_last:
  assumes "co_inv s [d]"
  shows "uthread_exit_3 s = Inl (Exit 0)"
proof -
  have "list_holds (co_mem s, thread_queue s) [d]" using assms by (simp add: co_inv_def)
  from list_holds_remove [OF this] obtain m1 q1 where
    "list_remove_head (co_mem s) (thread_queue s) = Inr (m1, q1)" "list_holds (m1, q1) []" by auto
  with queue_length(2) [of m1 q1 "[]"] show ?thesis
    by (simp add: uthread_exit_3_def uthread_handler_3_def)
qed

lemma co_create_spec:
  assumes "co_inv s ds" and "co_env_good env" and "length ds < 2 ^ 32 - 1"
    and "int32_ok (thread_id s + 1)"
  shows "\<exists>d s'. uthread_create_3 env s func val pri = Inr (thread_id s, s') \<and>
    malloc_thread_t env (objs (co_mem s)) = Some d \<and> objs (co_mem s) d = None \<and> co_inv s' (ds @ [d]) \<and> thread_id s' = thread_id s + 1 \<and>
    objs (co_mem s') = (objs (co_mem s))(d \<mapsto> \<lparr>ucp = Entry func val, t_pri = pri, t_id = thread_id s\<rparr>)"
proof -
  let ?m = "co_mem s" and ?q = "thread_queue s"
  have h: "list_holds (?m, ?q) ds" "finite (dom (objs ?m))" "ds \<noteq> []"
    using assms(1) by (simp_all add: co_inv_def)
  from assms(2) h(2) obtain d where d: "malloc_thread_t env (objs ?m) = Some d" "objs ?m d = None"
    unfolding co_env_good_def by blast
  define t where "t = \<lparr>ucp = Entry func val, t_pri = pri, t_id = thread_id s\<rparr>"
  define m1 where "m1 = ?m\<lparr>objs := (objs ?m)(d \<mapsto> t)\<rparr>"
  have live: "objs ?m e \<noteq> None" if "e \<in> set ds" for e using h(1) that by (simp add: list_holds_def)
  then have dnew: "d \<notin> set ds" using d(2) by blast
  have "list_holds (m1, ?q) ds" unfolding m1_def
    by (rule list_holds_objs [OF h(1)]) (use live in auto)
  moreover have "object_live (m1, ?q) d" by (simp add: object_live_def m1_def)
  moreover have "list_env_good (list_env_of env)" using assms(2) by (simp add: co_env_good_def)
  ultimately obtain m2 q2 where
    r: "list_insert_tail (list_env_of env) m1 ?q (Some d) = Inr (m2, q2)" "list_holds (m2, q2) (ds @ [d])"
      "objs m2 = objs m1"
    using list_holds_insert [of "list_env_of env" "(m1, ?q)" ds d] dnew assms(3) by auto
  let ?s' = "s\<lparr>co_mem := m2, thread_queue := q2, thread_id := thread_id s + 1\<rparr>"
  have "uthread_create_3 env s func val pri = Inr (thread_id s, ?s')"
    using d(1) assms(4) r(1) by (simp add: uthread_create_3_def thread_init_def m1_def t_def)
  moreover have "co_inv ?s' (ds @ [d])" using r(2,3) h(2) by (simp add: co_inv_def m1_def)
  ultimately show ?thesis using d r(3)
    by (intro exI [of _ d] exI [of _ ?s']) (simp add: m1_def t_def)
qed

end
