(* ===== verification/ListProps.thy ===== *)
theory ListProps imports CoThread begin

text \<open>
  The properties of the list of Asmt_1 and Asmt_3 and of the cooperative threads of Asmt_3, with
  witnesses on a list of two threads.
\<close>

section \<open>Example objects\<close>

definition ex_list_env :: list_env where
  "ex_list_env = \<lparr>malloc_item = fresh_address, sort_items = insertion_sort\<rparr>"

lemma ex_list_env_good: "list_env_good ex_list_env"
  by (simp add: list_env_good_def ex_list_env_def fresh_address_free insertion_sort_ok)

definition ex_co_env :: co_env where
  "ex_co_env = \<lparr>list_env_of = ex_list_env, malloc_thread_t = fresh_address\<rparr>"

lemma ex_co_env_good: "co_env_good ex_co_env"
  by (simp add: co_env_good_def ex_co_env_def ex_list_env_good fresh_address_free)

text \<open>Two items at 11 and 12, with the threads 21 and 22 of priorities 3 and 5 as data.\<close>

definition ex_mem :: "thread_objs mem" where
  "ex_mem = \<lparr>items = [11 \<mapsto> \<lparr>li_prev = None, li_next = Some 12, li_data = Some 21\<rparr>,
       12 \<mapsto> \<lparr>li_prev = Some 11, li_next = None, li_data = Some 22\<rparr>],
     objs = [21 \<mapsto> \<lparr>ucp = Saved, t_pri = 3, t_id = 0\<rparr>, 22 \<mapsto> \<lparr>ucp = Entry 5 0, t_pri = 5, t_id = 1\<rparr>,
       23 \<mapsto> \<lparr>ucp = Entry 6 0, t_pri = 1, t_id = 2\<rparr>]\<rparr>"

definition ex_list :: "thread_objs list_t" where
  "ex_list = (list_init thread_compare_pri thread_data_delete)
     \<lparr>l_head := Some 11, l_tail := Some 12, l_length := 2\<rparr>"

lemma ex_list_inv: "list_inv ex_mem ex_list [11, 12]"
  by (simp add: list_inv_def ex_mem_def ex_list_def inext_def)

lemma ex_list_prevs: "prevs (items ex_mem) None [11, 12]"
  by (simp add: ex_mem_def iprev_def)

lemma ex_list_holds: "list_holds (ex_mem, ex_list) [21, 22]"
proof -
  have "map (idata (items ex_mem)) [11, 12] = map Some [21, 22]" by (simp add: ex_mem_def idata_def)
  with ex_list_inv show ?thesis unfolding list_holds_def
    by (auto simp: ex_list_def list_init_def thread_data_delete_eq ex_mem_def)
qed

lemma ex_list_compare: "compares_by (l_compare ex_list) thread_ok thread_pri"
  using thread_compares_by by (simp add: ex_list_def list_init_def)

lemma ex_list_ok: "\<forall>b \<in> set [11, 12]. thread_ok (objs ex_mem) (idata (items ex_mem) b)"
    "thread_ok (objs ex_mem) (Some 23)"
  by (simp_all add: thread_ok_def ex_mem_def idata_def)

definition ex_co :: co_state where
  "ex_co = \<lparr>co_mem = ex_mem, thread_queue = ex_list, thread_id = 2\<rparr>"

lemma ex_co_inv: "co_inv ex_co [21, 22]"
  using ex_list_holds by (simp add: co_inv_def ex_co_def ex_mem_def)

section \<open>The list\<close>

text \<open>
  \<open>list_insert_tail\<close> appends: it adds one item at the end that carries the given data, keeps
  the items before it in their order with their data, keeps the list linked in both
  directions, and \<open>list_visit_items\<close> then visits all of them, the new one last.
\<close>

theorem insert_tail_appends:
  assumes "list_inv m l xs" and "list_env_good env" and "length xs + 1 < 2 ^ 32"
    and "prevs (items m) None xs"
  shows "\<exists>a m' l'. list_insert_tail env m l v = Inr (m', l') \<and> items m a = None \<and>
    list_inv m' l' (xs @ [a]) \<and> prevs (items m') None (xs @ [a]) \<and>
    idata (items m') = (idata (items m))(a := v) \<and> objs m' = objs m \<and>
    list_visit_items m' l' = Some (Inr (xs @ [a]))"
  using insert_tail_spec [OF assms(1-3), of v] assms(4) visit_items_spec by blast

theorem insert_tail_appends_witness:
  "\<exists>a m' l'. list_insert_tail ex_list_env ex_mem ex_list (Some 23) = Inr (m', l') \<and>
    list_visit_items m' l' = Some (Inr [11, 12, a]) \<and> prevs (items m') None [11, 12, a]"
  using insert_tail_appends [OF ex_list_inv ex_list_env_good _ ex_list_prevs, of "Some 23"] by auto

text \<open>
  C20. \<open>list_insert_sorted\<close> keeps a list sorted: for a comparison that orders the items by a key of
  their data and does not fail on the data at hand, the list afterwards holds exactly the old items and a new one for the given
  data, linked forward in ascending order of the keys, with head, tail and length to match.
\<close>

theorem insert_sorted_sorts:
  assumes "list_inv m l xs" and "list_env_good env" and "length xs + 1 < 2 ^ 32"
    and "compares_by (l_compare l) ok key"
    and "\<forall>b \<in> set xs. ok (objs m) (idata (items m) b)" and "ok (objs m) v"
  shows "\<exists>a ys m' l'. list_insert_sorted env m l v = Inr (m', l') \<and> items m a = None \<and>
    mset ys = mset (a # xs) \<and> list_inv m' l' ys \<and>
    idata (items m') = (idata (items m))(a := v) \<and> objs m' = objs m \<and>
    sorted (map (\<lambda>b. key (objs m') (idata (items m') b)) ys) \<and>
    list_visit_items m' l' = Some (Inr ys)"
  using insert_sorted_spec [OF assms] visit_items_spec by blast

theorem insert_sorted_sorts_witness:
  "\<exists>a ys m' l'. list_insert_sorted ex_list_env ex_mem ex_list (Some 23) = Inr (m', l') \<and>
    mset ys = mset [a, 11, 12] \<and> sorted (map (\<lambda>b. thread_pri (objs m') (idata (items m') b)) ys)"
  using insert_sorted_sorts [where ok = thread_ok and key = thread_pri, OF ex_list_inv ex_list_env_good _ ex_list_compare ex_list_ok] by auto

text \<open>
  The backward links break: when the data inserted by \<open>list_insert_sorted\<close> into a list of
  at least two items comes first, the item after it does not point back to it (the loop that
  reties the pointers never sets the \<open>prev\<close> of the second item).
\<close>

theorem insert_sorted_breaks_prev:
  assumes "list_inv m l xs" and "list_env_good env" and "length xs + 1 < 2 ^ 32"
    and "compares_by (l_compare l) ok key"
    and "\<forall>b \<in> set xs. ok (objs m) (idata (items m) b)" and "ok (objs m) v"
    and "2 \<le> length xs" and "prevs (items m) None xs"
    and "\<forall>b \<in> set xs. key (objs m) v < key (objs m) (idata (items m) b)"
  shows "\<exists>ys m' l'. list_insert_sorted env m l v = Inr (m', l') \<and> list_inv m' l' ys \<and>
    iprev (items m') (ys ! 1) \<noteq> Some (Some (ys ! 0)) \<and> \<not> prevs (items m') None ys"
proof -
  from insert_sorted_spec [OF assms(1-6)] obtain a ys m' l' where
    r: "list_insert_sorted env m l v = Inr (m', l')" "items m a = None" "mset ys = mset (a # xs)"
      "list_inv m' l' ys" "objs m' = objs m" "idata (items m') = (idata (items m))(a := v)"
      "sorted (map (\<lambda>b. key (objs m') (idata (items m') b)) ys)"
      "hd ys = a \<longrightarrow> iprev (items m') (ys ! 1) \<noteq> Some (Some a)"
    using assms(7,8) by blast
  have set_ys: "set ys = insert a (set xs)" using mset_eq_setD [OF r(3)] by simp
  obtain y ys' where ys: "ys = y # ys'" using set_ys by (cases ys) auto
  have "y = a"
  proof (rule ccontr)
    assume "y \<noteq> a"
    then have "y \<in> set xs" "a \<in> set ys'" using set_ys ys by auto
    then have "key (objs m) v < key (objs m) (idata (items m) y)" using assms(9) by blast
    moreover have "key (objs m) (idata (items m') y) \<le> key (objs m) (idata (items m') a)"
      using r(5,7) ys \<open>a \<in> set ys'\<close> by simp
    ultimately show False using \<open>y \<noteq> a\<close> by (simp add: r(6))
  qed
  moreover obtain z zs where "ys' = z # zs"
    using mset_eq_length [OF r(3)] assms(7) ys by (cases ys') auto
  ultimately show ?thesis using r(1,4,8) ys by (intro exI [of _ ys] exI [of _ m'] exI [of _ l']) simp
qed

theorem insert_sorted_breaks_prev_witness:
  "\<exists>ys m' l'. list_insert_sorted ex_list_env ex_mem ex_list (Some 23) = Inr (m', l') \<and>
    list_inv m' l' ys \<and> \<not> prevs (items m') None ys"
proof -
  have "\<forall>b \<in> set [11, 12]. thread_pri (objs ex_mem) (Some 23) < thread_pri (objs ex_mem) (idata (items ex_mem) b)"
    by (simp add: ex_mem_def thread_pri_def idata_def)
  moreover have "length [11, 12 :: nat] + 1 < 2 ^ 32" "2 \<le> length [11, 12 :: nat]" by simp_all
  ultimately show ?thesis
    using insert_sorted_breaks_prev [where ok = thread_ok and key = thread_pri, OF ex_list_inv ex_list_env_good _ ex_list_compare ex_list_ok _ ex_list_prevs]
    by blast
qed

text \<open>
  C21. The list is a queue, down to its memory, when \<open>malloc\<close> finds a free address and the list
  holds different objects that exist: inserting further ones at the tail puts them behind the
  items there, each in a newly allocated item, and touches no object; \<open>k\<close> calls of
  \<open>list_rotate_one\<close> rotate the items by \<open>k\<close> places, and allocate and free nothing; \<open>k\<close>
  calls of \<open>list_remove_head\<close> drop the first \<open>k\<close> items, in any state, also beyond the end of
  the list: exactly these items are freed, and of the objects exactly theirs are deleted by
  \<open>data_delete\<close>.
\<close>

theorem list_is_queue:
  assumes "list_inv m l xs" and "map (idata (items m)) xs = map Some ds" and "list_env_good env"
    and "distinct (ds @ es)" and "\<forall>d \<in> set (ds @ es). objs m d \<noteq> None"
    and "l_delete l = string_data_delete" and "length (ds @ es) < 2 ^ 32"
  shows "(\<exists>as m' l'. foldl (\<lambda>r d. bindr r (\<lambda>s. list_insert_tail env (fst s) (snd s) (Some d))) (Inr (m, l)) es =
        Inr (m', l') \<and> list_inv m' l' (xs @ as) \<and> map (idata (items m')) (xs @ as) = map Some (ds @ es) \<and>
      set as \<inter> dom (items m) = {} \<and> dom (items m') = dom (items m) \<union> set as \<and> objs m' = objs m) \<and>
    (\<exists>m' l'. repeat_step (\<lambda>s. list_rotate_one (fst s) (snd s)) k (m, l) = Inr (m', l') \<and>
      list_inv m' l' (rotate k xs) \<and> map (idata (items m')) (rotate k xs) = map Some (rotate k ds) \<and>
      dom (items m') = dom (items m) \<and> objs m' = objs m) \<and>
    (\<exists>m' l'. repeat_step (\<lambda>s. list_remove_head (fst s) (snd s)) k (m, l) = Inr (m', l') \<and>
      list_inv m' l' (drop k xs) \<and> map (idata (items m')) (drop k xs) = map Some (drop k ds) \<and>
      dom (items m') = dom (items m) - set (take k xs) \<and> objs m' = objs m |` (- set (take k ds)))"
proof -
  have q: "list_env_good env \<and> list_queue (m, l) xs ds" using assms by (simp add: list_queue_def)
  have e: "\<forall>d \<in> set es. objs (fst (m, l)) d \<noteq> None" "length ds + length es \<le> 2 ^ 32 - 1"
    using assms(5,7) by auto
  show ?thesis
    using lq.insert_many [OF q assms(4) e] lq.rotate_many [OF q, of k] lq.remove_many [OF q, of k]
    by (simp only: list_queue_def split_paired_Ex fst_conv snd_conv) blast
qed

theorem list_is_queue_witness:
  "(\<exists>a m' l'. list_insert_tail ex_list_env ex_mem ex_list (Some 23) = Inr (m', l') \<and>
      list_inv m' l' [11, 12, a] \<and> map (idata (items m')) [11, 12, a] = map Some [21, 22, 23]) \<and>
   (\<exists>m' l'. list_rotate_one ex_mem ex_list = Inr (m', l') \<and> list_inv m' l' [12, 11]) \<and>
   (\<exists>m' l'. list_remove_head ex_mem ex_list = Inr (m', l') \<and> list_inv m' l' [12] \<and>
      dom (items m') = {12} \<and> dom (objs m') = {22, 23})"
proof -
  have d: "map (idata (items ex_mem)) [11, 12] = map Some [21, 22]" by (simp add: ex_mem_def idata_def)
  have "l_delete ex_list = string_data_delete" "\<forall>d \<in> set ([21, 22] @ [23]). objs ex_mem d \<noteq> None"
    by (simp_all add: ex_list_def list_init_def thread_data_delete_eq ex_mem_def)
  note q = list_is_queue [OF ex_list_inv d ex_list_env_good _ this(2,1), of 1]
  have f: "dom (items ex_mem) - {11} = {12}" "dom (objs ex_mem |` (- {21})) = {22, 23}"
    by (auto simp: ex_mem_def)
  from q obtain as m' l' where "list_insert_tail ex_list_env ex_mem ex_list (Some 23) = Inr (m', l')"
    "list_inv m' l' ([11, 12] @ as)" "map (idata (items m')) ([11, 12] @ as) = map Some [21, 22, 23]" by auto
  moreover from this(3) obtain a where "as = [a]" by (cases as) auto
  ultimately have "\<exists>a m' l'. list_insert_tail ex_list_env ex_mem ex_list (Some 23) = Inr (m', l') \<and>
      list_inv m' l' [11, 12, a] \<and> map (idata (items m')) [11, 12, a] = map Some [21, 22, 23]"
    by (intro exI [of _ a] exI [of _ m'] exI [of _ l']) simp
  moreover have "\<exists>m' l'. list_rotate_one ex_mem ex_list = Inr (m', l') \<and> list_inv m' l' [12, 11]"
    using q by (auto simp: bindr_eq_Inr)
  moreover from q obtain m' l' where "list_remove_head ex_mem ex_list = Inr (m', l')" "list_inv m' l' [12]"
    "dom (items m') = dom (items ex_mem) - {11}" "objs m' = objs ex_mem |` (- {21})" by (auto simp: bindr_eq_Inr)
  then have "\<exists>m' l'. list_remove_head ex_mem ex_list = Inr (m', l') \<and> list_inv m' l' [12] \<and>
      dom (items m') = {12} \<and> dom (objs m') = {22, 23}"
    by (intro exI [of _ m'] exI [of _ l']) (simp only: f)
  ultimately show ?thesis by blast
qed

section \<open>Cooperative threads\<close>

text \<open>
  Round robin: the \<open>k\<close>th yield runs the thread \<open>k\<close> places further in the queue, whatever the
  priorities, so every thread runs again within as many yields as there are threads.
\<close>

theorem cooperative_round_robin:
  assumes "co_inv s ds"
  shows "(\<exists>s'. repeat_step uthread_yield_3 k s = Inr s' \<and> co_inv s' (rotate k ds)) \<and>
    (\<forall>j. j < length ds \<longrightarrow> (\<exists>k < length ds. \<exists>s' es. repeat_step uthread_yield_3 k s = Inr s' \<and>
      co_inv s' (ds ! j # es)))"
proof -
  have ne: "ds \<noteq> []" and at: "co_inv s (rotate 0 ds)" using assms by (simp_all add: co_inv_def)
  have "0 < length ds" using ne by simp
  note cycle = coop.yields_cycle [of s 0 ds, OF at this]
    and reach = coop.yields_reach [of s 0 ds, OF at this]
  have "\<exists>s'. repeat_step uthread_yield_3 k s = Inr s' \<and> co_inv s' (rotate k ds)"
    using cycle [of k] by (auto simp: rotate_conv_mod [of k])
  moreover have "\<exists>k < length ds. \<exists>s' es. repeat_step uthread_yield_3 k s = Inr s' \<and> co_inv s' (ds ! j # es)"
    if j: "j < length ds" for j
  proof -
    have "rotate j ds = ds ! j # (drop (Suc j) ds @ take j ds)"
      using j by (simp add: rotate_drop_take Cons_nth_drop_Suc)
    with reach [OF j] show ?thesis by metis
  qed
  ultimately show ?thesis by blast
qed

theorem cooperative_round_robin_witness:
  "\<exists>s'. repeat_step uthread_yield_3 5 ex_co = Inr s' \<and> co_inv s' [22, 21]"
proof -
  have "rotate 5 [21, 22 :: nat] = [22, 21]" by (simp add: rotate_conv_mod [of 5] eval_nat_numeral)
  with cooperative_round_robin [OF ex_co_inv, of 5] show ?thesis by simp
qed

text \<open>
  Creating and leaving: \<open>uthread_create\<close> returns the next id and puts the new thread at the end
  of the queue; \<open>uthread_exit\<close> frees the running thread and runs the next one in the queue,
  and ends the process with status 0 when it was the last.
\<close>

theorem cooperative_create_exit:
  assumes "co_inv s (d # ds)" and "co_env_good env" and "length ds < 2 ^ 32 - 2"
    and "int32_ok (thread_id s + 1)"
  shows "(\<exists>e s'. uthread_create_3 env s func val pri = Inr (thread_id s, s') \<and>
      co_inv s' (d # ds @ [e]) \<and> thread_id s' = thread_id s + 1 \<and>
      objs (co_mem s') = (objs (co_mem s))(e \<mapsto> \<lparr>ucp = Entry func val, t_pri = pri, t_id = thread_id s\<rparr>)) \<and>
    (if ds = [] then uthread_exit_3 s = Inl (Exit 0)
     else \<exists>s'. uthread_exit_3 s = Inr s' \<and> co_inv s' ds \<and> objs (co_mem s') = (objs (co_mem s))(d := None))"
  using co_create_spec [OF assms(1,2) _ assms(4), of func val pri] assms(3)
    co_exit_spec [OF assms(1)] co_exit_last [of s d] assms(1) by auto

theorem cooperative_create_exit_witness:
  "(\<exists>e s'. uthread_create_3 ex_co_env ex_co 7 8 0 = Inr (2, s') \<and> co_inv s' [21, 22, e]) \<and>
   (\<exists>s'. uthread_exit_3 ex_co = Inr s' \<and> co_inv s' [22])"
proof -
  have "thread_id ex_co = 2" "int32_ok (thread_id ex_co + 1)" by (simp_all add: ex_co_def int32_ok_def)
  with cooperative_create_exit [OF ex_co_inv ex_co_env_good, of 7 8 0] show ?thesis by auto
qed

end

