(* ===== verification/ListTyped.thy ===== *)
theory ListTyped imports ListProps begin

text \<open>
  A typing of the programs that use the list: whoever inserts an object hands it over to the list, which frees it when
  its item is removed. Programs that insert only what they own, each object once, never fail, and
  nothing leaks.
\<close>

section \<open>Programs and their typing\<close>

datatype list_op = Insert_Tail nat | Insert_Sorted nat | Remove_Head | Rotate_One

primrec list_apply :: "list_env \<Rightarrow> list_op \<Rightarrow> 'o mem \<times> 'o list_t \<Rightarrow> ('o mem \<times> 'o list_t) res" where
  "list_apply env (Insert_Tail d) s = list_insert_tail env (fst s) (snd s) (Some d)"
| "list_apply env (Insert_Sorted d) s = list_insert_sorted env (fst s) (snd s) (Some d)"
| "list_apply env Remove_Head s = list_remove_head (fst s) (snd s)"
| "list_apply env Rotate_One s = list_rotate_one (fst s) (snd s)"

primrec list_run :: "list_env \<Rightarrow> list_op list \<Rightarrow> 'o mem \<times> 'o list_t \<Rightarrow> ('o mem \<times> 'o list_t) res" where
  "list_run env [] s = Inr s"
| "list_run env (c # cs) s = bindr (list_apply env c s) (list_run env cs)"

text \<open>\<open>op_type own c\<close>: what the caller who owns \<open>own\<close> still owns after \<open>c\<close>, if it may do \<open>c\<close>.\<close>

primrec op_type :: "nat set \<Rightarrow> list_op \<Rightarrow> nat set option" where
  "op_type own (Insert_Tail d) = (if d \<in> own then Some (own - {d}) else None)"
| "op_type own (Insert_Sorted d) = (if d \<in> own then Some (own - {d}) else None)"
| "op_type own Remove_Head = Some own"
| "op_type own Rotate_One = Some own"

primrec ops_type :: "nat set \<Rightarrow> list_op list \<Rightarrow> nat set option" where
  "ops_type own [] = Some own"
| "ops_type own (c # cs) = (case op_type own c of None \<Rightarrow> None | Some own' \<Rightarrow> ops_type own' cs)"

definition data_ok :: "('v \<Rightarrow> bool) \<Rightarrow> (nat \<rightharpoonup> 'v) \<Rightarrow> ptr \<Rightarrow> bool" where
  "data_ok good h p \<longleftrightarrow> (\<exists>d v. p = Some d \<and> h d = Some v \<and> good v)"

text \<open>
  A typed state: the heap of items is the items of the list, the heap of objects those of the list
  and those of the caller, which are different, all of good values.
\<close>

definition list_typed ::
  "('v \<Rightarrow> bool) \<Rightarrow> (nat \<rightharpoonup> 'v) mem \<times> (nat \<rightharpoonup> 'v) list_t \<Rightarrow> nat set \<Rightarrow> nat list \<Rightarrow> bool" where
  "list_typed good s own ds \<longleftrightarrow>
     (\<exists>xs. list_inv (fst s) (snd s) xs \<and> map (idata (items (fst s))) xs = map Some ds \<and> dom (items (fst s)) = set xs) \<and>
     distinct ds \<and> set ds \<inter> own = {} \<and> dom (objs (fst s)) = set ds \<union> own \<and> ran (objs (fst s)) \<subseteq> Collect good \<and>
     l_delete (snd s) = string_data_delete"

lemma list_typedE:
  assumes "list_typed good s own ds"
  obtains xs where "list_inv (fst s) (snd s) xs" "map (idata (items (fst s))) xs = map Some ds"
    "dom (items (fst s)) = set xs" "length xs = length ds"
  using assms unfolding list_typed_def by (metis length_map)

lemma list_typedI:
  assumes "list_inv m l xs" and "map (idata (items m)) xs = map Some ds" and "dom (items m) = set xs"
    and "distinct ds" and "set ds \<inter> own = {}" and "dom (objs m) = set ds \<union> own" and "ran (objs m) \<subseteq> Collect good"
    and "l_delete l = string_data_delete"
  shows "list_typed good (m, l) own ds"
  using assms unfolding list_typed_def fst_conv snd_conv by blast

lemma list_typedD:
  assumes "list_typed good s own ds"
  shows "distinct ds" and "set ds \<inter> own = {}" and "dom (objs (fst s)) = set ds \<union> own"
    and "ran (objs (fst s)) \<subseteq> Collect good" and "l_delete (snd s) = string_data_delete"
  using assms unfolding list_typed_def by blast+

lemma list_typed_data_ok:
  assumes "list_typed good s own ds" and "d \<in> set ds \<union> own"
  shows "data_ok good (objs (fst s)) (Some d)"
proof -
  have "d \<in> dom (objs (fst s))" using assms by (simp add: list_typed_def)
  then obtain v where v: "objs (fst s) d = Some v" by blast
  then have "good v" using assms(1) by (auto simp: list_typed_def ran_def)
  with v show ?thesis by (simp add: data_ok_def)
qed

section \<open>Every operation keeps the typing\<close>

lemma typed_insert_tail:
  assumes "list_env_good env" and "list_typed good s own ds" and "d \<in> own" and "length ds + 1 < 2 ^ 32"
  shows "\<exists>s'. list_apply env (Insert_Tail d) s = Inr s' \<and> list_typed good s' (own - {d}) (ds @ [d]) \<and>
    l_compare (snd s') = l_compare (snd s)"
proof -
  from list_typedE [OF assms(2)] obtain xs where xs: "list_inv (fst s) (snd s) xs"
    "map (idata (items (fst s))) xs = map Some ds" "dom (items (fst s)) = set xs" .
  from insert_tail_data [OF xs(1,2) assms(1,4), of d] obtain a m' l' where
    r: "list_insert_tail env (fst s) (snd s) (Some d) = Inr (m', l')" "list_inv m' l' (xs @ [a])"
      "map (idata (items m')) (xs @ [a]) = map Some (ds @ [d])" "dom (items m') = insert a (dom (items (fst s)))"
      "objs m' = objs (fst s)" "l_compare l' = l_compare (snd s)" "l_delete l' = l_delete (snd s)" by blast
  then have "list_typed good (m', l') (own - {d}) (ds @ [d])"
    using xs(3) list_typedD [OF assms(2)] assms(3) by (intro list_typedI [OF r(2,3)]) auto
  with r(1,6) show ?thesis by auto
qed

lemma typed_insert_sorted:
  assumes "list_env_good env" and "list_typed good s own ds" and "d \<in> own" and "length ds + 1 < 2 ^ 32"
    and "compares_by (l_compare (snd s)) (data_ok good) key"
  shows "\<exists>s' ds'. list_apply env (Insert_Sorted d) s = Inr s' \<and> list_typed good s' (own - {d}) ds' \<and>
    mset ds' = mset (d # ds) \<and> sorted (map (\<lambda>e. key (objs (fst s')) (Some e)) ds') \<and>
    l_compare (snd s') = l_compare (snd s)"
proof -
  from list_typedE [OF assms(2)] obtain xs where xs: "list_inv (fst s) (snd s) xs"
    "map (idata (items (fst s))) xs = map Some ds" "dom (items (fst s)) = set xs" .
  have "\<forall>e \<in> set (d # ds). data_ok good (objs (fst s)) (Some e)"
    using list_typed_data_ok [OF assms(2)] assms(3) by auto
  from insert_sorted_data [where ok = "data_ok good" and d = d, OF xs assms(1,4,5) this] obtain ys ds' m' l' where
    r: "list_insert_sorted env (fst s) (snd s) (Some d) = Inr (m', l')" "list_inv m' l' ys"
      "map (idata (items m')) ys = map Some ds'" "dom (items m') = set ys" "mset ds' = mset (d # ds)"
      "objs m' = objs (fst s)" "sorted (map (\<lambda>e. key (objs (fst s)) (Some e)) ds')"
      "l_compare l' = l_compare (snd s)" "l_delete l' = l_delete (snd s)" by blast
  have "distinct ds'" using mset_eq_imp_distinct_iff [OF r(5)] list_typedD(1,2) [OF assms(2)] assms(3) by auto
  moreover have "set ds' = insert d (set ds)" using mset_eq_setD [OF r(5)] by simp
  ultimately have "list_typed good (m', l') (own - {d}) ds'"
    using r(2-4) list_typedD [OF assms(2)] assms(3) by (intro list_typedI) (auto simp: r(6,9))
  with r(1,5-8) show ?thesis by fastforce
qed

lemma typed_remove_head:
  assumes "list_typed good s own ds"
  shows "\<exists>s'. list_apply env Remove_Head s = Inr s' \<and> list_typed good s' own (tl ds) \<and>
    l_compare (snd s') = l_compare (snd s)"
proof (cases ds)
  case Nil
  from list_typedE [OF assms] obtain xs where "list_inv (fst s) (snd s) xs" "length xs = length ds" .
  with Nil remove_head_empty have "list_remove_head (fst s) (snd s) = Inr s" by fastforce
  with assms Nil show ?thesis by auto
next
  case (Cons d es)
  from list_typedE [OF assms] obtain ys where ys: "list_inv (fst s) (snd s) ys" "length ys = length ds"
    "map (idata (items (fst s))) ys = map Some ds" "dom (items (fst s)) = set ys" .
  with Cons obtain a xs where a: "ys = a # xs" by (cases ys) auto
  note xs = ys [unfolded a Cons]
  have "objs (fst s) d \<noteq> None" using list_typedD(3) [OF assms] Cons by auto
  from remove_head_data [OF xs(1,3) list_typedD(5) [OF assms] this] obtain m' l' where
    r: "list_remove_head (fst s) (snd s) = Inr (m', l')" "list_inv m' l' xs" "map (idata (items m')) xs = map Some es"
      "dom (items m') = dom (items (fst s)) - {a}" "objs m' = (objs (fst s))(d := None)"
      "l_compare l' = l_compare (snd s)" "l_delete l' = l_delete (snd s)" by blast
  have "dom (items m') = set xs" using xs(4) r(4) list_invD(2) [OF xs(1)] by auto
  moreover have "ran (objs m') \<subseteq> ran (objs (fst s))" by (auto simp: r(5) ran_def)
  moreover have "dom (objs m') = set es \<union> own" using list_typedD(1-3) [OF assms] Cons by (auto simp: r(5))
  ultimately have "list_typed good (m', l') own es"
    using list_typedD [OF assms] Cons by (intro list_typedI [OF r(2,3)]) (auto simp: r(7))
  with r(1,6) Cons show ?thesis by auto
qed

lemma typed_rotate_one:
  assumes "list_typed good s own ds"
  shows "\<exists>s'. list_apply env Rotate_One s = Inr s' \<and> list_typed good s' own (rotate1 ds) \<and>
    l_compare (snd s') = l_compare (snd s)"
proof -
  from list_typedE [OF assms] obtain xs where xs: "list_inv (fst s) (snd s) xs"
    "map (idata (items (fst s))) xs = map Some ds" "dom (items (fst s)) = set xs" .
  from rotate_one_data [OF xs(1,2)] obtain m' l' where
    r: "list_rotate_one (fst s) (snd s) = Inr (m', l')" "list_inv m' l' (rotate1 xs)"
      "map (idata (items m')) (rotate1 xs) = map Some (rotate1 ds)" "dom (items m') = dom (items (fst s))"
      "objs m' = objs (fst s)" "l_compare l' = l_compare (snd s)" "l_delete l' = l_delete (snd s)" by blast
  then have "list_typed good (m', l') own (rotate1 ds)"
    using xs(3) list_typedD [OF assms] by (intro list_typedI [OF r(2,3)]) auto
  with r(1,6) show ?thesis by auto
qed

lemma typed_apply:
  assumes "list_env_good env" and "list_typed good s own ds" and "op_type own c = Some own'"
    and "length ds + 1 < 2 ^ 32" and "compares_by (l_compare (snd s)) (data_ok good) key"
  shows "\<exists>s' ds'. list_apply env c s = Inr s' \<and> list_typed good s' own' ds' \<and> length ds' \<le> length ds + 1 \<and>
    l_compare (snd s') = l_compare (snd s)"
proof (cases c)
  case (Insert_Tail d)
  then have "d \<in> own" "own' = own - {d}" using assms(3) by (auto split: if_splits)
  with typed_insert_tail [OF assms(1,2) _ assms(4)] Insert_Tail show ?thesis by fastforce
next
  case (Insert_Sorted d)
  then have "d \<in> own" "own' = own - {d}" using assms(3) by (auto split: if_splits)
  with typed_insert_sorted [OF assms(1,2) _ assms(4,5)] Insert_Sorted show ?thesis
    by (fastforce dest: mset_eq_length)
next
  case Remove_Head
  with typed_remove_head [OF assms(2), of env] assms(3) show ?thesis by fastforce
next
  case Rotate_One
  with typed_rotate_one [OF assms(2), of env] assms(3) show ?thesis by fastforce
qed

lemma typed_run:
  assumes "list_env_good env" and "list_typed good s own ds" and "ops_type own cs = Some own'"
    and "length ds + length cs < 2 ^ 32" and "compares_by (l_compare (snd s)) (data_ok good) key"
  shows "\<exists>s' ds'. list_run env cs s = Inr s' \<and> list_typed good s' own' ds'"
  using assms
proof (induction cs arbitrary: s own ds)
  case (Cons c cs)
  from Cons.prems(3) obtain own1 where own1: "op_type own c = Some own1" "ops_type own1 cs = Some own'"
    by (auto split: option.splits)
  have "length ds + 1 < 2 ^ 32" using Cons.prems(4) by simp
  from typed_apply [OF Cons.prems(1,2) own1(1) this Cons.prems(5)] obtain s1 ds1 where
    s1: "list_apply env c s = Inr s1" "list_typed good s1 own1 ds1" "length ds1 \<le> length ds + 1"
      "l_compare (snd s1) = l_compare (snd s)" by blast
  have "length ds1 + length cs < 2 ^ 32" using s1(3) Cons.prems(4) by simp
  from Cons.IH [OF Cons.prems(1) s1(2) own1(2) this] s1(1,4) Cons.prems(5) show ?case by simp
qed auto

lemma typed_cleanup:
  "list_typed good s own ds \<Longrightarrow> \<exists>s'. cleanup_list (fst s) (snd s) = Some (Inr s') \<and> list_typed good s' own []"
proof (induction ds arbitrary: s)
  case Nil
  from list_typedE [OF Nil] obtain xs where "list_inv (fst s) (snd s) xs" "length xs = 0" by force
  then have "l_head (snd s) = None" by (simp add: list_inv_def)
  with Nil show ?case by (subst cleanup_list.simps) auto
next
  case (Cons d ds)
  from list_typedE [OF Cons.prems] obtain xs where "list_inv (fst s) (snd s) xs" "length xs = length (d # ds)" by metis
  then have "l_head (snd s) \<noteq> None" by (cases xs) (auto simp: list_inv_def)
  moreover from typed_remove_head [OF Cons.prems, of undefined] obtain m' l' where
    "list_remove_head (fst s) (snd s) = Inr (m', l')" "list_typed good (m', l') own ds" by auto
  ultimately show ?case using Cons.IH [of "(m', l')"] by (subst cleanup_list.simps) auto
qed

section \<open>The property\<close>

definition thread_good :: "thread_t \<Rightarrow> bool" where
  "thread_good t \<longleftrightarrow> \<bar>t_pri t\<bar> < 2 ^ 30"

lemma thread_ok_typed: "thread_ok = data_ok thread_good"
  by (simp add: fun_eq_iff thread_ok_def data_ok_def thread_good_def)

text \<open>
  C22. Type soundness for the memory of the list: a program of list operations that inserts only objects it
  owns, each at most once, never fails, whatever the order of its operations and however \<open>qsort\<close> sorts; nothing is freed twice or
  leaked, as the items that are allocated are those of the list and the objects those of the list and
  those the program has kept; and \<open>cleanup_list\<close> then ends, frees all items and leaves just what the program has kept.
\<close>

theorem list_ops_typed:
  assumes "list_typed good s own ds" and "list_env_good env" and "compares_by (l_compare (snd s)) (data_ok good) key"
    and "ops_type own cs = Some own'" and "length ds + length cs < 2 ^ 32"
  shows "\<exists>s' ds'. list_run env cs s = Inr s' \<and> list_typed good s' own' ds' \<and>
    (\<exists>s''. cleanup_list (fst s') (snd s') = Some (Inr s'') \<and> items (fst s'') = Map.empty \<and> dom (objs (fst s'')) = own')"
proof -
  from typed_run [OF assms(2,1,4,5,3)] obtain s' ds' where
    s': "list_run env cs s = Inr s'" "list_typed good s' own' ds'" by blast
  from typed_cleanup [OF s'(2)] obtain s'' where
    s'': "cleanup_list (fst s') (snd s') = Some (Inr s'')" "list_typed good s'' own' []" by blast
  then have "items (fst s'') = Map.empty" "dom (objs (fst s'')) = own'"
    by (auto simp: list_typed_def)
  with s' s''(1) show ?thesis by blast
qed

theorem list_ops_typed_witness:
  "\<exists>s' ds'. list_run ex_list_env [Rotate_One, Insert_Sorted 23, Remove_Head, Remove_Head] (ex_mem, ex_list) = Inr s' \<and>
    list_typed thread_good s' {} ds'"
proof -
  have "list_typed thread_good (ex_mem, ex_list) {23} [21, 22]"
    by (intro list_typedI [OF ex_list_inv])
      (auto simp: ex_mem_def ex_list_def list_init_def thread_data_delete_eq idata_def ran_def thread_good_def
        split: if_splits)
  moreover have "compares_by (l_compare (snd (ex_mem, ex_list))) (data_ok thread_good) thread_pri"
    using ex_list_compare by (simp add: thread_ok_typed)
  ultimately show ?thesis
    using list_ops_typed [of thread_good "(ex_mem, ex_list)" "{23}" "[21, 22]" ex_list_env thread_pri
        "[Rotate_One, Insert_Sorted 23, Remove_Head, Remove_Head]" "{}"] ex_list_env_good by auto
qed

end
