(* ===== verification/CoClient.thy ===== *)
theory CoClient imports CoThread Decimal begin

text \<open>
  Programs that run on the cooperative threads of Asmt_3, and its three test programs
  (test-simple.c, test-create.c, test-multi-threads.c).

  What is left to do of a thread is a list of actions: its prints and its calls of the library, in the order
  of its code, with its loops unrolled (their bounds are constants). The library decides which
  thread runs: the one at the head of its queue. A function that returns ends the process, \<open>main\<close>
  by its return and a thread as its context has no successor.
\<close>

section \<open>Client programs\<close>

datatype co_action = Do_Print string | Do_Yield | Do_Create nat int int | Do_Exit

record co_machine =
  lib :: co_state
  conts :: "nat \<rightharpoonup> co_action list"
  printed_lines :: "string list"

text \<open>One action of the thread that runs; \<open>body\<close> gives the functions that threads are created with.\<close>

definition co_step :: "co_env \<Rightarrow> (nat \<Rightarrow> int \<Rightarrow> co_action list) \<Rightarrow> co_machine \<Rightarrow> co_machine res" where
  "co_step env body M =
     bindr (item_thread (co_mem (lib M)) (l_head (thread_queue (lib M)))) (\<lambda>p.
     bindr (load (conts M) p) (\<lambda>k.
     case k of
       [] \<Rightarrow> Inl (Exit 0)
     | a # k' \<Rightarrow>
         let M1 = M\<lparr>conts := (conts M)(the p \<mapsto> k')\<rparr> in
         (case a of
            Do_Print line \<Rightarrow> Inr (M1\<lparr>printed_lines := printed_lines M @ [line]\<rparr>)
          | Do_Yield \<Rightarrow> bindr (uthread_yield_3 (lib M)) (\<lambda>s. Inr (M1\<lparr>lib := s\<rparr>))
          | Do_Create func val pri \<Rightarrow>
              bindr (uthread_create_3 env (lib M) func val pri) (\<lambda>(tid, s).
              Inr (M1\<lparr>lib := s,
                conts := (conts M1)(the (malloc_thread_t env (objs (co_mem (lib M)))) \<mapsto> body func val)\<rparr>))
          | Do_Exit \<Rightarrow> bindr (uthread_exit_3 (lib M)) (\<lambda>s. Inr (M1\<lparr>lib := s\<rparr>)))))"

text \<open>A machine runs until a step fails or ends it: what it has printed by then, and how it ended.\<close>

partial_function (option) run_machine ::
  "('s \<Rightarrow> 's res) \<Rightarrow> ('s \<Rightarrow> string list) \<Rightarrow> 's \<Rightarrow> (string list \<times> c_error) option" where
  "run_machine step out s = (case step s of Inl e \<Rightarrow> Some (out s, e) | Inr s' \<Rightarrow> run_machine step out s')"

text \<open>\<open>main\<close> prints the lines \<open>before\<close>, calls \<open>uthread_init\<close> and then does the actions \<open>k\<close>.\<close>

definition co_program ::
  "co_env \<Rightarrow> (nat \<Rightarrow> int \<Rightarrow> co_action list) \<Rightarrow> string list \<Rightarrow> co_action list \<Rightarrow> co_state \<Rightarrow>
   (string list \<times> c_error) option" where
  "co_program env body before k s0 =
     (case uthread_init_3 env s0 of
        Inl e \<Rightarrow> Some (before, e)
      | Inr s \<Rightarrow>
          run_machine (co_step env body) printed_lines
            \<lparr>lib = s, conts = [the (malloc_thread_t env (objs (co_mem s0))) \<mapsto> k], printed_lines = before\<rparr>)"

section \<open>The test programs\<close>

text \<open>The function that the threads of test-simple.c and test-create.c run.\<close>

definition thread_start :: "nat \<Rightarrow> int \<Rightarrow> co_action list" where
  "thread_start func val = [Do_Print (''In thread_start '' @ dec (nat val) @ '' , control transfered''), Do_Yield]"

definition test_create :: "co_env \<Rightarrow> co_state \<Rightarrow> (string list \<times> c_error) option" where
  "test_create env s0 = co_program env thread_start [''Testing uthread_create'']
     [Do_Create 0 1 0, Do_Yield, Do_Print ''back in main'', Do_Exit] s0"

definition test_simple :: "co_env \<Rightarrow> co_state \<Rightarrow> (string list \<times> c_error) option" where
  "test_simple env s0 = co_program env thread_start [''Testing uthread_create'']
     [Do_Exit, Do_Create 0 1 0, Do_Yield, Do_Print ''back in main'', Do_Exit] s0"

definition thread_line :: "int \<Rightarrow> nat \<Rightarrow> string" where
  "thread_line val i = ''Thread: '' @ dec (nat val) @ '' Count: '' @ dec i"

definition threadFunc :: "nat \<Rightarrow> int \<Rightarrow> co_action list" where
  "threadFunc func val = concat (map (\<lambda>i. [Do_Print (thread_line val i), Do_Yield]) [0..<5]) @ [Do_Exit]"

definition main_line :: "nat \<Rightarrow> string" where
  "main_line i = ''This is the main function: '' @ dec i"

definition test_multi_main :: "co_action list" where
  "test_multi_main = [Do_Create 0 1 0, Do_Create 0 2 0, Do_Create 0 3 0, Do_Create 0 4 0] @
     concat (map (\<lambda>i. [Do_Print (main_line i), Do_Yield]) [0..<10]) @
     [Do_Print ''I am main and I am exiting'', Do_Exit]"

definition test_multi :: "co_env \<Rightarrow> co_state \<Rightarrow> (string list \<times> c_error) option" where
  "test_multi env s0 = co_program env threadFunc [] test_multi_main s0"

section \<open>Coroutines\<close>

text \<open>
  The specification: a queue of the actions that each thread has left, of which the first is run, the
  number of threads created so far, and the lines printed. There is no heap and no memory in it.
\<close>

type_synonym coroutines = "nat \<times> co_action list list \<times> string list"

fun coroutine_step :: "(nat \<Rightarrow> int \<Rightarrow> co_action list) \<Rightarrow> coroutines \<Rightarrow> coroutines res" where
  "coroutine_step body (n, (Do_Print line # k) # q, ls) = Inr (n, k # q, ls @ [line])"
| "coroutine_step body (n, (Do_Yield # k) # q, ls) = Inr (n, q @ [k], ls)"
| "coroutine_step body (n, (Do_Create func val pri # k) # q, ls) =
     (if n + 1 < 2 ^ 31 then Inr (n + 1, k # q @ [body func val], ls) else Inl Int_Overflow)"
| "coroutine_step body (n, [Do_Exit # k], ls) = Inl (Exit 0)"
| "coroutine_step body (n, (Do_Exit # k) # k' # q, ls) = Inr (n, k' # q, ls)"
| "coroutine_step body (n, q, ls) = Inl (Exit 0)"

definition coroutines ::
  "(nat \<Rightarrow> int \<Rightarrow> co_action list) \<Rightarrow> string list \<Rightarrow> co_action list \<Rightarrow> (string list \<times> c_error) option" where
  "coroutines body before k = run_machine (coroutine_step body) (snd \<circ> snd) (1, [k], before)"

section \<open>Machines that do the same\<close>

lemma run_machine_simulated:
  assumes run: "run_machine step out s = Some r" and "R s t"
    and sim: "\<And>s t. R s t \<Longrightarrow> out s = out' t \<and>
      (case step s of Inl e \<Rightarrow> step' t = Inl e | Inr s' \<Rightarrow> (\<exists>t'. step' t = Inr t' \<and> R s' t'))"
  shows "run_machine step' out' t = Some r"
proof -
  have "step0 = step \<longrightarrow> out0 = out \<longrightarrow> (\<forall>t. R s0 t \<longrightarrow> run_machine step' out' t = Some r)"
    if "run_machine step0 out0 s0 = Some r" for step0 out0 s0 r
    using that
  proof (rule run_machine.raw_induct [rotated], goal_cases)
    case (1 run step0 out0 s0 r)
    show ?case
    proof (intro impI allI)
      fix t assume eq: "step0 = step" "out0 = out" and R: "R s0 t"
      show "run_machine step' out' t = Some r"
      proof (cases "step s0")
        case (Inl e)
        with sim [OF R] have "step' t = Inl e" "out' t = out s0" by simp_all
        with 1(2) Inl eq show ?thesis by (subst run_machine.simps) simp
      next
        case (Inr s')
        with sim [OF R] obtain t' where t': "step' t = Inr t'" "R s' t'" by auto
        have "run step0 out0 s' = Some r" using 1(2) Inr eq by simp
        with 1(1) eq t'(2) have "run_machine step' out' t' = Some r" by blast
        with t'(1) show ?thesis by (subst run_machine.simps) simp
      qed
    qed
  qed
  with run assms(2) show ?thesis by blast
qed

text \<open>Two machines whose steps correspond run alike, also when they never end.\<close>

lemma run_machine_bisimilar:
  assumes R: "R s t"
    and sim: "\<And>s t. R s t \<Longrightarrow> out s = out' t \<and>
      (case step s of Inl e \<Rightarrow> step' t = Inl e | Inr s' \<Rightarrow> (\<exists>t'. step' t = Inr t' \<and> R s' t'))"
  shows "run_machine step out s = run_machine step' out' t"
proof -
  have backward: "out' t = out s \<and>
      (case step' t of Inl e \<Rightarrow> step s = Inl e | Inr t' \<Rightarrow> (\<exists>s'. step s = Inr s' \<and> R s' t'))"
    if "R s t" for s t
    using sim [OF that] by (cases "step s") auto
  have "run_machine step out s = Some r \<longleftrightarrow> run_machine step' out' t = Some r" for r
    using run_machine_simulated [of step out s r R t out' step', OF _ R sim]
      run_machine_simulated [of step' out' t r "\<lambda>t s. R s t" s out step, OF _ R backward] by blast
  then show ?thesis by (metis option.exhaust)
qed

section \<open>The library implements coroutines\<close>

text \<open>The queue of the library holds the threads, whose actions are those of the coroutines.\<close>

definition co_represents :: "co_machine \<Rightarrow> coroutines \<Rightarrow> bool" where
  "co_represents M c \<longleftrightarrow> (case c of (n, qs, ls) \<Rightarrow>
     (\<exists>ds. co_inv (lib M) ds \<and> map (conts M) ds = map Some qs) \<and> length qs \<le> n \<and> n < 2 ^ 31 \<and>
     thread_id (lib M) = int n \<and> printed_lines M = ls)"

lemma co_inv_distinct: "co_inv s ds \<Longrightarrow> distinct ds"
  by (simp add: co_inv_def list_holds_def)

lemma co_inv_running:
  "co_inv s (d # ds) \<Longrightarrow> item_thread (co_mem s) (l_head (thread_queue s)) = Inr (Some d)"
  using head_thread_of(1) by (auto simp: co_inv_def)

lemma co_init_spec:
  assumes "co_env_good env" and "co_mem s0 = \<lparr>items = Map.empty, objs = Map.empty\<rparr>"
  shows "\<exists>d s. malloc_thread_t env Map.empty = Some d \<and> uthread_init_3 env s0 = Inr s \<and> co_inv s [d] \<and>
    thread_id s = 1"
proof -
  let ?q = "list_init thread_compare_pri thread_data_delete"
  obtain d where d: "malloc_thread_t env Map.empty = Some d"
    using assms(1) unfolding co_env_good_def by (metis dom_empty finite.emptyI)
  define m1 where "m1 = \<lparr>items = (Map.empty :: item_heap), objs = [d \<mapsto> thread_init 0 0]\<rparr>"
  have "list_holds (m1, ?q) []"
    by (simp add: list_holds_def list_inv_def list_init_def m1_def thread_data_delete_eq)
  moreover have "object_live (m1, ?q) d" by (simp add: object_live_def m1_def)
  moreover have "list_env_good (list_env_of env)" using assms(1) by (simp add: co_env_good_def)
  ultimately obtain m2 q2 where
    r: "list_insert_tail (list_env_of env) m1 ?q (Some d) = Inr (m2, q2)" "list_holds (m2, q2) [d]" "objs m2 = objs m1"
    using list_holds_insert [of "list_env_of env" "(m1, ?q)" "[]" d] by auto
  define o3 where "o3 = [d \<mapsto> (thread_init 0 0)\<lparr>ucp := Saved\<rparr>]"
  let ?s = "s0\<lparr>co_mem := m2\<lparr>objs := o3\<rparr>, thread_queue := q2, thread_id := 1\<rparr>"
  have "uthread_init_3 env s0 = Inr ?s"
    using d r(1,3) assms(2) by (simp add: uthread_init_3_def Let_def m1_def o3_def)
  moreover have "co_inv ?s [d]"
    using list_holds_objs [OF r(2), of o3] by (simp add: co_inv_def o3_def)
  ultimately show ?thesis using d by (intro exI [of _ d] exI [of _ ?s]) simp
qed

text \<open>
  One step of a running thread \<open>d\<close> with the continuation \<open>a # k\<close>, and the others \<open>es\<close> with the
  continuations \<open>q\<close>.
\<close>

lemma co_representsI:
  assumes "co_inv s ds" and "map cs ds = map Some qs" and "length qs \<le> n" and "n < 2 ^ 31" and "thread_id s = int n"
    and "lib M = s" and "conts M = cs" and "printed_lines M = ls"
  shows "co_represents M (n, qs, ls)"
  using assms by (auto simp: co_represents_def)

lemma co_step_create:
  assumes "co_env_good env" and inv: "co_inv (lib M) (d # es)" and q: "map (conts M) es = map Some q"
    and n: "Suc (length q) \<le> n" "n < 2 ^ 31" "thread_id (lib M) = int n"
  shows "case bindr (uthread_create_3 env (lib M) func val pri) (\<lambda>(tid, s).
      Inr (M\<lparr>lib := s, conts := (conts M)(d \<mapsto> k, the (malloc_thread_t env (objs (co_mem (lib M)))) \<mapsto> body func val)\<rparr>)) of
      Inl e \<Rightarrow> n + 1 \<ge> 2 ^ 31 \<and> e = Int_Overflow
    | Inr M' \<Rightarrow> n + 1 < 2 ^ 31 \<and> co_represents M' (n + 1, k # q @ [body func val], printed_lines M)"
proof (cases "n + 1 < 2 ^ 31")
  case True
  have "length es = length q" using q by (rule map_eq_imp_length_eq)
  then have "int32_ok (thread_id (lib M) + 1)" "length (d # es) < 2 ^ 32 - 1"
    using True n by (simp_all add: int32_ok_def)
  from co_create_spec [OF inv assms(1) this(2,1), of func val pri] obtain e s where
    r: "uthread_create_3 env (lib M) func val pri = Inr (thread_id (lib M), s)"
    and e: "malloc_thread_t env (objs (co_mem (lib M))) = Some e"
    and s: "co_inv s ((d # es) @ [e])" "thread_id s = thread_id (lib M) + 1" by blast
  have "d \<notin> set es" "e \<notin> set (d # es)" using co_inv_distinct [OF s(1)] by auto
  then have "map ((conts M)(d \<mapsto> k, e \<mapsto> body func val)) ((d # es) @ [e]) = map Some (k # q @ [body func val])"
    using q by simp
  from co_representsI [OF s(1) this] True n r e s(2) show ?thesis by simp
next
  case False
  then have "\<not> int32_ok (thread_id (lib M) + 1)" using n by (simp add: int32_ok_def)
  moreover obtain e where "malloc_thread_t env (objs (co_mem (lib M))) = Some e"
    using assms(1) inv by (auto simp: co_env_good_def co_inv_def)
  ultimately show ?thesis using False by (simp add: uthread_create_3_def Let_def c_int_def)
qed

lemma co_step_exit:
  assumes inv: "co_inv (lib M) (d # es)" and q: "map (conts M) es = map Some q"
    and n: "Suc (length q) \<le> n" "n < 2 ^ 31" "thread_id (lib M) = int n"
  shows "case bindr (uthread_exit_3 (lib M)) (\<lambda>s. Inr (M\<lparr>conts := (conts M)(d \<mapsto> k), lib := s\<rparr>)) of
      Inl e \<Rightarrow> q = [] \<and> e = Exit 0
    | Inr M' \<Rightarrow> q \<noteq> [] \<and> co_represents M' (n, q, printed_lines M)"
proof (cases es)
  case Nil
  then show ?thesis using co_exit_last inv q by simp
next
  case (Cons e es')
  then obtain s where s: "uthread_exit_3 (lib M) = Inr s" "co_inv s es" "thread_id s = thread_id (lib M)"
    using co_exit_spec [of "lib M" d es] inv by auto
  have "map ((conts M)(d \<mapsto> k)) es = map Some q" using q co_inv_distinct [OF inv] by simp
  from co_representsI [OF s(2) this] n s(1,3) q Cons show ?thesis by auto
qed

lemma co_step_sim:
  assumes "co_env_good env" and R: "co_represents M c"
  shows "printed_lines M = snd (snd c) \<and>
    (case co_step env body M of Inl e \<Rightarrow> coroutine_step body c = Inl e
     | Inr M' \<Rightarrow> \<exists>c'. coroutine_step body c = Inr c' \<and> co_represents M' c')"
proof
  obtain n qs ls where c: "c = (n, qs, ls)" by (cases c) auto
  show "printed_lines M = snd (snd c)" using R by (simp add: co_represents_def c)
  obtain ds where ds: "co_inv (lib M) ds" "map (conts M) ds = map Some qs"
    and n: "length qs \<le> n" "n < 2 ^ 31" "thread_id (lib M) = int n" and ls: "printed_lines M = ls"
    using R by (auto simp: co_represents_def c)
  have "ds \<noteq> []" using ds(1) by (simp add: co_inv_def)
  then obtain d es k q where d: "ds = d # es" and q: "qs = k # q" "conts M d = Some k" "map (conts M) es = map Some q"
    using ds(2) by (cases ds; cases qs) auto
  note inv = ds(1) [unfolded d] and n' = n(1) [unfolded q(1) length_Cons] n(2,3)
  have run: "co_step env body M = (case k of [] \<Rightarrow> Inl (Exit 0)
     | a # k' \<Rightarrow>
         let M1 = M\<lparr>conts := (conts M)(d \<mapsto> k')\<rparr> in
         (case a of
            Do_Print line \<Rightarrow> Inr (M1\<lparr>printed_lines := printed_lines M @ [line]\<rparr>)
          | Do_Yield \<Rightarrow> bindr (uthread_yield_3 (lib M)) (\<lambda>s. Inr (M1\<lparr>lib := s\<rparr>))
          | Do_Create func val pri \<Rightarrow>
              bindr (uthread_create_3 env (lib M) func val pri) (\<lambda>(tid, s).
              Inr (M1\<lparr>lib := s,
                conts := (conts M1)(the (malloc_thread_t env (objs (co_mem (lib M)))) \<mapsto> body func val)\<rparr>))
          | Do_Exit \<Rightarrow> bindr (uthread_exit_3 (lib M)) (\<lambda>s. Inr (M1\<lparr>lib := s\<rparr>))))"
    using co_inv_running inv q(2) by (simp add: co_step_def)
  have upd: "map ((conts M)(d \<mapsto> k')) es = map Some q" for k'
    using q(3) co_inv_distinct [OF inv] by simp
  show "case co_step env body M of Inl e \<Rightarrow> coroutine_step body c = Inl e
     | Inr M' \<Rightarrow> \<exists>c'. coroutine_step body c = Inr c' \<and> co_represents M' c'"
  proof (cases k)
    case Nil
    then show ?thesis unfolding run by (simp add: c q(1))
  next
    case k: (Cons a k')
    show ?thesis
    proof (cases a)
      case (Do_Print line)
      have "map ((conts M)(d \<mapsto> k')) (d # es) = map Some (k' # q)" using upd by simp
      from co_representsI [OF inv this] n' show ?thesis unfolding run by (simp add: k Do_Print Let_def c q(1) ls)
    next
      case Do_Yield
      obtain s where s: "uthread_yield_3 (lib M) = Inr s" "co_inv s (es @ [d])" "thread_id s = thread_id (lib M)"
        using co_yield_spec [OF inv] by auto
      have "map ((conts M)(d \<mapsto> k')) (es @ [d]) = map Some (q @ [k'])" using upd by simp
      from co_representsI [OF s(2) this] n' s(1,3) show ?thesis
        unfolding run by (simp add: k Do_Yield Let_def c q(1) ls)
    next
      case (Do_Create func val pri)
      from co_step_create [OF assms(1) inv q(3) n', of k' body func val pri] show ?thesis
        unfolding run by (cases "uthread_create_3 env (lib M) func val pri")
          (auto simp: k Do_Create Let_def c q(1) ls split: prod.splits)
    next
      case Do_Exit
      from co_step_exit [OF inv q(3) n', of k'] show ?thesis
        unfolding run by (cases "uthread_exit_3 (lib M)"; cases q) (auto simp: k Do_Exit Let_def c q(1) ls)
    qed
  qed
qed

text \<open>A whole program on a library that starts with no memory of its own.\<close>

lemma co_program_coroutines:
  assumes "co_env_good env" and "co_mem s0 = \<lparr>items = Map.empty, objs = Map.empty\<rparr>"
  shows "co_program env body before k s0 = coroutines body before k"
proof -
  obtain d s where d: "malloc_thread_t env Map.empty = Some d" "uthread_init_3 env s0 = Inr s" "co_inv s [d]"
    "thread_id s = 1" using co_init_spec [OF assms] by blast
  have "co_represents \<lparr>lib = s, conts = [d \<mapsto> k], printed_lines = before\<rparr> (1, [k], before)"
    using d by (auto simp: co_represents_def intro!: exI [of _ "[d]"])
  then have "run_machine (co_step env body) printed_lines \<lparr>lib = s, conts = [d \<mapsto> k], printed_lines = before\<rparr> =
      coroutines body before k"
    unfolding coroutines_def by (rule run_machine_bisimilar) (use co_step_sim [OF assms(1)] in simp)
  then show ?thesis using d(1,2) assms(2) by (simp add: co_program_def)
qed

end
