(* ===== verification/CoClientProps.thy ===== *)
theory CoClientProps imports CoClient ListProps begin

text \<open>The properties of programs on the cooperative threads, and what the test programs print.\<close>

definition ex_co_start :: co_state where
  "ex_co_start = \<lparr>co_mem = \<lparr>items = Map.empty, objs = Map.empty\<rparr>,
     thread_queue = list_init thread_compare_pri thread_data_delete, thread_id = 0\<rparr>"

text \<open>
  C23. The library implements coroutines: any program of prints, yields, creations and exits runs on it
  exactly as on a queue of the actions that each thread has left, with the same output and the
  same end, or for ever like it, whatever addresses \<open>malloc\<close> returns. The queue has no heap,
  so no program ends in a use of freed memory or of a NULL pointer, and priorities have no effect.
\<close>

theorem coroutines_refine:
  assumes "co_env_good env" and "co_mem s0 = \<lparr>items = Map.empty, objs = Map.empty\<rparr>"
  shows "co_program env body before k s0 = coroutines body before k"
  by (rule co_program_coroutines [OF assms])

theorem coroutines_refine_witness:
  "co_program ex_co_env thread_start [] [Do_Create 0 3 7, Do_Create 0 4 1, Do_Yield, Do_Exit] ex_co_start =
    coroutines thread_start [] [Do_Create 0 3 7, Do_Create 0 4 1, Do_Yield, Do_Exit]"
  by (rule coroutines_refine [OF ex_co_env_good]) (simp add: ex_co_start_def)

text \<open>
  What the test programs print, in every environment that has memory. test-multi-threads.c takes
  five rounds, each of a line of \<open>main\<close> and one of each thread in the order of their creation;
  then the threads exit and \<open>main\<close> prints its last five lines alone. test-create.c is back in \<open>main\<close>
  after the thread has yielded, and ends when the thread returns. test-simple.c prints its first
  line only, as \<open>main\<close> is the only thread when it exits.
\<close>

theorem test_programs_print:
  assumes "co_env_good env" and "co_mem s0 = \<lparr>items = Map.empty, objs = Map.empty\<rparr>"
  shows "test_multi env s0 = Some (
      concat (map (\<lambda>i. main_line i # map (\<lambda>val. thread_line val i) [1, 2, 3, 4]) [0, 1, 2, 3, 4]) @
      map main_line [5, 6, 7, 8, 9] @ [''I am main and I am exiting''], Exit 0) \<and>
    test_create env s0 = Some ([''Testing uthread_create'', ''In thread_start 1 , control transfered'',
      ''back in main''], Exit 0) \<and>
    test_simple env s0 = Some ([''Testing uthread_create''], Exit 0)"
proof (intro conjI)
  have upts: "[0..<5] = [0, 1, 2, 3, 4 :: nat]" "[0..<10] = [0, 1, 2, 3, 4, 5, 6, 7, 8, 9 :: nat]"
    by code_simp+
  have one: "dec (Suc 0) = ''1''" by code_simp
  note coroutines_of = co_program_coroutines [OF assms]
  show "test_multi env s0 = Some (
      concat (map (\<lambda>i. main_line i # map (\<lambda>val. thread_line val i) [1, 2, 3, 4]) [0, 1, 2, 3, 4]) @
      map main_line [5, 6, 7, 8, 9] @ [''I am main and I am exiting''], Exit 0)"
    unfolding test_multi_def coroutines_of
    by (simp add: coroutines_def run_machine.simps threadFunc_def test_multi_main_def upts)
  show "test_create env s0 = Some ([''Testing uthread_create'', ''In thread_start 1 , control transfered'',
      ''back in main''], Exit 0)"
    unfolding test_create_def coroutines_of
    by (simp add: coroutines_def run_machine.simps thread_start_def one)
  show "test_simple env s0 = Some ([''Testing uthread_create''], Exit 0)"
    unfolding test_simple_def coroutines_of by (simp add: coroutines_def run_machine.simps)
qed

theorem test_programs_print_witness:
  "test_simple ex_co_env ex_co_start = Some ([''Testing uthread_create''], Exit 0)"
  using test_programs_print [OF ex_co_env_good, of ex_co_start] by (simp add: ex_co_start_def)

end
