(* ===== verification/CString.thy ===== *)
theory CString imports Prelude "HOL-Library.List_Lexorder" begin

text \<open>
  Strings of C, which the programs of Asmt_1 and Asmt_2 keep in buffers of bytes: a string is what
  stands before the first NUL; reading on at the end of the buffer is an error.
\<close>

text \<open>The characters that \<open>printf ("%s")\<close> prints.\<close>

fun c_string :: "byte list \<Rightarrow> byte list res" where
  "c_string [] = Inl Out_Of_Bounds"
| "c_string (c # cs) = (if c = 0 then Inr [] else bindr (c_string cs) (\<lambda>s. Inr (c # s)))"

fun strcmp :: "byte list \<Rightarrow> byte list \<Rightarrow> int res" where
  "strcmp (a # as) (b # bs) =
     (if a \<noteq> b then Inr (uint a - uint b) else if a = 0 then Inr 0 else strcmp as bs)"
| "strcmp [] bs = Inl Out_Of_Bounds"
| "strcmp as [] = Inl Out_Of_Bounds"

section \<open>Lemmas\<close>

lemma c_string_no_nul: "0 \<notin> set s \<Longrightarrow> c_string s = Inl Out_Of_Bounds"
  by (induction s) auto

lemma c_string_append: "0 \<notin> set w \<Longrightarrow> c_string (w @ 0 # r) = Inr w"
  by (induction w) auto

lemma c_string_cases:
  "c_string b = (if 0 \<in> set b then Inr (takeWhile (\<lambda>c. c \<noteq> 0) b) else Inl Out_Of_Bounds)"
  by (induction b) auto

text \<open>\<open>strcmp\<close> follows the lexicographic order of the strings.\<close>

lemma strcmp_le:
  "c_string x = Inr u \<Longrightarrow> c_string y = Inr v \<Longrightarrow> \<exists>n. strcmp x y = Inr n \<and> (n \<le> 0 \<longleftrightarrow> u \<le> v)"
proof (induction x arbitrary: y u v)
  case (Cons a as)
  then obtain b bs where y: "y = b # bs" by (cases y) auto
  show ?case
  proof (cases "a = b \<and> a \<noteq> 0")
    case True
    with Cons.prems y obtain u' v' where "c_string as = Inr u'" "c_string bs = Inr v'" "u = a # u'" "v = a # v'"
      by (auto simp: res_simps)
    with Cons.IH [of u' bs v'] True y show ?thesis by auto
  next
    case False
    have less: "uint a - uint b \<le> 0 \<longleftrightarrow> a \<le> b" by (simp add: word_le_def)
    have "a \<noteq> 0 \<Longrightarrow> \<not> a \<le> 0" "b \<noteq> 0 \<Longrightarrow> 0 < b" by (simp_all add: word_neq_0_conv)
    with False Cons.prems y less show ?thesis
      by (auto simp: res_simps split: if_splits)
  qed
qed simp

lemma strcmp_eq:
  "c_string x = Inr u \<Longrightarrow> c_string y = Inr v \<Longrightarrow> strcmp x y = Inr 0 \<longleftrightarrow> u = v"
proof (induction x arbitrary: y u v)
  case (Cons a as)
  then obtain b bs where y: "y = b # bs" by (cases y) auto
  show ?case
  proof (cases "a = b \<and> a \<noteq> 0")
    case True
    with Cons.prems y obtain u' v' where "c_string as = Inr u'" "c_string bs = Inr v'" "u = a # u'" "v = a # v'"
      by (auto simp: res_simps)
    with Cons.IH [of u' bs v'] True y show ?thesis by auto
  next
    case False
    have "uint a = uint b \<longleftrightarrow> a = b" "uint a = 0 \<longleftrightarrow> a = 0" "uint b = 0 \<longleftrightarrow> b = 0"
      by (simp_all add: word_uint_eq_iff)
    with False show ?thesis using Cons.prems y by (auto simp: res_simps split: if_splits)
  qed
qed simp

end
