(* ===== verification/Harness.thy ===== *)
theory Harness imports ListT CString begin

text \<open>
  The program of Asmt_1 (harness.c, with the string functions of list_item_t.c): it reads the
  words of a file into buffers of 41 characters, which it prints at once (\<open>echo\<close>) or keeps in
  a list (\<open>tail\<close>, \<open>sort\<close>, \<open>tail-remove\<close>).

  A file is the list of its bytes; the memory of objects holds the character buffers. What a
  fresh buffer contains is up to \<open>malloc\<close> and the stack: the program never clears it before
  its first use, so it is a parameter. A string is what stands before the first NUL of a
  buffer; reading on at its end is an error. Messages to the user are left out, as is the text
  for an empty list that only the Asmt_1 copy of \<open>list_remove_head\<close> prints.
\<close>

section \<open>Strings\<close>

type_synonym buffers = "nat \<rightharpoonup> byte list"

definition list_item_compare_string :: "buffers mem \<Rightarrow> nat \<Rightarrow> nat \<Rightarrow> int res" where
  "list_item_compare_string m key other =
     bindr (load (items m) (Some key)) (\<lambda>arg1.
     bindr (load (items m) (Some other)) (\<lambda>arg2.
     bindr (load (objs m) (li_data arg1)) (\<lambda>data1.
     bindr (load (objs m) (li_data arg2)) (\<lambda>data2.
     strcmp data1 data2))))"

definition print_data_string :: "buffers mem \<Rightarrow> nat \<Rightarrow> byte list res" where
  "print_data_string m v =
     bindr (load (items m) (Some v)) (\<lambda>i.
     bindr (load (objs m) (li_data i)) (\<lambda>data.
     bindr (c_string data) (\<lambda>s. Inr (s @ [10]))))"

section \<open>Reading words\<close>

text \<open>
  \<open>char c = fgetc (f)\<close>: at the end of the file \<open>EOF\<close> (-1), which as a \<open>char\<close> is the byte 255.
\<close>

fun fgetc :: "byte list \<Rightarrow> byte \<times> byte list" where
  "fgetc [] = (255, [])"
| "fgetc (c # f) = (c, f)"

definition separator :: "byte \<Rightarrow> bool" where
  "separator c \<longleftrightarrow> c = 255 \<or> c = 32 \<or> c = 10"

text \<open>The loop of \<open>read_line\<close> at index \<open>i\<close>, with \<open>buf_size - i\<close> turns to go.\<close>

primrec read_chars :: "nat \<Rightarrow> byte list \<Rightarrow> byte list \<Rightarrow> nat \<Rightarrow> (bool \<times> byte list \<times> byte list) res" where
  "read_chars 0 f buf i = Inr (True, buf, f)"
| "read_chars (Suc n) f buf i =
     (case fgetc f of (c, f') \<Rightarrow>
        if separator c then Inr (i > 0, buf, f')
        else if i < length buf then read_chars n f' (buf[i := c]) (i + 1)
        else Inl Out_Of_Bounds)"

definition read_line :: "byte list \<Rightarrow> byte list \<Rightarrow> nat \<Rightarrow> (bool \<times> byte list \<times> byte list) res" where
  "read_line f buf buf_size = read_chars buf_size f buf 0"

text \<open>\<open>read_line\<close> into an allocated buffer; \<open>tail-remove\<close> may pass NULL.\<close>

definition read_line_at :: "buffers \<Rightarrow> ptr \<Rightarrow> byte list \<Rightarrow> (bool \<times> buffers \<times> byte list) res" where
  "read_line_at h p f = (case p of
     None \<Rightarrow> if separator (fst (fgetc f)) then Inr (False, h, snd (fgetc f)) else Inl Null_Deref
   | Some a \<Rightarrow> bindr (load h (Some a)) (\<lambda>b. bindr (read_line f b 41) (\<lambda>(ok, b', f').
       Inr (ok, h(a \<mapsto> b'), f'))))"

lemma read_chars_consumes:
  "read_chars n f buf i = Inr (True, buf', f') \<Longrightarrow> 0 < n + i \<Longrightarrow> length f' \<le> length f \<and> (i = 0 \<longrightarrow> length f' < length f)"
proof (induction n arbitrary: f buf i)
  case (Suc n)
  show ?case
  proof (cases f)
    case Nil
    with Suc.prems show ?thesis by (auto simp: separator_def)
  next
    case (Cons c cs)
    with Suc.prems Suc.IH [of cs "buf[i := c]" "i + 1"] show ?thesis by (auto split: if_splits)
  qed
qed simp

lemma read_line_consumes: "read_line f buf 41 = Inr (True, buf', f') \<Longrightarrow> length f' < length f"
  using read_chars_consumes [of 41 f buf 0 buf' f'] by (simp add: read_line_def)

lemma read_line_at_consumes: "read_line_at h p f = Inr (True, h', f') \<Longrightarrow> length f' < length f"
  by (auto simp: read_line_at_def res_simps dest: read_line_consumes split: option.splits if_splits)

section \<open>The options\<close>

record harness_env =
  word_list_env :: list_env
  malloc_buf :: "buffers \<Rightarrow> (nat \<times> byte list) option"
  echo_buf0 :: "byte list"
  input_files :: "string \<Rightarrow> byte list option"

text \<open>\<open>echo\<close>: the buffer is on the stack and is cleared after each word.\<close>

function echo_loop :: "byte list \<Rightarrow> byte list \<Rightarrow> byte list \<Rightarrow> byte list res" where
  "echo_loop f buf out =
     (case read_line f buf 41 of
        Inl e \<Rightarrow> Inl e
      | Inr (ok, buf', f') \<Rightarrow>
          if ok then bindr (c_string buf') (\<lambda>s. echo_loop f' (replicate 41 0) (out @ s @ [10]))
          else Inr out)"
  by pat_completeness auto
termination
  by (relation "measure (\<lambda>(f, buf, out). length f)") (auto dest: read_line_consumes)

declare echo_loop.simps [simp del]

text \<open>
  The loop of the other options: one of the insertions for each word, and a new buffer after
  it. \<open>tail-remove\<close> does not check that \<open>malloc\<close> gave one.
\<close>

type_synonym insertion = "buffers mem \<Rightarrow> buffers list_t \<Rightarrow> ptr \<Rightarrow> (buffers mem \<times> buffers list_t) res"

definition new_buffer :: "harness_env \<Rightarrow> bool \<Rightarrow> buffers mem \<Rightarrow> (buffers mem \<times> ptr) res" where
  "new_buffer env checked m = (case malloc_buf env (objs m) of
     None \<Rightarrow> if checked then Inl (Exit (-1)) else Inr (m, None)
   | Some (a, content) \<Rightarrow> Inr (m\<lparr>objs := (objs m)(a \<mapsto> content)\<rparr>, Some a))"

function fill_list ::
  "harness_env \<Rightarrow> insertion \<Rightarrow> bool \<Rightarrow> byte list \<Rightarrow> buffers mem \<Rightarrow> buffers list_t \<Rightarrow> ptr \<Rightarrow>
   (buffers mem \<times> buffers list_t \<times> ptr) res" where
  "fill_list env insertion checked f m l buf =
     (case read_line_at (objs m) buf f of
        Inl e \<Rightarrow> Inl e
      | Inr (ok, h, f') \<Rightarrow>
          if ok then
            bindr (insertion (m\<lparr>objs := h\<rparr>) l buf) (\<lambda>(m1, l1).
            bindr (new_buffer env checked m1) (\<lambda>(m2, buf').
            fill_list env insertion checked f' m2 l1 buf'))
          else Inr (m\<lparr>objs := h\<rparr>, l, buf))"
  by pat_completeness auto
termination
  by (relation "measure (\<lambda>(env, insertion, checked, f, m, l, buf). length f)")
    (auto dest: read_line_at_consumes)

declare fill_list.simps [simp del]

text \<open>The setup of the list, the loop, and the release of the last buffer.\<close>

definition read_list :: "harness_env \<Rightarrow> insertion \<Rightarrow> bool \<Rightarrow> byte list \<Rightarrow> (buffers mem \<times> buffers list_t) res" where
  "read_list env insertion checked f =
     bindr (new_buffer env True \<lparr>items = Map.empty, objs = Map.empty\<rparr>) (\<lambda>(m, buf).
     bindr (fill_list env insertion checked f m (list_init list_item_compare_string string_data_delete) buf)
       (\<lambda>(m1, l1, buf1).
     bindr (free_ptr (objs m1) buf1) (\<lambda>h. Inr (m1\<lparr>objs := h\<rparr>, l1))))"

text \<open>\<open>list_visit_items (&list, print_data_string)\<close>; \<open>None\<close> is a walk that never ends.\<close>

definition print_list :: "buffers mem \<Rightarrow> buffers list_t \<Rightarrow> byte list res option" where
  "print_list m l = map_option (\<lambda>r. bindr r (\<lambda>its.
     bindr (mapr (print_data_string m) its) (\<lambda>lines. Inr (concat lines)))) (list_visit_items m l)"

definition then_run :: "'a res option \<Rightarrow> ('a \<Rightarrow> 'b res option) \<Rightarrow> 'b res option" where
  "then_run x f = (case x of None \<Rightarrow> None | Some (Inl e) \<Rightarrow> Some (Inl e) | Some (Inr v) \<Rightarrow> f v)"

definition print_and_clean :: "buffers mem \<Rightarrow> buffers list_t \<Rightarrow> (byte list \<times> buffers mem \<times> buffers list_t) res option" where
  "print_and_clean m l =
     then_run (print_list m l) (\<lambda>out.
     then_run (cleanup_list m l) (\<lambda>(m1, l1). Some (Inr (out, m1, l1))))"

definition rule_line :: "byte list" where
  "rule_line = replicate 40 45 @ [10]"

text \<open>The loop of \<open>tail-remove\<close>, \<open>n\<close> turns to go.\<close>

fun remove_threes :: "nat \<Rightarrow> buffers mem \<Rightarrow> buffers list_t \<Rightarrow> byte list \<Rightarrow>
    (byte list \<times> buffers mem \<times> buffers list_t) res option" where
  "remove_threes 0 m l out = Some (Inr (out, m, l))"
| "remove_threes (Suc n) m l out =
     then_run (Some (repeat_step (\<lambda>s. list_remove_head (fst s) (snd s)) 3 (m, l))) (\<lambda>(m1, l1).
     then_run (print_list m1 l1) (\<lambda>lines. remove_threes n m1 l1 (out @ rule_line @ lines)))"

definition tail_remove :: "harness_env \<Rightarrow> byte list \<Rightarrow> (byte list \<times> buffers mem) res option" where
  "tail_remove env f =
     then_run (Some (read_list env (list_insert_tail (word_list_env env)) False f)) (\<lambda>(m, l).
     then_run (print_list m l) (\<lambda>lines.
     then_run (remove_threes (unat (l_length l div 3)) m l
       (map (of_nat \<circ> of_char) ''Running tail-remove'' @ [10] @ lines)) (\<lambda>(out, m1, l1).
     then_run (cleanup_list m1 l1) (\<lambda>(m2, l2).
     then_run (print_list m2 l2) (\<lambda>rest. Some (Inr (out @ rule_line @ rest, m2)))))))"

text \<open>\<open>main\<close>: what it prints and the memory it leaves. The arguments exclude \<open>argv[0]\<close>.\<close>

definition harness_main :: "harness_env \<Rightarrow> string list \<Rightarrow> (byte list \<times> buffers mem) res option" where
  "harness_main env args = (case args of
     [name, mode] \<Rightarrow>
       (case input_files env name of
          None \<Rightarrow> Some (Inl (Exit (-1)))
        | Some f \<Rightarrow>
            let listing = (\<lambda>insertion.
                  then_run (Some (read_list env insertion True f)) (\<lambda>(m, l).
                  then_run (print_and_clean m l) (\<lambda>(out, m1, l1). Some (Inr (out, m1)))))
            in
            if mode = ''echo'' then
              Some (bindr (echo_loop f (echo_buf0 env) []) (\<lambda>out.
                Inr (out, \<lparr>items = Map.empty, objs = Map.empty\<rparr>)))
            else if mode = ''tail'' then listing (list_insert_tail (word_list_env env))
            else if mode = ''sort'' then listing (list_insert_sorted (word_list_env env))
            else if mode = ''tail-remove'' then tail_remove env f
            else Some (Inr ([], \<lparr>items = Map.empty, objs = Map.empty\<rparr>)))
   | _ \<Rightarrow> Some (Inl (Exit (-1))))"

end
