(* ===== verification/HarnessWords.thy ===== *)
theory HarnessWords imports Harness begin

text \<open>
  What the program of Asmt_1 computes: the words of the file, when each fits its buffer. The
  program stores no NUL behind a word, so what it takes for the word goes on with what the
  buffer contained before, up to the first NUL there; \<open>malloc\<close> and the stack may leave anything
  in it. And what a longer word does.
\<close>

section \<open>The words of a file\<close>

text \<open>The words up to the first empty one: two separators in a row end the input.\<close>

definition first_word :: "byte list \<Rightarrow> byte list" where
  "first_word f = takeWhile (\<lambda>c. \<not> separator c) f"

function words_of :: "byte list \<Rightarrow> byte list list" where
  "words_of f = (if first_word f = [] then []
     else first_word f # words_of (drop (Suc (length (first_word f))) f))"
  by pat_completeness auto
termination
proof (relation "measure length")
  fix f assume "first_word f \<noteq> []"
  then have "f \<noteq> []" by (auto simp: first_word_def)
  then show "(drop (Suc (length (first_word f))) f, f) \<in> measure length" by (cases f) auto
qed simp

declare words_of.simps [simp del]

definition word_fits :: "byte list \<Rightarrow> bool" where
  "word_fits w \<longleftrightarrow> length w \<le> 40 \<and> 0 \<notin> set w"

text \<open>A word in a buffer that contained \<open>c\<close>, and the string that this buffer then holds.\<close>

definition overwrite :: "byte list \<Rightarrow> byte list \<Rightarrow> byte list" where
  "overwrite w c = w @ drop (length w) c"

definition shown :: "byte list \<Rightarrow> byte list \<Rightarrow> byte list" where
  "shown w c = w @ takeWhile (\<lambda>b. b \<noteq> 0) (drop (length w) c)"

definition terminated :: "byte list \<Rightarrow> byte list \<Rightarrow> bool" where
  "terminated w c \<longleftrightarrow> 0 \<in> set (drop (length w) c)"

lemma c_string_overwrite:
  "0 \<notin> set w \<Longrightarrow> c_string (overwrite w c) = (if terminated w c then Inr (shown w c) else Inl Out_Of_Bounds)"
  unfolding c_string_cases overwrite_def shown_def terminated_def
  by (subst takeWhile_append2) auto

lemma shown_cleared: "length w \<le> 40 \<Longrightarrow> terminated w (replicate 41 0) \<and> shown w (replicate 41 0) = w"
  by (auto simp: shown_def terminated_def takeWhile_eq_Nil_iff)

section \<open>Reading a word\<close>

lemma read_chars_word:
  assumes "i + n \<le> length buf" and "length (first_word f) < n"
  shows "read_chars n f buf i = Inr (i + length (first_word f) > 0,
    take i buf @ first_word f @ drop (i + length (first_word f)) buf, drop (Suc (length (first_word f))) f)"
  using assms
proof (induction n arbitrary: f buf i)
  case (Suc n)
  show ?case
  proof (cases "separator (fst (fgetc f))")
    case True
    then have "first_word f = []" "snd (fgetc f) = drop 1 f"
      by (cases f; simp add: first_word_def)+
    with True show ?thesis by (simp add: case_prod_beta)
  next
    case False
    then obtain c cs where f: "f = c # cs" by (cases f) (auto simp: separator_def)
    with False have w: "first_word f = c # first_word cs" by (simp add: first_word_def)
    have "take (Suc i) (buf[i := c]) = take i buf @ [c]"
      using Suc.prems(1) by (simp add: take_Suc_conv_app_nth)
    moreover have "drop (Suc i + length (first_word cs)) (buf[i := c]) = drop (i + length (first_word f)) buf"
      by (simp add: w)
    ultimately show ?thesis
      using Suc.IH [of "Suc i" "buf[i := c]" cs] Suc.prems False f w by simp
  qed
qed simp

lemma read_line_word:
  assumes "length (first_word f) \<le> 40" and "length c = 41"
  shows "read_line f c 41 =
    Inr (first_word f \<noteq> [], overwrite (first_word f) c, drop (Suc (length (first_word f))) f)"
  using read_chars_word [of 0 41 c f] assms by (simp add: read_line_def overwrite_def)

text \<open>A word that fills the whole buffer leaves no NUL in it.\<close>

lemma read_chars_long:
  "i + n = length buf \<Longrightarrow> n \<le> length f \<Longrightarrow> \<forall>c \<in> set (take n f). \<not> separator c \<Longrightarrow>
   read_chars n f buf i = Inr (True, take i buf @ take n f, drop n f)"
proof (induction n arbitrary: f buf i)
  case (Suc n)
  from Suc.prems(2) obtain c cs where f: "f = c # cs" by (cases f) auto
  have "take (Suc i) (buf[i := c]) = take i buf @ [c]"
    using Suc.prems(1) by (simp add: take_Suc_conv_app_nth)
  with Suc.IH [of "Suc i" "buf[i := c]" cs] Suc.prems f show ?case by simp
qed simp

section \<open>echo\<close>

text \<open>After the first word the buffer is cleared.\<close>

lemma echo_loop_cleared:
  "\<forall>w \<in> set (words_of f). word_fits w \<Longrightarrow>
   echo_loop f (replicate 41 0) out = Inr (out @ concat (map (\<lambda>w. w @ [10]) (words_of f)))"
proof (induction f arbitrary: out rule: words_of.induct)
  case (1 f)
  let ?w = "first_word f"
  show ?case
  proof (cases "?w = []")
    case True
    then show ?thesis
      using read_line_word [of f "replicate 41 0"] by (simp add: echo_loop.simps [of f] words_of.simps [of f])
  next
    case False
    then have w: "words_of f = ?w # words_of (drop (Suc (length ?w)) f)"
      by (simp add: words_of.simps [of f])
    with 1(2) have "word_fits ?w" "\<forall>w \<in> set (words_of (drop (Suc (length ?w)) f)). word_fits w" by auto
    with 1(1) [OF False] read_line_word [of f "replicate 41 0"] c_string_overwrite [of ?w "replicate 41 0"]
      shown_cleared [of ?w] False w show ?thesis
      by (simp add: echo_loop.simps [of f] word_fits_def)
  qed
qed

lemma echo_loop_spec:
  assumes fits: "\<forall>w \<in> set (words_of f). word_fits w" and len: "length c = 41"
  shows "echo_loop f c [] = (case words_of f of [] \<Rightarrow> Inr []
    | w # ws \<Rightarrow> if terminated w c then Inr (concat (map (\<lambda>w. w @ [10]) (shown w c # ws)))
               else Inl Out_Of_Bounds)"
proof (cases "first_word f = []")
  case True
  then show ?thesis using read_line_word [of f c] len
    by (simp add: echo_loop.simps [of f] words_of.simps [of f])
next
  case False
  let ?w = "first_word f" and ?f = "drop (Suc (length (first_word f))) f"
  have w: "words_of f = ?w # words_of ?f" using False by (simp add: words_of.simps [of f])
  with fits have "word_fits ?w" "\<forall>w \<in> set (words_of ?f). word_fits w" by auto
  with read_line_word [of f c] len c_string_overwrite [of ?w c] False w echo_loop_cleared [of ?f]
  show ?thesis by (simp add: echo_loop.simps [of f] word_fits_def)
qed

section \<open>Lists of words\<close>

text \<open>
  What the C library promises: \<open>malloc\<close> finds a free address while memory is finite, for items
  and for buffers of 41 bytes; what these contain is some element of \<open>C\<close>, any set of contents.
  The buffer of \<open>echo\<close> has 41 bytes as well.
\<close>

definition harness_env_good :: "byte list set \<Rightarrow> harness_env \<Rightarrow> bool" where
  "harness_env_good C env \<longleftrightarrow> list_env_good (word_list_env env) \<and> length (echo_buf0 env) = 41 \<and>
     (\<forall>h. finite (dom h) \<longrightarrow>
        (\<exists>a c. malloc_buf env h = Some (a, c) \<and> h a = None \<and> length c = 41 \<and> c \<in> C))"

text \<open>
  The list holds buffers \<open>ds\<close> whose strings are \<open>rs\<close> (an error for a buffer without NUL), and
  there are no other items.
\<close>

definition words_held :: "buffers mem \<Rightarrow> buffers list_t \<Rightarrow> nat list \<Rightarrow> byte list res list \<Rightarrow> bool" where
  "words_held m l ds rs \<longleftrightarrow>
     (\<exists>xs. list_inv m l xs \<and> map (idata (items m)) xs = map Some ds \<and> dom (items m) = set xs) \<and>
     distinct ds \<and> map (\<lambda>d. map_option c_string (objs m d)) ds = map Some rs \<and>
     l_delete l = string_data_delete \<and> l_compare l = list_item_compare_string"

lemma words_held_objs:
  assumes "words_held m l ds rs" and "\<And>d. d \<in> set ds \<Longrightarrow> h d = objs m d"
  shows "words_held (m\<lparr>objs := h\<rparr>) l ds rs"
proof -
  have "map (\<lambda>d. map_option c_string (h d)) ds = map (\<lambda>d. map_option c_string (objs m d)) ds"
    using assms(2) by simp
  with assms(1) show ?thesis by (simp add: words_held_def list_inv_def)
qed

lemma words_held_lengths: "words_held m l ds rs \<Longrightarrow> length ds = length rs"
  unfolding words_held_def by (metis length_map)

lemma words_held_start:
  "words_held \<lparr>items = Map.empty, objs = h\<rparr> (list_init list_item_compare_string string_data_delete) [] []"
  by (simp add: words_held_def list_inv_def list_init_def)

text \<open>What the program relies on when it adds a word to its list; \<open>place\<close> says where it goes.\<close>

locale word_insertion =
  fixes env :: harness_env and ins :: insertion
    and place :: "byte list res list \<Rightarrow> byte list res \<Rightarrow> byte list res list"
    and good :: "byte list res \<Rightarrow> bool"
  assumes ins_ok: "list_env_good (word_list_env env) \<Longrightarrow> words_held m l ds rs \<Longrightarrow> objs m d = Some b \<Longrightarrow>
      d \<notin> set ds \<Longrightarrow> \<forall>r \<in> set (c_string b # rs). good r \<Longrightarrow> length rs < 2 ^ 32 - 1 \<Longrightarrow>
      \<exists>m' l' ds'. ins m l (Some d) = Inr (m', l') \<and> words_held m' l' ds' (place rs (c_string b)) \<and>
        set ds' = insert d (set ds) \<and> objs m' = objs m"
    and place_set: "\<forall>r' \<in> set (r # rs). good r' \<Longrightarrow> set (place rs r) = insert r (set rs)"
    and place_length: "length (place rs r) = Suc (length rs)"
begin

text \<open>\<open>cs\<close> are the contents of the buffers that the words are read into.\<close>

lemma fill_list_spec:
  assumes "harness_env_good C env" and "words_held m l ds rs" and "objs m buf = Some c"
    and "c \<in> C" and "length c = 41"
    and "buf \<notin> set ds" and "dom (objs m) = insert buf (set ds)"
    and "\<forall>w \<in> set (words_of f). word_fits w" and "length rs + length (words_of f) < 2 ^ 32"
    and "\<forall>w \<in> set (words_of f). \<forall>c \<in> C. good (c_string (overwrite w c))" and "\<forall>r \<in> set rs. good r"
  shows "\<exists>cs m' l' ds' buf'. fill_list env ins checked f m l (Some buf) = Inr (m', l', Some buf') \<and>
    length cs = length (words_of f) \<and> set cs \<subseteq> C \<and>
    words_held m' l' ds' (foldl place rs (map2 (\<lambda>w c. c_string (overwrite w c)) (words_of f) cs)) \<and>
    buf' \<notin> set ds' \<and> dom (objs m') = insert buf' (set ds')"
  using assms
proof (induction f arbitrary: m l ds rs buf c rule: words_of.induct)
  case (1 f)
  let ?w = "first_word f" and ?f = "drop (Suc (length (first_word f))) f"
  let ?b = "overwrite ?w c" let ?m = "m\<lparr>objs := (objs m)(buf \<mapsto> ?b)\<rparr>"
  have held: "words_held ?m l ds rs" using 1(3,7) by (intro words_held_objs) auto
  have fw: "length ?w \<le> 40"
    using 1(9) by (cases "?w = []") (auto simp: words_of.simps [of f] word_fits_def)
  note read = read_line_word [OF fw 1(6)]
  show ?case
  proof (cases "?w = []")
    case True
    then have "fill_list env ins checked f m l (Some buf) = Inr (?m, l, Some buf)"
      using 1(4) read by (simp add: fill_list.simps [of env] read_line_at_def)
    moreover have "dom (objs ?m) = insert buf (set ds)" using 1(8) by auto
    moreover have "words_of f = []" using True by (simp add: words_of.simps [of f])
    ultimately show ?thesis using held 1(7) by (intro exI [of _ "[]"]) auto
  next
    case False
    have w: "words_of f = ?w # words_of ?f" using False by (simp add: words_of.simps [of f])
    have fits: "\<forall>w \<in> set (words_of ?f). word_fits w"
      "\<forall>w \<in> set (words_of ?f). \<forall>c \<in> C. good (c_string (overwrite w c))"
      and gb: "\<forall>r \<in> set (c_string ?b # rs). good r" using 1(5,9,11,12) w by auto
    have "length rs < 2 ^ 32 - 1" using 1(10) w by simp
    moreover have "list_env_good (word_list_env env)" using 1(2) by (simp add: harness_env_good_def)
    ultimately obtain m1 l1 ds1 where
      ins: "ins ?m l (Some buf) = Inr (m1, l1)" "words_held m1 l1 ds1 (place rs (c_string ?b))"
        "set ds1 = insert buf (set ds)" "objs m1 = objs ?m"
      using ins_ok [OF _ held _ 1(7) gb] by auto
    have dom1: "dom (objs m1) = set ds1" using 1(8) ins(3,4) by auto
    then have "finite (dom (objs m1))" by simp
    then obtain a c1 where a: "malloc_buf env (objs m1) = Some (a, c1)" "objs m1 a = None" "length c1 = 41" "c1 \<in> C"
      using 1(2) unfolding harness_env_good_def by blast
    let ?m2 = "m1\<lparr>objs := (objs m1)(a \<mapsto> c1)\<rparr>"
    have "a \<notin> set ds1" using a(2) dom1 by auto
    moreover from this have "words_held ?m2 l1 ds1 (place rs (c_string ?b))"
      using ins(2) by (intro words_held_objs) auto
    moreover have "dom (objs ?m2) = insert a (set ds1)" using dom1 by simp
    moreover have "length (place rs (c_string ?b)) + length (words_of ?f) < 2 ^ 32"
      using 1(10) w place_length by simp
    moreover have "objs ?m2 a = Some c1" by simp
    moreover have "\<forall>r \<in> set (place rs (c_string ?b)). good r" using place_set [OF gb] gb by simp
    ultimately obtain cs m' l' ds' buf' where
      rest: "fill_list env ins checked ?f ?m2 l1 (Some a) = Inr (m', l', Some buf')"
        "length cs = length (words_of ?f)" "set cs \<subseteq> C"
        "words_held m' l' ds' (foldl place (place rs (c_string ?b)) (map2 (\<lambda>w c. c_string (overwrite w c)) (words_of ?f) cs))"
        "buf' \<notin> set ds'" "dom (objs m') = insert buf' (set ds')"
      using 1(1) [OF False 1(2) _ _ a(4,3) _ _ fits(1) _ fits(2)] by blast
    have "fill_list env ins checked f m l (Some buf) = Inr (m', l', Some buf')"
      using False 1(4) read ins(1) a(1) rest(1)
      by (simp add: fill_list.simps [of env ins checked f] read_line_at_def new_buffer_def)
    with rest w 1(5) show ?thesis by (intro exI [of _ "c # cs"]) auto
  qed
qed

lemma read_list_spec:
  assumes "harness_env_good C env" and "\<forall>w \<in> set (words_of f). word_fits w"
    and "length (words_of f) < 2 ^ 32"
    and "\<forall>w \<in> set (words_of f). \<forall>c \<in> C. good (c_string (overwrite w c))"
  shows "\<exists>cs m l ds. read_list env ins checked f = Inr (m, l) \<and>
    length cs = length (words_of f) \<and> set cs \<subseteq> C \<and>
    words_held m l ds (foldl place [] (map2 (\<lambda>w c. c_string (overwrite w c)) (words_of f) cs)) \<and>
    dom (objs m) = set ds"
proof -
  obtain a c where a: "malloc_buf env Map.empty = Some (a, c)" "length c = 41" "c \<in> C"
    using assms(1) unfolding harness_env_good_def by (metis dom_empty finite.emptyI)
  let ?m = "\<lparr>items = Map.empty, objs = [a \<mapsto> c]\<rparr> :: buffers mem"
  from fill_list_spec [OF assms(1) words_held_start [of "[a \<mapsto> c]"], of a c f checked]
  obtain cs m l ds buf where r: "fill_list env ins checked f ?m
      (list_init list_item_compare_string string_data_delete) (Some a) = Inr (m, l, Some buf)"
    "length cs = length (words_of f)" "set cs \<subseteq> C"
    "words_held m l ds (foldl place [] (map2 (\<lambda>w c. c_string (overwrite w c)) (words_of f) cs))"
    "buf \<notin> set ds" "dom (objs m) = insert buf (set ds)"
    using assms(2-4) a(2,3) by auto
  let ?m' = "m\<lparr>objs := (objs m)(buf := None)\<rparr>"
  have "objs m buf \<noteq> None" using r(6) by auto
  then have "read_list env ins checked f = Inr (?m', l)"
    using a r(1) by (simp add: read_list_def new_buffer_def)
  moreover have "words_held ?m' l ds (foldl place [] (map2 (\<lambda>w c. c_string (overwrite w c)) (words_of f) cs))"
    using r(4,5) by (intro words_held_objs) auto
  moreover have "dom (objs ?m') = set ds" using r(5,6) by auto
  ultimately show ?thesis using r(2,3) by blast
qed

text \<open>An unchecked \<open>malloc\<close> makes no difference as long as it returns memory.\<close>

lemma fill_list_unchecked:
  "harness_env_good C env \<Longrightarrow> fill_list env ins True f m l (Some buf) = Inr r \<Longrightarrow>
   fill_list env ins False f m l (Some buf) = Inr r"
proof (induction f arbitrary: m l buf rule: measure_induct_rule [of length])
  case (less f)
  show ?case
  proof (cases "read_line_at (objs m) (Some buf) f")
    case (Inl e)
    with less.prems(2) show ?thesis by (simp add: fill_list.simps)
  next
    case (Inr x)
    obtain ok h f' where x: "x = (ok, h, f')" by (cases x) auto
    show ?thesis
    proof (cases ok)
      case False
      with less.prems(2) Inr x show ?thesis by (simp add: fill_list.simps)
    next
      case True
      with Inr x have shorter: "length f' < length f" by (auto dest: read_line_at_consumes)
      from less.prems(2) Inr x True obtain m1 l1 a c where
        i: "ins (m\<lparr>objs := h\<rparr>) l (Some buf) = Inr (m1, l1)" "malloc_buf env (objs m1) = Some (a, c)" and
        rest: "fill_list env ins True f' (m1\<lparr>objs := (objs m1)(a \<mapsto> c)\<rparr>) l1 (Some a) = Inr r"
        by (auto simp: fill_list.simps [of env ins True f] bindr_eq_Inr new_buffer_def split: option.splits)
      from less.IH [OF shorter less.prems(1) rest] show ?thesis using Inr x True i
        by (simp add: fill_list.simps [of env ins False f] new_buffer_def)
    qed
  qed
qed

lemma read_list_unchecked:
  assumes "harness_env_good C env" and "read_list env ins True f = Inr r"
  shows "read_list env ins False f = Inr r"
  using assms(2) fill_list_unchecked [OF assms(1)]
  by (auto simp: read_list_def res_simps new_buffer_def split: option.splits)

end

section \<open>The two insertions\<close>

lemma words_heldE:
  assumes "words_held m l ds rs"
  obtains xs where "list_inv m l xs" "map (idata (items m)) xs = map Some ds" "dom (items m) = set xs"
    "length xs = length ds" "length ds = length rs"
  using assms words_held_lengths [OF assms] unfolding words_held_def by (metis length_map)

lemma words_held_insert_tail:
  assumes "list_env_good env" and "words_held m l ds rs" and "objs m d = Some b"
    and "d \<notin> set ds" and "length rs < 2 ^ 32 - 1"
  shows "\<exists>m' l' ds'. list_insert_tail env m l (Some d) = Inr (m', l') \<and>
    words_held m' l' ds' (rs @ [c_string b]) \<and> set ds' = insert d (set ds) \<and> objs m' = objs m"
proof -
  from words_heldE [OF assms(2)] obtain xs where xs: "list_inv m l xs"
    "map (idata (items m)) xs = map Some ds" "dom (items m) = set xs" "length ds = length rs" by metis
  have "length ds + 1 < 2 ^ 32" using assms(5) xs(4) by simp
  from insert_tail_data [OF xs(1,2) assms(1) this, of d] obtain a m' l' where
    r: "list_insert_tail env m l (Some d) = Inr (m', l')" "list_inv m' l' (xs @ [a])"
      "map (idata (items m')) (xs @ [a]) = map Some (ds @ [d])" "dom (items m') = insert a (dom (items m))"
      "objs m' = objs m" "l_compare l' = l_compare l" "l_delete l' = l_delete l" by blast
  have "dom (items m') = set (xs @ [a])" using r(4) xs(3) by simp
  then have "words_held m' l' (ds @ [d]) (rs @ [c_string b])"
    using assms(2-4) r(2,3,5-7) unfolding words_held_def by auto
  with r(1,5) show ?thesis by (intro exI [of _ m'] exI [of _ l'] exI [of _ "ds @ [d]"]) simp
qed

text \<open>The string of a buffer, and when there is one: what \<open>strcmp\<close> compares.\<close>

definition string_ok :: "buffers \<Rightarrow> ptr \<Rightarrow> bool" where
  "string_ok h p \<longleftrightarrow> (\<exists>d b s. p = Some d \<and> h d = Some b \<and> c_string b = Inr s)"

definition string_key :: "buffers \<Rightarrow> ptr \<Rightarrow> byte list" where
  "string_key h p = (case p of None \<Rightarrow> [] | Some d \<Rightarrow> (case h d of None \<Rightarrow> [] | Some b \<Rightarrow>
     (case c_string b of Inl e \<Rightarrow> [] | Inr s \<Rightarrow> s)))"

lemma string_compares_by: "compares_by list_item_compare_string string_ok string_key"
  unfolding compares_by_def
proof (intro allI impI)
  fix m :: "buffers mem" and a b
  assume *: "items m a \<noteq> None" "items m b \<noteq> None" "string_ok (objs m) (idata (items m) a)"
    "string_ok (objs m) (idata (items m) b)"
  then obtain i j d e x y u v where
    "items m a = Some i" "li_data i = Some d" "objs m d = Some x" "c_string x = Inr u"
    "items m b = Some j" "li_data j = Some e" "objs m e = Some y" "c_string y = Inr v"
    by (auto simp: string_ok_def idata_def)
  with strcmp_le [of x u y v] show "\<exists>x. list_item_compare_string m a b = Inr x \<and>
    (x \<le> 0 \<longleftrightarrow> string_key (objs m) (idata (items m) a) \<le> string_key (objs m) (idata (items m) b))"
    by (simp add: list_item_compare_string_def string_key_def idata_def)
qed

abbreviation is_string :: "byte list res \<Rightarrow> bool" where
  "is_string r \<equiv> \<exists>s. r = Inr s"

lemma held_strings:
  assumes "map (\<lambda>d. map_option c_string (h d)) ds = map Some rs" and "\<forall>r \<in> set rs. is_string r"
  shows "map (\<lambda>d. Inr (string_key h (Some d))) ds = rs" (is ?keys)
    and "\<forall>d \<in> set ds. string_ok h (Some d) \<and> map_option c_string (h d) = Some (Inr (string_key h (Some d)))" (is ?oks)
proof -
  have "?keys \<and> ?oks" using assms
  proof (induction ds arbitrary: rs)
    case (Cons d ds)
    then obtain r rs' where e: "rs = r # rs'" by (cases rs) auto
    from Cons.prems e obtain b s where "h d = Some b" "c_string b = Inr s" "r = Inr s" by auto
    then have "Inr (string_key h (Some d)) = r" "string_ok h (Some d)"
      "map_option c_string (h d) = Some (Inr (string_key h (Some d)))"
      by (simp_all add: string_key_def string_ok_def)
    with Cons.IH [of rs'] Cons.prems e show ?case by simp
  qed simp
  then show ?keys ?oks by blast+
qed

text \<open>The place of a string among sorted ones.\<close>

definition place_sorted :: "byte list res list \<Rightarrow> byte list res \<Rightarrow> byte list res list" where
  "place_sorted rs r = map Inr (sort (map projr (r # rs)))"

lemma words_held_insert_sorted:
  assumes env: "list_env_good env" and held: "words_held m l ds rs" and d: "objs m d = Some b"
    "d \<notin> set ds" and ok: "\<forall>r \<in> set (c_string b # rs). is_string r" and len: "length rs < 2 ^ 32 - 1"
  shows "\<exists>m' l' ds'. list_insert_sorted env m l (Some d) = Inr (m', l') \<and>
    words_held m' l' ds' (place_sorted rs (c_string b)) \<and> set ds' = insert d (set ds) \<and> objs m' = objs m"
proof -
  from words_heldE [OF held] obtain xs where xs: "list_inv m l xs"
    "map (idata (items m)) xs = map Some ds" "dom (items m) = set xs" "length ds = length rs" by metis
  have H: "distinct ds" "map (\<lambda>d. map_option c_string (objs m d)) ds = map Some rs"
    "l_delete l = string_data_delete" "l_compare l = list_item_compare_string"
    using held by (simp_all add: words_held_def)
  have "map (\<lambda>d. map_option c_string (objs m d)) (d # ds) = map Some (c_string b # rs)" using H(2) d(1) by simp
  note strings = held_strings [OF this ok]
  let ?key = "\<lambda>e. string_key (objs m) (Some e)"
  have key0: "map ?key (d # ds) = map projr (c_string b # rs)"
    using arg_cong [OF strings(1), of "map projr"] by (simp add: comp_def)
  have "length ds + 1 < 2 ^ 32" using len xs(4) by simp
  moreover have "compares_by (l_compare l) string_ok string_key" using H(4) string_compares_by by simp
  moreover have "\<forall>e \<in> set (d # ds). string_ok (objs m) (Some e)" using strings(2) by blast
  ultimately obtain ys ds' m' l' where
    r: "list_insert_sorted env m l (Some d) = Inr (m', l')" "list_inv m' l' ys" "map (idata (items m')) ys = map Some ds'"
      "dom (items m') = set ys" "mset ds' = mset (d # ds)" "objs m' = objs m"
      "sorted (map ?key ds')" "l_compare l' = l_compare l" "l_delete l' = l_delete l"
    using insert_sorted_data [OF xs(1-3) env] by blast
  have keys: "map ?key ds' = sort (map projr (c_string b # rs))"
  proof (rule properties_for_sort [symmetric])
    show "mset (map ?key ds') = mset (map projr (c_string b # rs))"
      using r(5) key0 by (metis mset_map)
  qed (use r(7) in simp)
  have set_ds': "set ds' = insert d (set ds)" using mset_eq_setD [OF r(5)] by simp
  then have "map (\<lambda>d. map_option c_string (objs m d)) ds' = map (\<lambda>d. Some (Inr (?key d))) ds'"
    using strings(2) by simp
  also have "\<dots> = map Some (place_sorted rs (c_string b))"
    using arg_cong [OF keys, of "map (\<lambda>s. Some (Inr s))"] by (simp add: place_sorted_def comp_def)
  finally have "map (\<lambda>d. map_option c_string (objs m d)) ds' = \<dots>" .
  moreover have "distinct ds'" using mset_eq_imp_distinct_iff [OF r(5)] d(2) H(1) by simp
  ultimately have "words_held m' l' ds' (place_sorted rs (c_string b))"
    using r(2,3,4,6,8,9) H(3,4) unfolding words_held_def by auto
  with r(1,6) set_ds' show ?thesis by blast
qed

lemma place_sorted_set:
  assumes "\<forall>r' \<in> set (r # rs). is_string r'"
  shows "set (place_sorted rs r) = insert r (set rs)"
proof -
  have "\<forall>x \<in> set (r # rs). Inr (projr x) = x" using assms by auto
  then have "(\<lambda>x. Inr (projr x)) ` set (r # rs) = set (r # rs)" by force
  then show ?thesis unfolding place_sorted_def set_map set_sort image_image by simp
qed

interpretation tail_words: word_insertion env "list_insert_tail (word_list_env env)" "\<lambda>rs r. rs @ [r]" "\<lambda>r. True" for env
  by (unfold_locales, use words_held_insert_tail in blast, auto)

interpretation sorted_words: word_insertion env "list_insert_sorted (word_list_env env)" place_sorted is_string for env
  by (unfold_locales, use words_held_insert_sorted in blast, use place_sorted_set in blast,
    simp add: place_sorted_def)

lemma foldl_append: "foldl (\<lambda>rs r. rs @ [r]) acc rs = acc @ rs"
  by (induction rs arbitrary: acc) auto

lemma foldl_place_sorted:
  "foldl place_sorted (map Inr (sort acc)) (map Inr ws) = map Inr (sort (acc @ ws))"
proof (induction ws arbitrary: acc)
  case (Cons w ws)
  have "sort (w # sort acc) = sort (acc @ [w])" by (rule properties_for_sort) simp_all
  with Cons.IH [of "acc @ [w]"] show ?case by (simp add: place_sorted_def comp_def)
qed simp

lemma foldl_place_sorted_Nil: "foldl place_sorted [] (map Inr ws) = map Inr (sort ws)"
  using foldl_place_sorted [of "[]" ws] by simp

section \<open>Printing and removing\<close>

text \<open>The lines that the program prints for words.\<close>

definition word_lines :: "byte list list \<Rightarrow> byte list" where
  "word_lines ws = concat (map (\<lambda>w. w @ [10]) ws)"

lemma print_list_strings:
  assumes "words_held m l ds rs"
  shows "print_list m l = Some (bindr (mapr (\<lambda>r. bindr r (\<lambda>s. Inr (s @ [10]))) rs) (\<lambda>ls. Inr (concat ls)))"
proof -
  from assms obtain xs where xs: "list_inv m l xs" "map (idata (items m)) xs = map Some ds"
    "map (\<lambda>d. map_option c_string (objs m d)) ds = map Some rs"
    by (auto simp: words_held_def)
  have live: "items m b \<noteq> None" if "b \<in> set xs" for b using list_invD(7) [OF xs(1)] that by blast
  have "mapr (print_data_string m) xs = mapr (\<lambda>r. bindr r (\<lambda>s. Inr (s @ [10]))) rs"
    using xs(2,3) live
  proof (induction xs arbitrary: ds rs)
    case (Cons x xs)
    then obtain d ds' r rs' where e: "ds = d # ds'" "rs = r # rs'" by (cases ds; cases rs; auto)
    from Cons.prems(3) [of x] obtain i where i: "items m x = Some i" by auto
    then have "li_data i = Some d" using Cons.prems(1) e by (simp add: idata_def)
    moreover obtain b where "objs m d = Some b" "c_string b = r" using Cons.prems(2) e by auto
    ultimately have "print_data_string m x = bindr r (\<lambda>s. Inr (s @ [10]))"
      using i by (simp add: print_data_string_def)
    with Cons.IH [of ds' rs'] Cons.prems e show ?case by simp
  qed simp
  with visit_items_spec [OF xs(1)] show ?thesis by (simp add: print_list_def)
qed

lemma print_list_words:
  assumes "words_held m l ds (map Inr ws)"
  shows "print_list m l = Some (Inr (word_lines ws))"
proof -
  have "mapr (\<lambda>r. bindr r (\<lambda>s. Inr (s @ [10]))) (map Inr ws) = Inr (map (\<lambda>w. w @ [10]) ws)"
    by (induction ws) auto
  with print_list_strings [OF assms] show ?thesis by (simp add: word_lines_def)
qed

lemma print_list_unterminated:
  assumes "words_held m l ds rs" and "\<forall>r \<in> set rs. is_string r \<or> r = Inl Out_Of_Bounds"
    and "Inl Out_Of_Bounds \<in> set rs"
  shows "print_list m l = Some (Inl Out_Of_Bounds)"
proof -
  have "mapr (\<lambda>r. bindr r (\<lambda>s. Inr (s @ [10]))) rs = Inl Out_Of_Bounds" using assms(2,3)
    by (induction rs) auto
  with print_list_strings [OF assms(1)] show ?thesis by simp
qed

lemma words_held_remove:
  assumes "words_held m l (d # ds) (r # rs)"
  shows "\<exists>m' l'. list_remove_head m l = Inr (m', l') \<and> words_held m' l' ds rs \<and>
    objs m' = (objs m)(d := None)"
proof -
  from assms obtain a xs where xs: "list_inv m l (a # xs)" "map (idata (items m)) (a # xs) = map Some (d # ds)"
    "dom (items m) = set (a # xs)" and d: "d \<notin> set ds" "objs m d \<noteq> None" "l_delete l = string_data_delete"
    by (auto simp: words_held_def map_eq_Cons_conv)
  from remove_head_data [OF xs(1,2) d(3,2)] obtain m' l' where
    r: "list_remove_head m l = Inr (m', l')" "list_inv m' l' xs" "map (idata (items m')) xs = map Some ds"
      "dom (items m') = dom (items m) - {a}" "objs m' = (objs m)(d := None)"
      "l_compare l' = l_compare l" "l_delete l' = l_delete l" by blast
  have "dom (items m') = set xs" using xs(3) r(4) list_invD(2) [OF xs(1)] by auto
  moreover have "map (\<lambda>d. map_option c_string (objs m' d)) ds = map Some rs"
  proof -
    have "map (\<lambda>d. map_option c_string (objs m' d)) ds = map (\<lambda>d. map_option c_string (objs m d)) ds"
      using d(1) by (auto simp: r(5))
    also have "\<dots> = map Some rs" using assms by (simp add: words_held_def)
    finally show ?thesis .
  qed
  ultimately have "words_held m' l' ds rs"
    using assms r(2,3,6,7) unfolding words_held_def by auto
  with r(1,5) show ?thesis by blast
qed

lemma words_held_remove_many:
  "words_held m l ds rs \<Longrightarrow> k \<le> length rs \<Longrightarrow>
   \<exists>m' l'. repeat_step (\<lambda>s. list_remove_head (fst s) (snd s)) k (m, l) = Inr (m', l') \<and>
     words_held m' l' (drop k ds) (drop k rs) \<and> dom (objs m') = dom (objs m) - set (take k ds)"
proof (induction k arbitrary: m l ds rs)
  case (Suc k)
  then obtain d ds' r rs' where e: "ds = d # ds'" "rs = r # rs'"
    using words_held_lengths [OF Suc.prems(1)] by (cases ds; cases rs) auto
  from words_held_remove [OF Suc.prems(1) [unfolded e]] obtain m1 l1 where
    m1: "list_remove_head m l = Inr (m1, l1)" "words_held m1 l1 ds' rs'" "objs m1 = (objs m)(d := None)"
    by blast
  from Suc.IH [OF m1(2)] Suc.prems(2) e obtain m' l' where
    "repeat_step (\<lambda>s. list_remove_head (fst s) (snd s)) k (m1, l1) = Inr (m', l')"
    "words_held m' l' (drop k ds') (drop k rs')" "dom (objs m') = dom (objs m1) - set (take k ds')" by auto
  with m1 e show ?case by auto
qed auto

lemma cleanup_words:
  "words_held m l ds rs \<Longrightarrow> dom (objs m) = set ds \<Longrightarrow>
   \<exists>m' l'. cleanup_list m l = Some (Inr (m', l')) \<and> words_held m' l' [] [] \<and>
     m' = \<lparr>items = Map.empty, objs = Map.empty\<rparr>"
proof (induction rs arbitrary: m l ds)
  case Nil
  then have ds: "ds = []" using words_held_lengths by fastforce
  from words_heldE [OF Nil(1)] ds obtain xs where xs: "list_inv m l xs" "dom (items m) = set xs" "length xs = 0"
    by (metis list.size(3))
  then have "l_head l = None" by (simp add: list_inv_def)
  then have "cleanup_list m l = Some (Inr (m, l))" by (subst cleanup_list.simps) simp
  moreover have "m = \<lparr>items = Map.empty, objs = Map.empty\<rparr>" using xs(2,3) Nil(2) ds by (cases m) auto
  ultimately show ?case using Nil(1) ds by blast
next
  case (Cons r rs)
  then obtain d ds' where ds: "ds = d # ds'" using words_held_lengths by (cases ds) fastforce+
  from words_held_remove [OF Cons.prems(1) [unfolded ds]] obtain m1 l1 where
    m1: "list_remove_head m l = Inr (m1, l1)" "words_held m1 l1 ds' rs" "objs m1 = (objs m)(d := None)"
    by blast
  have "d \<notin> set ds'" using Cons.prems(1) ds by (simp add: words_held_def)
  then have "dom (objs m1) = set ds'" using Cons.prems(2) ds m1(3) by auto
  from Cons.IH [OF m1(2) this] obtain m' l' where
    r: "cleanup_list m1 l1 = Some (Inr (m', l'))" "words_held m' l' [] []"
      "m' = \<lparr>items = Map.empty, objs = Map.empty\<rparr>" by blast
  have "l_head l \<noteq> None"
  proof -
    from Cons.prems(1) obtain xs where "list_inv m l xs" "length xs = length (r # rs)"
      using words_heldE by metis
    then show ?thesis by (cases xs) (auto simp: list_inv_def)
  qed
  then have "cleanup_list m l = Some (Inr (m', l'))"
    using m1(1) r(1) by (subst cleanup_list.simps) auto
  with r show ?case by blast
qed

section \<open>What the words become\<close>

text \<open>The strings of the buffers after the words were read over the contents \<open>cs\<close>.\<close>

lemma strings_terminated:
  assumes "\<forall>w \<in> set ws. word_fits w" and "length cs = length ws" and "list_all2 terminated ws cs"
  shows "map2 (\<lambda>w c. c_string (overwrite w c)) ws cs = map Inr (map2 shown ws cs)"
  using assms(2,1,3)
  by (induction cs ws rule: list_induct2) (auto simp: c_string_overwrite word_fits_def)

lemma strings_unterminated:
  assumes "\<forall>w \<in> set ws. word_fits w" and "length cs = length ws"
  shows "\<not> list_all2 terminated ws cs \<Longrightarrow> Inl Out_Of_Bounds \<in> set (map2 (\<lambda>w c. c_string (overwrite w c)) ws cs)"
    and "\<forall>r \<in> set (map2 (\<lambda>w c. c_string (overwrite w c)) ws cs). is_string r \<or> r = Inl Out_Of_Bounds"
proof -
  show "Inl Out_Of_Bounds \<in> set (map2 (\<lambda>w c. c_string (overwrite w c)) ws cs)" if "\<not> list_all2 terminated ws cs"
    using assms(2,1) that
    by (induction cs ws rule: list_induct2) (auto simp: c_string_overwrite word_fits_def)
  show "\<forall>r \<in> set (map2 (\<lambda>w c. c_string (overwrite w c)) ws cs). is_string r \<or> r = Inl Out_Of_Bounds"
    by (auto simp: c_string_cases split: if_splits)
qed

end
