(* ===== verification/HarnessProps.thy ===== *)
theory HarnessProps imports HarnessWords begin

text \<open>
  The properties of the program of Asmt_1. They rest on \<open>HarnessWords\<close> and hold whatever fresh
  buffers contain, for words that fit them (\<open>word_fits\<close>); the last one shows what a longer word
  does.
\<close>

section \<open>An example\<close>

text \<open>\<open>malloc\<close> returns cleared buffers, the one on the stack is left with three letters.\<close>

definition ex_harness_env :: "byte list \<Rightarrow> harness_env" where
  "ex_harness_env f = \<lparr>word_list_env = \<lparr>malloc_item = fresh_address, sort_items = insertion_sort\<rparr>,
     malloc_buf = (\<lambda>h. map_option (\<lambda>a. (a, replicate 41 0)) (fresh_address h)),
     echo_buf0 = [120, 121, 122] @ replicate 38 0, input_files = (\<lambda>name. Some f)\<rparr>"

lemma ex_harness_env_good: "harness_env_good {replicate 41 0} (ex_harness_env f)"
  using fresh_address_free [of "h :: buffers" for h]
  by (auto simp: harness_env_good_def list_env_good_def ex_harness_env_def fresh_address_free insertion_sort_ok)

text \<open>The file \<open>b a\<close> and a file of one word of 41 letters.\<close>

definition ex_file :: "byte list" where
  "ex_file = [98, 32, 97, 10]"

lemma ex_file_words: "words_of ex_file = [[98], [97]]"
  by (simp add: words_of.simps first_word_def separator_def ex_file_def)

section \<open>The properties\<close>

lemma remove_threes_words:
  "words_held m l ds (map Inr ws) \<Longrightarrow> dom (objs m) = set ds \<Longrightarrow> 3 * n \<le> length ws \<Longrightarrow>
   \<exists>m' l' ds'. remove_threes n m l out = Some (Inr (out @
       concat (map (\<lambda>k. rule_line @ word_lines (drop (3 * Suc k) ws)) [0..<n]), m', l')) \<and>
     words_held m' l' ds' (map Inr (drop (3 * n) ws)) \<and> dom (objs m') = set ds'"
proof (induction n arbitrary: m l ds ws out)
  case 0
  then show ?case by auto
next
  case (Suc n)
  then have "3 \<le> length (map Inr ws)" by simp
  from words_held_remove_many [OF Suc.prems(1) this] obtain m1 l1 where
    r: "repeat_step (\<lambda>s. list_remove_head (fst s) (snd s)) 3 (m, l) = Inr (m1, l1)"
      "words_held m1 l1 (drop 3 ds) (map Inr (drop 3 ws))" "dom (objs m1) = dom (objs m) - set (take 3 ds)"
    by (auto simp: drop_map)
  have "distinct ds" using Suc.prems(1) by (simp add: words_held_def)
  then have "set (take 3 ds) \<inter> set (drop 3 ds) = {}" by (simp add: set_take_disj_set_drop_if_distinct)
  moreover have "set ds = set (take 3 ds) \<union> set (drop 3 ds)" by (metis append_take_drop_id set_append)
  ultimately have "dom (objs m1) = set (drop 3 ds)" using r(3) Suc.prems(2) by auto
  moreover have "3 * n \<le> length (drop 3 ws)" using Suc.prems(3) by simp
  ultimately obtain m' l' ds' where
    rest: "remove_threes n m1 l1 (out @ rule_line @ word_lines (drop 3 ws)) = Some (Inr
        ((out @ rule_line @ word_lines (drop 3 ws)) @
          concat (map (\<lambda>k. rule_line @ word_lines (drop (3 * Suc k) (drop 3 ws))) [0..<n]), m', l'))"
      "words_held m' l' ds' (map Inr (drop (3 * n) (drop 3 ws)))" "dom (objs m') = set ds'"
    using Suc.IH [OF r(2)] by blast
  have split: "[0..<Suc n] = 0 # map Suc [0..<n]" by (simp add: upt_conv_Cons map_Suc_upt del: upt_Suc)
  have "remove_threes (Suc n) m l out = Some (Inr (out @
      concat (map (\<lambda>k. rule_line @ word_lines (drop (3 * Suc k) ws)) [0..<Suc n]), m', l'))"
    using r(1) rest(1) print_list_words [OF r(2)]
    unfolding split by (simp add: then_run_def comp_def add.commute)
  moreover have "words_held m' l' ds' (map Inr (drop (3 * Suc n) ws))" using rest(2) by (simp add: add.commute)
  ultimately show ?case using rest(3) by blast
qed

text \<open>The output of \<open>tail-remove\<close> for the lines of a list.\<close>

definition threes_output :: "byte list list \<Rightarrow> byte list" where
  "threes_output ls = map (of_nat \<circ> of_char) ''Running tail-remove'' @ [10] @ word_lines ls @
     concat (map (\<lambda>k. rule_line @ word_lines (drop (3 * Suc k) ls)) [0..<length ls div 3]) @ rule_line"

lemma tail_remove_words:
  assumes "read_list env (list_insert_tail (word_list_env env)) False f = Inr (m, l)"
    and held: "words_held m l ds (map Inr ls)" and "dom (objs m) = set ds"
  shows "tail_remove env f = Some (Inr (threes_output ls, \<lparr>items = Map.empty, objs = Map.empty\<rparr>))"
proof -
  let ?start = "map (of_nat \<circ> of_char) ''Running tail-remove'' @ [10] @ word_lines ls"
    and ?nothing = "\<lparr>items = Map.empty, objs = Map.empty\<rparr> :: buffers mem"
  have "unat (l_length l) = length ls"
    using held words_heldE list_invD(5) by (metis length_map)
  then have n: "unat (l_length l div 3) = length ls div 3" by (simp add: unat_div)
  have "3 * (length ls div 3) \<le> length ls" by simp
  from remove_threes_words [OF held assms(3) this] obtain m1 l1 ds1 where
    d: "remove_threes (length ls div 3) m l ?start = Some (Inr (?start @
          concat (map (\<lambda>k. rule_line @ word_lines (drop (3 * Suc k) ls)) [0..<length ls div 3]), m1, l1))"
      "words_held m1 l1 ds1 (map Inr (drop (3 * (length ls div 3)) ls))" "dom (objs m1) = set ds1" by blast
  from cleanup_words [OF d(2,3)] obtain l2 where
    c: "cleanup_list m1 l1 = Some (Inr (?nothing, l2))" "words_held ?nothing l2 [] []" by blast
  have "print_list ?nothing l2 = Some (Inr [])"
    using print_list_words [of ?nothing l2 "[]" "[]"] c(2) by (simp add: word_lines_def)
  then show ?thesis
    using assms(1) print_list_words [OF held] d(1) c(1)
    by (simp add: tail_remove_def threes_output_def then_run_def n del: upt_Suc list.map)
qed

text \<open>
  C24. The options \<open>echo\<close>, \<open>tail\<close> and \<open>tail-remove\<close>, for a file whose words have at most 40
  characters and contain no NUL, and a \<open>malloc\<close> that returns memory with any contents \<open>C\<close>. The
  words are those up to the first empty one. As no NUL is stored behind a word, each is printed
  with what its buffer contained behind it, up to the first NUL there; without one the program
  reads past the buffer. For \<open>echo\<close> this concerns the first word only, because the buffer on the
  stack is cleared afterwards; for \<open>tail\<close> every word, whose buffers contained the same \<open>cs\<close> under
  \<open>tail-remove\<close>. If the buffers hold a NUL there, \<open>echo\<close> and \<open>tail\<close> print the words one in a
  line, \<open>tail-remove\<close> prints them and then, as often as there are three words left, what remains
  without the first three, and all memory is freed.
\<close>

theorem harness_prints:
  assumes "harness_env_good C env" and "input_files env name = Some f"
    and "\<forall>w \<in> set (words_of f). word_fits w" and "length (words_of f) < 2 ^ 32"
  defines "ws \<equiv> words_of f" and "nothing \<equiv> \<lparr>items = Map.empty, objs = Map.empty\<rparr>"
  shows "harness_main env [name, ''echo''] =
      (case ws of [] \<Rightarrow> Some (Inr ([], nothing))
       | w # vs \<Rightarrow> if terminated w (echo_buf0 env)
           then Some (Inr (word_lines (shown w (echo_buf0 env) # vs), nothing))
           else Some (Inl Out_Of_Bounds)) \<and>
    (\<exists>cs. length cs = length ws \<and> set cs \<subseteq> C \<and>
       (if list_all2 terminated ws cs
        then harness_main env [name, ''tail''] = Some (Inr (word_lines (map2 shown ws cs), nothing)) \<and>
          harness_main env [name, ''tail-remove''] = Some (Inr (threes_output (map2 shown ws cs), nothing))
        else harness_main env [name, ''tail''] = Some (Inl Out_Of_Bounds) \<and>
          harness_main env [name, ''tail-remove''] = Some (Inl Out_Of_Bounds)))"
proof
  have "length (echo_buf0 env) = 41" using assms(1) by (simp add: harness_env_good_def)
  then show "harness_main env [name, ''echo''] =
      (case ws of [] \<Rightarrow> Some (Inr ([], nothing))
       | w # vs \<Rightarrow> if terminated w (echo_buf0 env)
           then Some (Inr (word_lines (shown w (echo_buf0 env) # vs), nothing))
           else Some (Inl Out_Of_Bounds))"
    using assms(2) echo_loop_spec [OF assms(3)]
    by (simp add: harness_main_def word_lines_def ws_def nothing_def split: list.split)
  let ?rs = "\<lambda>cs. map2 (\<lambda>w c. c_string (overwrite w c)) ws cs"
  from tail_words.read_list_spec [OF assms(1,3,4), of True] obtain cs m l ds where
    t: "read_list env (list_insert_tail (word_list_env env)) True f = Inr (m, l)"
      "length cs = length ws" "set cs \<subseteq> C" "words_held m l ds (?rs cs)" "dom (objs m) = set ds"
    by (auto simp: foldl_append ws_def)
  note r = tail_words.read_list_unchecked [OF assms(1) t(1)]
  have "if list_all2 terminated ws cs
    then harness_main env [name, ''tail''] = Some (Inr (word_lines (map2 shown ws cs), nothing)) \<and>
      harness_main env [name, ''tail-remove''] = Some (Inr (threes_output (map2 shown ws cs), nothing))
    else harness_main env [name, ''tail''] = Some (Inl Out_Of_Bounds) \<and>
      harness_main env [name, ''tail-remove''] = Some (Inl Out_Of_Bounds)"
  proof (cases "list_all2 terminated ws cs")
    case True
    have held: "words_held m l ds (map Inr (map2 shown ws cs))"
      using t(4) strings_terminated [OF assms(3) [folded ws_def] t(2) True] by simp
    from cleanup_words [OF held t(5)] obtain l' where "cleanup_list m l = Some (Inr (nothing, l'))"
      unfolding nothing_def by blast
    then show ?thesis
      using True assms(2) t(1) print_list_words [OF held] tail_remove_words [OF r held t(5)]
      by (simp add: harness_main_def then_run_def print_and_clean_def nothing_def)
  next
    case False
    note u = strings_unterminated [OF assms(3) [folded ws_def] t(2)]
    from print_list_unterminated [OF t(4) u(2) u(1) [OF False]] show ?thesis
      using False assms(2) t(1) r
      by (simp add: harness_main_def then_run_def print_and_clean_def tail_remove_def)
  qed
  with t(2,3) show "\<exists>cs. length cs = length ws \<and> set cs \<subseteq> C \<and>
     (if list_all2 terminated ws cs
      then harness_main env [name, ''tail''] = Some (Inr (word_lines (map2 shown ws cs), nothing)) \<and>
        harness_main env [name, ''tail-remove''] = Some (Inr (threes_output (map2 shown ws cs), nothing))
      else harness_main env [name, ''tail''] = Some (Inl Out_Of_Bounds) \<and>
        harness_main env [name, ''tail-remove''] = Some (Inl Out_Of_Bounds))" by blast
qed

text \<open>With cleared buffers the words are printed as they are, and the first of \<open>echo\<close> not.\<close>

lemma cleared_buffers:
  assumes "\<forall>w \<in> set ws. word_fits w" and "length cs = length ws" and "set cs \<subseteq> {replicate 41 0}"
  shows "list_all2 terminated ws cs \<and> map2 shown ws cs = ws"
  using assms(2,1,3) shown_cleared
  by (induction cs ws rule: list_induct2) (auto simp: word_fits_def)

theorem harness_prints_witness:
  "harness_main (ex_harness_env ex_file) [''f'', ''echo''] =
     Some (Inr ([98, 121, 122, 10, 97, 10], \<lparr>items = Map.empty, objs = Map.empty\<rparr>)) \<and>
   harness_main (ex_harness_env ex_file) [''f'', ''tail''] =
     Some (Inr ([98, 10, 97, 10], \<lparr>items = Map.empty, objs = Map.empty\<rparr>))"
proof -
  have fits: "\<forall>w \<in> set (words_of ex_file). word_fits w" by (simp add: ex_file_words word_fits_def)
  have "terminated [98] (echo_buf0 (ex_harness_env ex_file))"
    "shown [98] (echo_buf0 (ex_harness_env ex_file)) = [98, 121, 122]"
    by (simp_all add: terminated_def shown_def ex_harness_env_def)
  moreover have "input_files (ex_harness_env ex_file) ''f'' = Some ex_file" by (simp add: ex_harness_env_def)
  note run = harness_prints [OF ex_harness_env_good this fits]
  from run obtain cs where "length cs = length (words_of ex_file)" "set cs \<subseteq> {replicate 41 0}"
    "if list_all2 terminated (words_of ex_file) cs
     then harness_main (ex_harness_env ex_file) [''f'', ''tail''] =
       Some (Inr (word_lines (map2 shown (words_of ex_file) cs), \<lparr>items = Map.empty, objs = Map.empty\<rparr>)) else True"
    by (auto simp: ex_file_words split: if_splits)
  with cleared_buffers [OF fits] have "harness_main (ex_harness_env ex_file) [''f'', ''tail''] =
      Some (Inr (word_lines (words_of ex_file), \<lparr>items = Map.empty, objs = Map.empty\<rparr>))" by simp
  ultimately show ?thesis using run by (simp add: ex_file_words word_lines_def)
qed

text \<open>
  The option \<open>sort\<close> (of which a comment says that it does not seem to sort correctly) sorts,
  when every buffer that \<open>malloc\<close> returns has a NUL where one is needed: for a file whose words
  fit the buffers it prints what the buffers show of them in lexicographic order, one in a line,
  each as often as it occurs, and frees all memory.
\<close>

theorem harness_sorts:
  assumes "harness_env_good C env" and "input_files env name = Some f"
    and "\<forall>w \<in> set (words_of f). word_fits w \<and> (\<forall>c \<in> C. terminated w c)" and "length (words_of f) < 2 ^ 32"
  shows "\<exists>cs. length cs = length (words_of f) \<and> set cs \<subseteq> C \<and> harness_main env [name, ''sort''] =
    Some (Inr (word_lines (sort (map2 shown (words_of f) cs)), \<lparr>items = Map.empty, objs = Map.empty\<rparr>))"
proof -
  have fits: "\<forall>w \<in> set (words_of f). word_fits w"
    "\<forall>w \<in> set (words_of f). \<forall>c \<in> C. is_string (c_string (overwrite w c))"
    using assms(3) by (auto simp: c_string_overwrite word_fits_def)
  from sorted_words.read_list_spec [OF assms(1) fits(1) assms(4) fits(2), of True] obtain cs m l ds where
    r: "read_list env (list_insert_sorted (word_list_env env)) True f = Inr (m, l)"
      "length cs = length (words_of f)" "set cs \<subseteq> C" "dom (objs m) = set ds"
      "words_held m l ds (foldl place_sorted [] (map2 (\<lambda>w c. c_string (overwrite w c)) (words_of f) cs))"
    by blast
  have "list_all2 terminated (words_of f) cs"
    using r(2,3) assms(3) by (auto simp: list_all2_conv_all_nth subset_eq all_set_conv_all_nth)
  note r(5) [unfolded strings_terminated [OF fits(1) r(2) this]]
  then have held: "words_held m l ds (map Inr (sort (map2 shown (words_of f) cs)))"
    by (simp only: foldl_place_sorted_Nil)
  from cleanup_words [OF held r(4)] obtain l' where
    "cleanup_list m l = Some (Inr (\<lparr>items = Map.empty, objs = Map.empty\<rparr>, l'))" by blast
  then have "harness_main env [name, ''sort''] = Some (Inr (word_lines (sort (map2 shown (words_of f) cs)),
      \<lparr>items = Map.empty, objs = Map.empty\<rparr>))"
    using assms(2) r(1) print_list_words [OF held]
    by (simp add: harness_main_def then_run_def print_and_clean_def)
  with r(2,3) show ?thesis by blast
qed

theorem harness_sorts_witness:
  "harness_main (ex_harness_env ex_file) [''f'', ''sort''] =
     Some (Inr ([97, 10, 98, 10], \<lparr>items = Map.empty, objs = Map.empty\<rparr>))"
proof -
  have fits: "\<forall>w \<in> set (words_of ex_file). word_fits w \<and> (\<forall>c \<in> {replicate 41 0}. terminated w c)"
    using shown_cleared by (simp add: ex_file_words word_fits_def)
  have "input_files (ex_harness_env ex_file) ''f'' = Some ex_file" by (simp add: ex_harness_env_def)
  from harness_sorts [OF ex_harness_env_good this fits] obtain cs where
    "length cs = length (words_of ex_file)" "set cs \<subseteq> {replicate 41 0}"
    "harness_main (ex_harness_env ex_file) [''f'', ''sort''] = Some (Inr (word_lines (sort
       (map2 shown (words_of ex_file) cs)), \<lparr>items = Map.empty, objs = Map.empty\<rparr>))"
    by (auto simp: ex_file_words)
  with cleared_buffers [of "words_of ex_file" cs] fits show ?thesis by (simp add: ex_file_words word_lines_def)
qed

text \<open>
  A word of more than 40 characters fills its buffer and leaves no room for the NUL:
  \<open>echo\<close> of a file that starts with one reads past the end of the buffer, whatever the buffer
  contained before.
\<close>

theorem harness_long_word:
  assumes "input_files env name = Some f" and "length (echo_buf0 env) = 41" and "41 \<le> length f"
    and "\<forall>c \<in> set (take 41 f). \<not> separator c \<and> c \<noteq> 0"
  shows "harness_main env [name, ''echo''] = Some (Inl Out_Of_Bounds)"
proof -
  have "read_line f (echo_buf0 env) 41 = Inr (True, take 41 f, drop 41 f)"
    using read_chars_long [of 0 41 "echo_buf0 env" f] assms(2-4) by (simp add: read_line_def)
  moreover have "c_string (take 41 f) = Inl Out_Of_Bounds"
    using assms(4) by (intro c_string_no_nul) blast
  ultimately have "echo_loop f (echo_buf0 env) [] = Inl Out_Of_Bounds"
    by (simp add: echo_loop.simps [of f])
  with assms(1) show ?thesis by (simp add: harness_main_def)
qed

theorem harness_long_word_witness:
  "harness_main (ex_harness_env (replicate 50 120)) [''f'', ''echo''] = Some (Inl Out_Of_Bounds)"
  by (rule harness_long_word [of _ _ "replicate 50 120"])
    (simp_all add: ex_harness_env_def separator_def)

end
