(* ===== verification/Philosophers.thy ===== *)
theory Philosophers imports Prelude begin

text \<open>
  The dining philosophers of Asmt_5 (philosophers.c): \<open>n\<close> threads run \<open>philosopher_thread\<close>;
  a global mutex, \<open>chopstick_manipulation_lock\<close>, is tried first, and a philosopher that does
  not get it waits for a signal on \<open>canEat_cv\<close> before it blocks on the mutex.

  Each philosopher is at a point of its loop (\<open>phil_pc\<close>); a step takes one philosopher to its
  next point. The sections under \<open>canEat_mutex\<close> hold one operation each and are one step
  (\<open>pthread_cond_wait\<close> gives the mutex back while it waits); a signal wakes one waiting
  philosopher, which one is open, and POSIX allows a wake-up without a signal. Sleeping
  and printing take no step of their own.
\<close>

section \<open>State\<close>

datatype state_t = STATE_THINKING | STATE_HUNGRY | STATE_EATING

text \<open>
  The points of the loop of \<open>philosopher_thread\<close>. \<open>At_Think\<close>: before the state becomes hungry;
  \<open>At_Trylock\<close>: before \<open>pthread_mutex_trylock\<close>; \<open>At_Wait\<close>: the lock was taken, before
  \<open>pthread_cond_wait\<close>; \<open>In_Wait\<close>: inside it; \<open>At_Lock\<close>: woken, before \<open>pthread_mutex_lock\<close>;
  \<open>At_Right\<close> and \<open>At_Left\<close>: has the lock, before \<open>pickup_right\<close> and \<open>pickup_left\<close>; \<open>At_Eat\<close>:
  before the state becomes eating; \<open>Eating\<close>: eats, before \<open>putdown_right\<close>; \<open>At_Left_Down\<close>:
  before \<open>putdown_left\<close>; \<open>At_Signal\<close>: before \<open>pthread_cond_signal\<close>; \<open>At_Thinking\<close>: before the
  state becomes thinking; \<open>At_Unlock\<close>: before \<open>pthread_mutex_unlock\<close>.
\<close>

datatype phil_pc =
    At_Think
  | At_Trylock
  | At_Wait
  | In_Wait
  | At_Lock
  | At_Right
  | At_Left
  | At_Eat
  | Eating
  | At_Left_Down
  | At_Signal
  | At_Thinking
  | At_Unlock

record table =
  state_of :: "state_t list"
  pc_of :: "phil_pc list"
  down :: "bool list"
  manipulation_lock :: "nat option"

definition table0 :: "nat \<Rightarrow> table" where
  "table0 n = \<lparr>state_of = replicate n STATE_THINKING, pc_of = replicate n At_Think,
     down = replicate n True, manipulation_lock = None\<rparr>"

section \<open>The operations of a philosopher\<close>

definition left_stick :: "table \<Rightarrow> nat \<Rightarrow> nat" where
  "left_stick t i = i"

definition right_stick :: "table \<Rightarrow> nat \<Rightarrow> nat" where
  "right_stick t i = (i + 1) mod length (down t)"

definition update_state :: "table \<Rightarrow> nat \<Rightarrow> state_t \<Rightarrow> table" where
  "update_state t i s = t\<lparr>state_of := (state_of t)[i := s]\<rparr>"

definition pickup_left :: "table \<Rightarrow> nat \<Rightarrow> table" where
  "pickup_left t i = t\<lparr>down := (down t)[left_stick t i := False]\<rparr>"

definition pickup_right :: "table \<Rightarrow> nat \<Rightarrow> table" where
  "pickup_right t i = t\<lparr>down := (down t)[right_stick t i := False]\<rparr>"

definition putdown_left :: "table \<Rightarrow> nat \<Rightarrow> table" where
  "putdown_left t i = t\<lparr>down := (down t)[left_stick t i := True]\<rparr>"

definition putdown_right :: "table \<Rightarrow> nat \<Rightarrow> table" where
  "putdown_right t i = t\<lparr>down := (down t)[right_stick t i := True]\<rparr>"

definition goto :: "table \<Rightarrow> nat \<Rightarrow> phil_pc \<Rightarrow> table" where
  "goto t i p = t\<lparr>pc_of := (pc_of t)[i := p]\<rparr>"

text \<open>
  One step of \<open>philosopher_thread\<close> of philosopher \<open>i\<close>; \<open>None\<close> when it is blocked. \<open>woken\<close> is the
  philosopher that a signal wakes: one that waits, or none when there is none.
\<close>

definition signal_ok :: "table \<Rightarrow> nat option \<Rightarrow> bool" where
  "signal_ok t woken = (case woken of
     None \<Rightarrow> In_Wait \<notin> set (pc_of t)
   | Some j \<Rightarrow> j < length (pc_of t) \<and> pc_of t ! j = In_Wait)"

definition philosopher_step :: "table \<Rightarrow> nat \<Rightarrow> nat option \<Rightarrow> table option" where
  "philosopher_step t i woken =
     (if i \<ge> length (pc_of t) then None
      else case pc_of t ! i of
        At_Think \<Rightarrow> Some (goto (update_state t i STATE_HUNGRY) i At_Trylock)
      | At_Trylock \<Rightarrow>
          if manipulation_lock t = None then Some (goto (t\<lparr>manipulation_lock := Some i\<rparr>) i At_Right)
          else Some (goto t i At_Wait)
      | At_Wait \<Rightarrow> Some (goto t i In_Wait)
      | In_Wait \<Rightarrow> None
      | At_Lock \<Rightarrow>
          if manipulation_lock t = None then Some (goto (t\<lparr>manipulation_lock := Some i\<rparr>) i At_Right)
          else None
      | At_Right \<Rightarrow> Some (goto (pickup_right t i) i At_Left)
      | At_Left \<Rightarrow> Some (goto (pickup_left t i) i At_Eat)
      | At_Eat \<Rightarrow> Some (goto (update_state t i STATE_EATING) i Eating)
      | Eating \<Rightarrow> Some (goto (putdown_right t i) i At_Left_Down)
      | At_Left_Down \<Rightarrow> Some (goto (putdown_left t i) i At_Signal)
      | At_Signal \<Rightarrow>
          if signal_ok t woken
          then Some (goto (case woken of None \<Rightarrow> t | Some j \<Rightarrow> goto t j At_Lock) i At_Thinking)
          else None
      | At_Thinking \<Rightarrow> Some (goto (update_state t i STATE_THINKING) i At_Unlock)
      | At_Unlock \<Rightarrow> Some (goto (t\<lparr>manipulation_lock := None\<rparr>) i At_Think))"

text \<open>A wake-up without a signal.\<close>

definition spurious_step :: "table \<Rightarrow> nat \<Rightarrow> table option" where
  "spurious_step t i =
     (if i < length (pc_of t) \<and> pc_of t ! i = In_Wait then Some (goto t i At_Lock) else None)"

inductive table_reachable :: "nat \<Rightarrow> table \<Rightarrow> bool" for n where
  start: "table_reachable n (table0 n)"
| act: "table_reachable n t \<Longrightarrow> philosopher_step t i woken = Some t' \<Longrightarrow> table_reachable n t'"
| spurious: "table_reachable n t \<Longrightarrow> spurious_step t i = Some t' \<Longrightarrow> table_reachable n t'"

text \<open>A run of steps, each given by the philosopher that acts and the one it wakes.\<close>

fun run_steps :: "table \<Rightarrow> (nat \<times> nat option) list \<Rightarrow> table option" where
  "run_steps t [] = Some t"
| "run_steps t ((i, woken) # es) =
     (case philosopher_step t i woken of None \<Rightarrow> None | Some t' \<Rightarrow> run_steps t' es)"

section \<open>The invariant\<close>

text \<open>The points between taking and giving back the lock.\<close>

definition critical :: "phil_pc \<Rightarrow> bool" where
  "critical p \<longleftrightarrow> p \<in> {At_Right, At_Left, At_Eat, Eating, At_Left_Down, At_Signal, At_Thinking, At_Unlock}"

text \<open>The chopsticks in the hands of the philosopher that has the lock.\<close>

definition held :: "table \<Rightarrow> nat set" where
  "held t = (case manipulation_lock t of None \<Rightarrow> {}
     | Some i \<Rightarrow> (case pc_of t ! i of
           At_Left \<Rightarrow> {right_stick t i}
         | At_Eat \<Rightarrow> {left_stick t i, right_stick t i}
         | Eating \<Rightarrow> {left_stick t i, right_stick t i}
         | At_Left_Down \<Rightarrow> {left_stick t i}
         | _ \<Rightarrow> {}))"

definition table_inv :: "nat \<Rightarrow> table \<Rightarrow> bool" where
  "table_inv n t \<longleftrightarrow> length (state_of t) = n \<and> length (pc_of t) = n \<and> length (down t) = n \<and>
     (\<forall>i < n. critical (pc_of t ! i) \<longleftrightarrow> manipulation_lock t = Some i) \<and>
     (\<forall>i. manipulation_lock t = Some i \<longrightarrow> i < n) \<and>
     (\<forall>k < n. down t ! k \<longleftrightarrow> k \<notin> held t) \<and>
     (\<forall>i < n. state_of t ! i = STATE_EATING \<longleftrightarrow> pc_of t ! i \<in> {Eating, At_Left_Down, At_Signal, At_Thinking}) \<and>
     (manipulation_lock t = None \<longrightarrow> (\<exists>i < n. pc_of t ! i \<in> {At_Think, At_Trylock, At_Lock}))"

lemmas step_defs = goto_def update_state_def pickup_left_def pickup_right_def putdown_left_def
  putdown_right_def left_stick_def right_stick_def

lemma right_not_left: "2 \<le> (n :: nat) \<Longrightarrow> i < n \<Longrightarrow> (i + 1) mod n \<noteq> i"
  by (cases "i + 1 = n") auto

lemma table_inv_start: "0 < n \<Longrightarrow> table_inv n (table0 n)"
  by (auto simp: table_inv_def table0_def critical_def held_def)

text \<open>Steps that leave the lock and the chopsticks alone.\<close>

lemma table_inv_goto:
  assumes "table_inv n t" and "i < n" and "\<not> critical (pc_of t ! i)" and "\<not> critical p"
    and "p \<in> {At_Think, At_Trylock, At_Lock} \<or> pc_of t ! i \<notin> {At_Think, At_Trylock, At_Lock} \<or>
      manipulation_lock t \<noteq> None"
  shows "table_inv n (goto t i p)"
proof -
  have "held (goto t i p) = held t"
    using assms(1-3) by (auto simp: held_def step_defs table_inv_def split: option.split phil_pc.split)
  with assms show ?thesis
    by (auto simp: table_inv_def goto_def nth_list_update critical_def)
qed

lemma table_inv_update_state:
  assumes "table_inv n t" and "i < n" and "s \<noteq> STATE_EATING"
    and "pc_of t ! i \<notin> {Eating, At_Left_Down, At_Signal, At_Thinking}"
  shows "table_inv n (update_state t i s)"
proof -
  have "held (update_state t i s) = held t"
    by (simp add: held_def step_defs split: option.split phil_pc.split)
  with assms show ?thesis
    by (auto simp: table_inv_def update_state_def nth_list_update)
qed

lemma table_inv_take:
  assumes "table_inv n t" and "i < n" and "manipulation_lock t = None"
  shows "table_inv n (goto (t\<lparr>manipulation_lock := Some i\<rparr>) i At_Right)"
  using assms by (auto simp: table_inv_def goto_def held_def nth_list_update critical_def)

lemma table_inv_holder:
  assumes inv: "table_inv n t" and i: "i < n" and crit: "critical (pc_of t ! i)" "critical p"
    and len: "length (state_of t') = n" "length (down t') = n" "manipulation_lock t' = Some i"
      "pc_of t' = (pc_of t)[i := p]"
    and sticks: "\<forall>k < n. down t' ! k \<longleftrightarrow> k \<notin> held t'"
    and state: "\<forall>j < n. j \<noteq> i \<longrightarrow> state_of t' ! j = state_of t ! j"
      "state_of t' ! i = STATE_EATING \<longleftrightarrow> p \<in> {Eating, At_Left_Down, At_Signal, At_Thinking}"
  shows "table_inv n t'"
proof -
  have "manipulation_lock t = Some i" using inv i crit(1) by (simp add: table_inv_def)
  with inv i crit len sticks state show ?thesis
    by (auto simp: table_inv_def nth_list_update)
qed

text \<open>The steps of the philosopher that has the lock, but for the signal and the unlock.\<close>

lemma table_inv_step_holder:
  assumes inv: "table_inv n t" and n: "2 \<le> n" and i: "i < n"
    and step: "philosopher_step t i woken = Some t'"
    and p: "pc_of t ! i \<in> {At_Right, At_Left, At_Eat, Eating, At_Left_Down, At_Thinking}"
  shows "table_inv n t'"
proof -
  have L: "length (down t) = n" "length (pc_of t) = n" "length (state_of t) = n"
    and D: "\<And>k. k < n \<Longrightarrow> down t ! k \<longleftrightarrow> k \<notin> held t"
    and S: "state_of t ! i = STATE_EATING \<longleftrightarrow> pc_of t ! i \<in> {Eating, At_Left_Down, At_Signal, At_Thinking}"
    using inv i by (simp_all add: table_inv_def)
  have l: "manipulation_lock t = Some i"
    using inv i p by (auto simp: table_inv_def critical_def)
  define r where "r = (i + 1) mod n"
  have r: "right_stick u i = r" if "length (down u) = n" for u
    using that by (simp add: right_stick_def r_def)
  have rn: "r < n" "r \<noteq> i"
    using right_not_left [OF n i] n by (simp_all add: r_def)
  note simps = philosopher_step_def goto_def update_state_def pickup_left_def pickup_right_def
    putdown_left_def putdown_right_def left_stick_def critical_def held_def nth_list_update
  have eff: "length (state_of t') = n" "length (down t') = n" "manipulation_lock t' = Some i"
      "pc_of t' = (pc_of t)[i := pc_of t' ! i]" "critical (pc_of t ! i)" "critical (pc_of t' ! i)"
    using p step i L l by (auto simp: simps)
  have "\<forall>j < n. j \<noteq> i \<longrightarrow> state_of t' ! j = state_of t ! j"
      "state_of t' ! i = STATE_EATING \<longleftrightarrow> pc_of t' ! i \<in> {Eating, At_Left_Down, At_Signal, At_Thinking}"
    using p step i L S by (auto simp: simps)
  moreover have "\<forall>k < n. down t' ! k \<longleftrightarrow> k \<notin> held t'"
    using p
  proof (elim insertE emptyE)
  qed (use step i L l r rn D in \<open>auto simp: simps\<close>)
  ultimately show ?thesis
    by (intro table_inv_holder [OF inv i eff(5,6,1-4)])
qed

lemma table_inv_step:
  assumes inv: "table_inv n t" and n: "2 \<le> n" and "philosopher_step t i woken = Some t'"
  shows "table_inv n t'"
proof -
  have i: "i < n" "i < length (pc_of t)" "i < length (state_of t)" using assms(1,3)
    by (auto simp: philosopher_step_def table_inv_def split: if_splits)
  have L: "length (down t) = n" "length (pc_of t) = n" "length (state_of t) = n"
    using inv by (simp_all add: table_inv_def)
  have S: "state_of t ! i = STATE_EATING \<longleftrightarrow> pc_of t ! i \<in> {Eating, At_Left_Down, At_Signal, At_Thinking}"
    using inv i by (simp add: table_inv_def)
  have lock: "critical (pc_of t ! i) \<Longrightarrow> manipulation_lock t = Some i"
    using inv i by (simp add: table_inv_def)
  show ?thesis
  proof (cases "pc_of t ! i")
    case At_Think
    have "table_inv n (update_state t i STATE_HUNGRY)"
      using At_Think by (intro table_inv_update_state [OF inv i(1)]) auto
    then have "table_inv n (goto (update_state t i STATE_HUNGRY) i At_Trylock)"
      using At_Think i by (intro table_inv_goto) (auto simp: critical_def update_state_def)
    then show ?thesis using assms(3) i At_Think by (simp add: philosopher_step_def)
  next
    case At_Trylock
    show ?thesis
    proof (cases "manipulation_lock t = None")
      case True
      with table_inv_take [OF inv i(1)] show ?thesis using assms(3) i At_Trylock
        by (simp add: philosopher_step_def)
    next
      case False
      then have "table_inv n (goto t i At_Wait)"
        using At_Trylock by (intro table_inv_goto [OF inv i(1)]) (auto simp: critical_def)
      with False show ?thesis using assms(3) i At_Trylock by (auto simp: philosopher_step_def)
    qed
  next
    case At_Wait
    have "table_inv n (goto t i In_Wait)"
      using At_Wait inv i(1) by (intro table_inv_goto [OF inv i(1)]) (auto simp: critical_def)
    then show ?thesis using assms(3) i At_Wait by (simp add: philosopher_step_def)
  next
    case In_Wait
    with assms(3) i show ?thesis by (simp add: philosopher_step_def)
  next
    case At_Lock
    then show ?thesis using assms(3) i table_inv_take [OF inv i(1)]
      by (auto simp: philosopher_step_def split: if_splits)
  next
    case At_Signal
    define u where "u = (case woken of None \<Rightarrow> t | Some j \<Rightarrow> goto t j At_Lock)"
    have ok: "signal_ok t woken" and t': "t' = goto u i At_Thinking"
      using assms(3) i At_Signal by (auto simp: philosopher_step_def u_def split: if_splits)
    have u: "table_inv n u" "pc_of u ! i = At_Signal"
      using ok inv At_Signal L table_inv_goto [OF inv, of _ At_Lock]
      by (auto simp: u_def signal_ok_def critical_def goto_def nth_list_update split: option.splits)
    then have l: "manipulation_lock u = Some i" using i by (auto simp: table_inv_def critical_def)
    have "state_of u = state_of t" by (simp add: u_def goto_def split: option.split)
    then show ?thesis
      by (intro table_inv_holder [OF u(1) i(1), of At_Thinking])
        (use u l t' S At_Signal i in \<open>auto simp: goto_def critical_def held_def table_inv_def\<close>)
  next
    case At_Unlock
    with lock have l: "manipulation_lock t = Some i" by (simp add: critical_def)
    then show ?thesis using assms(3) inv i At_Unlock
      by (auto simp: philosopher_step_def table_inv_def goto_def held_def nth_list_update critical_def)
  qed (use table_inv_step_holder [OF inv n i(1) assms(3)] in simp_all)
qed

end
