(* ===== verification/PhilProps.thy ===== *)
theory PhilProps imports Philosophers begin

text \<open>
  The properties of the dining philosophers: mutual exclusion, freedom from deadlock, and
  the two ways in which a hungry philosopher can be passed over.
\<close>

section \<open>Reachable tables\<close>

lemma table_inv_spurious:
  assumes "table_inv n t" and "spurious_step t i = Some t'"
  shows "table_inv n t'"
proof -
  have "i < n" "pc_of t ! i = In_Wait" "t' = goto t i At_Lock"
    using assms by (auto simp: spurious_step_def table_inv_def split: if_splits)
  with table_inv_goto [OF assms(1), of i At_Lock] show ?thesis by (simp add: critical_def)
qed

lemma table_inv_reachable: "table_reachable n t \<Longrightarrow> 2 \<le> n \<Longrightarrow> table_inv n t"
proof (induction rule: table_reachable.induct)
  case start
  then show ?case by (simp add: table_inv_start)
qed (auto intro: table_inv_step table_inv_spurious)

lemma table_reachable_run:
  "run_steps t es = Some t' \<Longrightarrow> table_reachable n t \<Longrightarrow> table_reachable n t'"
  by (induction t es rule: run_steps.induct)
    (auto split: option.splits intro: table_reachable.act)

section \<open>How far a philosopher is from eating\<close>

text \<open>A philosopher that can run on its own, and the number of its steps until it eats.\<close>

definition ready :: "table \<Rightarrow> nat \<Rightarrow> bool" where
  "ready t i \<longleftrightarrow> i < length (pc_of t) \<and>
     (if manipulation_lock t = None then pc_of t ! i \<in> {At_Think, At_Trylock, At_Lock}
      else manipulation_lock t = Some i \<and> critical (pc_of t ! i))"

primrec to_eating :: "phil_pc \<Rightarrow> nat" where
  "to_eating Eating = 0"
| "to_eating At_Eat = 1"
| "to_eating At_Left = 2"
| "to_eating At_Right = 3"
| "to_eating At_Trylock = 4"
| "to_eating At_Lock = 4"
| "to_eating At_Think = 5"
| "to_eating At_Unlock = 6"
| "to_eating At_Thinking = 7"
| "to_eating At_Signal = 8"
| "to_eating At_Left_Down = 9"
| "to_eating At_Wait = 0"
| "to_eating In_Wait = 0"

lemma to_eating_le: "to_eating p \<le> 9"
  by (cases p) auto

lemma signal_ok_ex: "\<exists>w. signal_ok t w"
proof (cases "In_Wait \<in> set (pc_of t)")
  case True
  then obtain j where "j < length (pc_of t)" "pc_of t ! j = In_Wait" by (auto simp: in_set_conv_nth)
  then have "signal_ok t (Some j)" by (simp add: signal_ok_def)
  then show ?thesis ..
next
  case False
  then have "signal_ok t None" by (simp add: signal_ok_def)
  then show ?thesis ..
qed

lemma ready_step:
  assumes "ready t i" and "pc_of t ! i \<noteq> Eating"
  shows "\<exists>w t'. philosopher_step t i w = Some t' \<and> ready t' i \<and>
    Suc (to_eating (pc_of t' ! i)) = to_eating (pc_of t ! i)"
proof (cases "pc_of t ! i = At_Signal")
  case True
  obtain w where w: "signal_ok t w" using signal_ok_ex by blast
  define t' where "t' = goto (case w of None \<Rightarrow> t | Some j \<Rightarrow> goto t j At_Lock) i At_Thinking"
  have "philosopher_step t i w = Some t'"
    using assms True w by (simp add: philosopher_step_def ready_def t'_def)
  moreover have "ready t' i \<and> pc_of t' ! i = At_Thinking"
    using assms True w by (auto simp: ready_def t'_def goto_def signal_ok_def critical_def split: option.splits if_splits)
  ultimately show ?thesis using True by fastforce
next
  case False
  define t' where "t' = the (philosopher_step t i None)"
  have "philosopher_step t i None = Some t' \<and> ready t' i \<and>
    Suc (to_eating (pc_of t' ! i)) = to_eating (pc_of t ! i)"
    using assms False
    by (cases "pc_of t ! i") (auto simp: ready_def t'_def philosopher_step_def step_defs critical_def split: if_splits)
  then show ?thesis by blast
qed

lemma ready_eats:
  "ready t i \<Longrightarrow> \<exists>es t'. run_steps t es = Some t' \<and> fst ` set es \<subseteq> {i} \<and>
     length es = to_eating (pc_of t ! i) \<and> i < length (pc_of t') \<and> pc_of t' ! i = Eating"
proof (induction "to_eating (pc_of t ! i)" arbitrary: t)
  case 0
  then have "pc_of t ! i = Eating" "i < length (pc_of t)"
    by (cases "pc_of t ! i"; auto simp: ready_def critical_def split: if_splits)+
  then have "run_steps t [] = Some t \<and> fst ` set ([] :: (nat \<times> nat option) list) \<subseteq> {i} \<and>
     length ([] :: (nat \<times> nat option) list) = to_eating (pc_of t ! i) \<and> i < length (pc_of t) \<and> pc_of t ! i = Eating"
    by simp
  then show ?case by blast
next
  case (Suc k)
  then have "pc_of t ! i \<noteq> Eating" by auto
  with ready_step [OF Suc.prems] obtain w u where u: "philosopher_step t i w = Some u" "ready u i"
    "Suc (to_eating (pc_of u ! i)) = to_eating (pc_of t ! i)" by blast
  from Suc.hyps(1) [OF _ u(2)] u(3) Suc.hyps(2) obtain es t' where es: "run_steps u es = Some t'"
    "fst ` set es \<subseteq> {i}" "length es = to_eating (pc_of u ! i)" "i < length (pc_of t')"
    "pc_of t' ! i = Eating" by auto
  then have "run_steps t ((i, w) # es) = Some t' \<and> fst ` set ((i, w) # es) \<subseteq> {i} \<and>
     length ((i, w) # es) = to_eating (pc_of t ! i) \<and> i < length (pc_of t') \<and> pc_of t' ! i = Eating"
    using u by simp
  then show ?case by blast
qed

lemma some_ready: "table_inv n t \<Longrightarrow> \<exists>i < n. ready t i"
  by (cases "manipulation_lock t") (auto simp: table_inv_def ready_def)

section \<open>The properties\<close>

text \<open>
  C25. In every reachable table of at least two philosophers at most one eats at a time; it
  has the lock and both its chopsticks are up, and they are two different chopsticks. A
  philosopher only picks up a chopstick that is down: one that is before \<open>pickup_right\<close>
  finds both down, and one before \<open>pickup_left\<close> finds its left one down.
\<close>

theorem philosophers_exclusive:
  assumes "2 \<le> n" and "table_reachable n t" and "i < n"
  shows "(state_of t ! i = STATE_EATING \<longrightarrow> manipulation_lock t = Some i \<and>
      (\<forall>j < n. state_of t ! j = STATE_EATING \<longrightarrow> j = i)) \<and>
    (pc_of t ! i = Eating \<longrightarrow> left_stick t i \<noteq> right_stick t i \<and>
      \<not> down t ! left_stick t i \<and> \<not> down t ! right_stick t i) \<and>
    (pc_of t ! i = At_Right \<longrightarrow> (\<forall>k < n. down t ! k)) \<and>
    (pc_of t ! i = At_Left \<longrightarrow> down t ! left_stick t i)"
proof (intro conjI impI)
  have inv: "table_inv n t" using table_inv_reachable assms by blast
  have r: "right_stick t i < n" "right_stick t i \<noteq> i"
    using right_not_left [OF assms(1,3)] assms inv by (auto simp: table_inv_def right_stick_def)
  have lock: "critical (pc_of t ! j) \<Longrightarrow> manipulation_lock t = Some j"
    and eat: "state_of t ! j = STATE_EATING \<Longrightarrow> critical (pc_of t ! j)"
    and D: "down t ! j \<longleftrightarrow> j \<notin> held t" if "j < n" for j
    using inv that by (auto simp: table_inv_def critical_def)
  show "manipulation_lock t = Some i" if "state_of t ! i = STATE_EATING"
    using lock eat that assms(3) by blast
  with lock eat show "\<forall>j < n. state_of t ! j = STATE_EATING \<longrightarrow> j = i" if "state_of t ! i = STATE_EATING"
    using that by fastforce
  show "left_stick t i \<noteq> right_stick t i" using r by (simp add: left_stick_def)
  show "\<not> down t ! left_stick t i" "\<not> down t ! right_stick t i" if "pc_of t ! i = Eating"
    using that lock D r assms(3) by (simp_all add: critical_def held_def left_stick_def)
  show "\<forall>k < n. down t ! k" if "pc_of t ! i = At_Right"
    using that lock D assms(3) by (simp add: critical_def held_def)
  show "down t ! left_stick t i" if "pc_of t ! i = At_Left"
    using that lock D r assms(3) by (simp add: critical_def held_def left_stick_def)
qed

text \<open>A run in which philosopher 0 eats while 1 finds the lock taken and waits.\<close>

definition meal :: "nat \<Rightarrow> nat option \<Rightarrow> (nat \<times> nat option) list" where
  "meal i woken = replicate 7 (i, None) @ [(i, woken), (i, None), (i, None)]"

definition overtaken :: table where
  "overtaken = \<lparr>state_of = [STATE_THINKING, STATE_HUNGRY], pc_of = [At_Think, At_Lock],
     down = [True, True], manipulation_lock = None\<rparr>"

lemmas run_simps = philosopher_step_def step_defs signal_ok_def nth_Cons' numeral_eq_Suc

lemma overtaken_reachable: "table_reachable 2 overtaken"
proof (rule table_reachable_run [OF _ table_reachable.start])
  show "run_steps (table0 2) ([(0, None), (0, None), (1, None), (1, None), (1, None)] @
    replicate 5 (0, None) @ [(0, Some 1), (0, None), (0, None)]) = Some overtaken"
    by (simp add: table0_def overtaken_def run_simps)
qed

theorem philosophers_exclusive_witness:
  "\<exists>t. table_reachable 2 t \<and> state_of t ! 0 = STATE_EATING \<and> manipulation_lock t = Some 0"
proof -
  define es :: "(nat \<times> nat option) list" where "es = replicate 5 (0, None)"
  define t where "t = the (run_steps (table0 2) es)"
  have t: "run_steps (table0 2) es = Some t" "state_of t ! 0 = STATE_EATING"
    by (simp_all add: t_def es_def table0_def run_simps)
  have r: "table_reachable 2 t" by (rule table_reachable_run [OF t(1) table_reachable.start])
  with t philosophers_exclusive [of 2 t 0] show ?thesis by auto
qed

text \<open>
  C26. No deadlock. From every reachable table of at least two philosophers there is a
  philosopher that gets to eat within nine steps of its own, with no help of the others,
  whichever of them the signals wake.
\<close>

theorem philosophers_progress:
  assumes "2 \<le> n" and "table_reachable n t"
  shows "\<exists>i < n. \<exists>es t'. run_steps t es = Some t' \<and> fst ` set es \<subseteq> {i} \<and> length es \<le> 9 \<and>
    state_of t' ! i = STATE_EATING"
proof -
  have inv: "table_inv n t" by (rule table_inv_reachable [OF assms(2,1)])
  then obtain i where i: "i < n" "ready t i" using some_ready by blast
  from ready_eats [OF this(2)] obtain es t' where es: "run_steps t es = Some t'"
    "fst ` set es \<subseteq> {i}" "length es = to_eating (pc_of t ! i)" "pc_of t' ! i = Eating" by blast
  have "table_inv n t'"
    by (rule table_inv_reachable [OF table_reachable_run [OF es(1) assms(2)] assms(1)])
  with es(4) i(1) have "state_of t' ! i = STATE_EATING" by (simp add: table_inv_def)
  with es i(1) to_eating_le show ?thesis by metis
qed

theorem philosophers_progress_witness:
  "\<exists>i < 2. \<exists>es t'. run_steps overtaken es = Some t' \<and> fst ` set es \<subseteq> {i} \<and> length es \<le> 9 \<and>
    state_of t' ! i = STATE_EATING"
  by (rule philosophers_progress [OF _ overtaken_reachable]) simp

text \<open>
  Starvation. In the reachable table \<open>overtaken\<close> philosopher 1 is hungry and has been
  woken; from it philosopher 0 can eat and come back to the very same table, with 1 hungry and
  outside the lock all the while, although at the end of every step it is either at
  \<open>pthread_mutex_lock\<close> with the lock taken (blocked), or beaten to it by philosopher 0.
  Repeating the loop, philosopher 1 never eats and philosopher 0 eats for ever; philosopher 1
  is blocked in every loop, so the run treats it fairly.
\<close>

theorem philosophers_starvation:
  "table_reachable 2 overtaken \<and> run_steps overtaken (meal 0 None) = Some overtaken \<and>
   (\<exists>k u. run_steps overtaken (take k (meal 0 None)) = Some u \<and> state_of u ! 0 = STATE_EATING \<and>
      (\<forall>w. philosopher_step u 1 w = None)) \<and>
   (\<forall>k. \<exists>u. run_steps overtaken (take k (meal 0 None)) = Some u \<and>
      state_of u ! 1 = STATE_HUNGRY \<and> pc_of u ! 1 = At_Lock)"
proof (intro conjI allI)
  show "table_reachable 2 overtaken" by (rule overtaken_reachable)
  show "run_steps overtaken (meal 0 None) = Some overtaken"
    by (simp add: overtaken_def meal_def run_simps)
  have "run_steps overtaken (take 5 (meal 0 None)) \<noteq> None \<and>
    state_of (the (run_steps overtaken (take 5 (meal 0 None)))) ! 0 = STATE_EATING \<and>
    (\<forall>w. philosopher_step (the (run_steps overtaken (take 5 (meal 0 None)))) 1 w = None)"
    by (simp add: overtaken_def meal_def run_simps)
  then show "\<exists>k u. run_steps overtaken (take k (meal 0 None)) = Some u \<and>
      state_of u ! 0 = STATE_EATING \<and> (\<forall>w. philosopher_step u 1 w = None)" by fastforce
next
  fix k
  show "\<exists>u. run_steps overtaken (take k (meal 0 None)) = Some u \<and>
      state_of u ! 1 = STATE_HUNGRY \<and> pc_of u ! 1 = At_Lock"
  proof (cases "k < 10")
    case True
    then have "k \<in> {0,1,2,3,4,5,6,7,8,9}" by auto
    then show ?thesis
      by (elim insertE emptyE) (simp_all add: overtaken_def meal_def run_simps)
  next
    case False
    then have "take k (meal 0 None) = meal 0 None" by (simp add: meal_def)
    then show ?thesis by (simp add: overtaken_def meal_def run_simps)
  qed
qed

text \<open>
  A missed signal. The lock is tried and the condition variable waited on in two separate
  steps, so a philosopher can start to wait after the signal of the meal it saw. In the
  reachable table \<open>missed\<close> nobody has the lock and every chopstick is down, but philosopher 1 is
  hungry and blocked; and whatever run of the others follows, it stays blocked and hungry
  unless that run contains a signal that wakes it.
\<close>

definition missed :: table where
  "missed = \<lparr>state_of = [STATE_THINKING, STATE_HUNGRY], pc_of = [At_Think, In_Wait],
     down = [True, True], manipulation_lock = None\<rparr>"

lemma waiting_step:
  assumes "philosopher_step t j w = Some t'" and "w \<noteq> Some i" and "i < length (pc_of t)"
    and "pc_of t ! i = In_Wait"
  shows "i < length (pc_of t') \<and> pc_of t' ! i = In_Wait \<and> state_of t' ! i = state_of t ! i"
proof -
  have "j \<noteq> i" using assms(1,4) by (auto simp: philosopher_step_def split: if_splits)
  with assms show ?thesis
    by (cases w; cases "pc_of t ! j") (auto simp: philosopher_step_def step_defs split: if_splits)
qed

lemma waiting_run:
  "run_steps t es = Some t' \<Longrightarrow> Some i \<notin> snd ` set es \<Longrightarrow> i < length (pc_of t) \<Longrightarrow> pc_of t ! i = In_Wait \<Longrightarrow>
   pc_of t' ! i = In_Wait \<and> state_of t' ! i = state_of t ! i"
proof (induction t es rule: run_steps.induct)
  case (2 t j w es)
  then obtain u where u: "philosopher_step t j w = Some u" "run_steps u es = Some t'"
    by (auto split: option.splits)
  with 2 waiting_step [OF u(1), of i] show ?case by fastforce
qed simp

theorem philosophers_missed_signal:
  "table_reachable 2 missed \<and> manipulation_lock missed = None \<and> (\<forall>k < 2. down missed ! k) \<and>
   (\<forall>es t. run_steps missed es = Some t \<and> Some 1 \<notin> snd ` set es \<longrightarrow>
      state_of t ! 1 = STATE_HUNGRY \<and> (\<forall>w. philosopher_step t 1 w = None))"
proof (intro conjI allI impI)
  have "run_steps (table0 2) ([(0, None), (0, None), (1, None), (1, None)] @
    replicate 6 (0, None) @ [(0, None), (0, None), (1, None)]) = Some missed"
    by (simp add: table0_def missed_def run_simps)
  then show "table_reachable 2 missed" by (rule table_reachable_run [OF _ table_reachable.start])
  fix es t assume *: "run_steps missed es = Some t \<and> Some 1 \<notin> snd ` set es"
  with waiting_run [of missed es t 1] show "state_of t ! 1 = STATE_HUNGRY"
    by (simp add: missed_def)
  from * waiting_run [of missed es t 1] have "pc_of t ! 1 = In_Wait" by (simp add: missed_def)
  then show "philosopher_step t 1 w = None" for w by (simp add: philosopher_step_def)
qed (auto simp: missed_def less_2_cases_iff)

lemma missed_waits: "run_steps missed [(0, None), (0, None)] \<noteq> None"
  by (simp add: missed_def run_simps)

theorem philosophers_missed_signal_witness:
  "\<exists>t. run_steps missed [(0, None), (0, None)] = Some t \<and> (\<forall>w. philosopher_step t 1 w = None)"
  using philosophers_missed_signal missed_waits
  by (metis (no_types, lifting) image_insert list.set(1,2) insertE emptyE image_empty option.distinct(1) snd_conv option.exhaust)

end
