(* ===== verification/Stats.thy ===== *)
theory Stats imports Decimal begin

text \<open>
  The programs of Asmt_5 that read the output of a simulation and print what they counted:
  whales_stats.cc, h2o_stats.cpp and philosophers_stats.cc. They take each line apart in the same way.

  Times are floats, whose operations are parameters; so is the size a vector can have. An
  exception, which none of the programs catches, is \<open>None\<close>: \<open>substr\<close> raises it behind the end
  of a string, and a vector that cannot grow. Counts are below the number of lines.
  What they print and the handler of SIGINT are in StatsOutput; messages on the standard error are left out.
\<close>

section \<open>Lines\<close>

record 't stats_env =
  atof :: "string \<Rightarrow> 't"
  fadd :: "'t \<Rightarrow> 't \<Rightarrow> 't"
  fsub :: "'t \<Rightarrow> 't \<Rightarrow> 't"
  fzero :: 't
  vector_ok :: "nat \<Rightarrow> bool"

datatype 't entry = No_Entry | Entry 't int string

text \<open>The lines that \<open>getline\<close> gives until \<open>eof\<close>: the last one is what follows the last newline.\<close>

fun stream_lines :: "string \<Rightarrow> string list" where
  "stream_lines [] = [[]]"
| "stream_lines (c # cs) =
     (if c = CHR 0x0A then [] # stream_lines cs
      else (case stream_lines cs of [] \<Rightarrow> [[c]] | l # ls \<Rightarrow> (c # l) # ls))"

text \<open>\<open>line.find(c)\<close> as an \<open>int\<close>: \<open>npos\<close> is -1.\<close>

fun find_char :: "char \<Rightarrow> string \<Rightarrow> int" where
  "find_char c [] = -1"
| "find_char c (d # ds) =
     (if c = d then 0 else let n = find_char c ds in if n = -1 then -1 else n + 1)"

text \<open>\<open>line.substr(p, len)\<close>; a negative \<open>len\<close> becomes a large \<open>size_t\<close>.\<close>

definition substr :: "string \<Rightarrow> nat \<Rightarrow> int \<Rightarrow> string option" where
  "substr line p len =
     (if p > length line then None
      else Some (if len < 0 then drop p line else take (nat len) (drop p line)))"

definition parse_line :: "'t stats_env \<Rightarrow> string \<Rightarrow> 't entry option" where
  "parse_line env line =
     (if line = [] \<or> line ! 0 \<noteq> CHR ''('' then Some No_Entry
      else
        let rParenIdx = find_char (CHR '')'') line; colonIdx = find_char (CHR '':'') line; actionIdx = colonIdx + 2 in
        if rParenIdx \<le> 0 \<or> colonIdx \<le> 0 \<or> actionIdx \<le> 0 then Some No_Entry
        else (case substr line 3 (rParenIdx - 1) of
            None \<Rightarrow> None
          | Some t \<Rightarrow> (case substr line (nat (rParenIdx + 1)) (colonIdx - rParenIdx - 1) of
              None \<Rightarrow> None
            | Some i \<Rightarrow> (case substr line (nat actionIdx) (int (length line) - actionIdx) of
                None \<Rightarrow> None
              | Some action \<Rightarrow> Some (Entry (atof env t) (atoi i) action)))))"

text \<open>\<open>while (n >= v.size()) v.push_back(0.0)\<close>; a negative \<open>n\<close> is compared as a large \<open>size_t\<close>.\<close>

definition grow :: "'t stats_env \<Rightarrow> 't list \<Rightarrow> int \<Rightarrow> 't list option" where
  "grow env v n =
     (if n < 0 then None
      else if nat n < length v then Some v
      else if vector_ok env (Suc (nat n)) then Some (v @ replicate (Suc (nat n) - length v) (fzero env))
      else None)"

section \<open>The programs\<close>

text \<open>The loop of \<open>readStream\<close>, with what the program does with an entry.\<close>

primrec read_lines ::
  "'t stats_env \<Rightarrow> ('s \<Rightarrow> 't \<Rightarrow> int \<Rightarrow> string \<Rightarrow> 's option) \<Rightarrow> 's \<Rightarrow> string list \<Rightarrow> 's option" where
  "read_lines env entry_step s [] = Some s"
| "read_lines env entry_step s (line # ls) =
     (case parse_line env line of
        None \<Rightarrow> None
      | Some No_Entry \<Rightarrow> read_lines env entry_step s ls
      | Some (Entry t i action) \<Rightarrow>
          (case entry_step s t i action of None \<Rightarrow> None | Some s' \<Rightarrow> read_lines env entry_step s' ls))"

definition readStream ::
  "'t stats_env \<Rightarrow> ('s \<Rightarrow> 't \<Rightarrow> int \<Rightarrow> string \<Rightarrow> 's option) \<Rightarrow> 's \<Rightarrow> string \<Rightarrow> 's option" where
  "readStream env entry_step s fin = read_lines env entry_step s (stream_lines fin)"

text \<open>whales_stats.cc.\<close>

record 't whale_stats =
  num_whales :: nat
  num_males :: nat
  num_females :: nat
  num_matchmakers :: nat
  num_matches :: nat
  num_mated :: nat
  total_time_to_mate :: 't
  whale_times :: "'t list"

definition whale_stats0 :: "'t stats_env \<Rightarrow> 't whale_stats" where
  "whale_stats0 env = \<lparr>num_whales = 0, num_males = 0, num_females = 0, num_matchmakers = 0, num_matches = 0,
     num_mated = 0, total_time_to_mate = fzero env, whale_times = []\<rparr>"

definition whale_entry :: "'t stats_env \<Rightarrow> 't whale_stats \<Rightarrow> 't \<Rightarrow> int \<Rightarrow> string \<Rightarrow> 't whale_stats option" where
  "whale_entry env s t whale action =
     map_option (\<lambda>times.
       if action = ''Male Created'' then
         s\<lparr>num_males := num_males s + 1, num_whales := num_whales s + 1, whale_times := times[nat whale := t]\<rparr>
       else if action = ''Female Created'' then
         s\<lparr>num_females := num_females s + 1, num_whales := num_whales s + 1, whale_times := times[nat whale := t]\<rparr>
       else if action = ''Found Mate'' then s\<lparr>num_matches := num_matches s + 1, whale_times := times\<rparr>
       else if action = ''Mated'' then
         s\<lparr>num_mated := num_mated s + 1, whale_times := times,
           total_time_to_mate := fadd env (total_time_to_mate s) (fsub env t (times ! nat whale))\<rparr>
       else if action = ''Became MatchMaker'' then
         s\<lparr>num_matchmakers := num_matchmakers s + 1, whale_times := times\<rparr>
       else s\<lparr>whale_times := times\<rparr>)
     (grow env (whale_times s) whale)"

text \<open>The numbers of \<open>printStats\<close>, in its order.\<close>

definition whale_printStats :: "'t whale_stats \<Rightarrow> nat list" where
  "whale_printStats s =
     [num_whales s, num_males s, num_females s, num_matchmakers s, num_matches s div 2, num_mated s div 2]"

text \<open>h2o_stats.cpp.\<close>

record 't atom_stats =
  num_atoms :: nat
  num_h_atoms :: nat
  num_o_atoms :: nat
  num_water :: nat
  total_time_to_water :: 't
  atom_times :: "'t list"

definition atom_stats0 :: "'t stats_env \<Rightarrow> 't atom_stats" where
  "atom_stats0 env = \<lparr>num_atoms = 0, num_h_atoms = 0, num_o_atoms = 0, num_water = 0,
     total_time_to_water = fzero env, atom_times = []\<rparr>"

definition atom_entry :: "'t stats_env \<Rightarrow> 't atom_stats \<Rightarrow> 't \<Rightarrow> int \<Rightarrow> string \<Rightarrow> 't atom_stats option" where
  "atom_entry env s t atom action =
     map_option (\<lambda>times.
       if action = ''H Created'' then
         s\<lparr>num_atoms := num_atoms s + 1, num_h_atoms := num_h_atoms s + 1, atom_times := times[nat atom := t]\<rparr>
       else if action = ''O Created'' then
         s\<lparr>num_atoms := num_atoms s + 1, num_o_atoms := num_o_atoms s + 1, atom_times := times[nat atom := t]\<rparr>
       else if action = ''Water'' then
         s\<lparr>num_water := num_water s + 1, atom_times := times,
           total_time_to_water := fadd env (total_time_to_water s) (fsub env t (times ! nat atom))\<rparr>
       else s\<lparr>atom_times := times\<rparr>)
     (grow env (atom_times s) atom)"

definition atom_printStats :: "'t atom_stats \<Rightarrow> nat list" where
  "atom_printStats s = [num_atoms s, num_h_atoms s, num_o_atoms s, num_water s div 3]"

text \<open>philosophers_stats.cc; the message about times that are out of order is left out.\<close>

record 't phil_stats =
  eatingTimes :: "'t list"
  hungryTimes :: "'t list"
  thinkingTimes :: "'t list"
  lastStateChangeTimes :: "'t list"

definition phil_stats0 :: "'t phil_stats" where
  "phil_stats0 = \<lparr>eatingTimes = [], hungryTimes = [], thinkingTimes = [], lastStateChangeTimes = []\<rparr>"

definition add_time :: "'t stats_env \<Rightarrow> 't list \<Rightarrow> int \<Rightarrow> 't \<Rightarrow> 't list option" where
  "add_time env v i d = map_option (\<lambda>w. w[nat i := fadd env (w ! nat i) d]) (grow env v i)"

definition phil_entry :: "'t stats_env \<Rightarrow> 't phil_stats \<Rightarrow> 't \<Rightarrow> int \<Rightarrow> string \<Rightarrow> 't phil_stats option" where
  "phil_entry env s t phil action =
     (case grow env (lastStateChangeTimes s) phil of
        None \<Rightarrow> None
      | Some ts \<Rightarrow>
          let d = fsub env t (ts ! nat phil); s1 = s\<lparr>lastStateChangeTimes := ts\<rparr>;
              s2 = s\<lparr>lastStateChangeTimes := ts[nat phil := t]\<rparr> in
          if action = ''H'' then
            map_option (\<lambda>v. s2\<lparr>thinkingTimes := v\<rparr>) (add_time env (thinkingTimes s) phil d)
          else if action = ''E'' then
            map_option (\<lambda>v. s2\<lparr>hungryTimes := v\<rparr>) (add_time env (hungryTimes s) phil d)
          else if action = ''T'' then
            map_option (\<lambda>v. s2\<lparr>eatingTimes := v\<rparr>) (add_time env (eatingTimes s) phil d)
          else Some s1)"

section \<open>The arguments\<close>

text \<open>
  \<open>main\<close> of all three: whether a file name is given (\<open>None\<close> when two are). It then opens
  \<open>argv[1]\<close>, whichever argument the file name was; \<open>args\<close> are the arguments from there on.
\<close>

fun scan_args :: "string list \<Rightarrow> bool \<Rightarrow> bool option" where
  "scan_args [] haveFile = Some haveFile"
| "scan_args (a # as) haveFile =
     (if a = ''-o'' \<or> a = ''-O'' then scan_args as haveFile
      else if a = [] \<or> a ! 0 \<noteq> CHR ''-'' then if haveFile then None else scan_args as True
      else scan_args as haveFile)"

datatype 's stats_end = Too_Many_Arguments | Bad_Filename string | Uncaught_Exception | Stats 's

definition stats_main ::
  "('s \<Rightarrow> string \<Rightarrow> 's option) \<Rightarrow> 's \<Rightarrow> (string \<Rightarrow> string option) \<Rightarrow> string \<Rightarrow> string list \<Rightarrow> 's stats_end" where
  "stats_main read s files stdin args =
     (case scan_args args False of
        None \<Rightarrow> Too_Many_Arguments
      | Some haveFile \<Rightarrow>
          (case (if haveFile then files (args ! 0) else Some stdin) of
             None \<Rightarrow> Bad_Filename (args ! 0)
           | Some fin \<Rightarrow> (case read s fin of None \<Rightarrow> Uncaught_Exception | Some s' \<Rightarrow> Stats s')))"

text \<open>The three programs.\<close>

definition whale_readStream :: "'t stats_env \<Rightarrow> 't whale_stats \<Rightarrow> string \<Rightarrow> 't whale_stats option" where
  "whale_readStream env = readStream env (whale_entry env)"

definition whale_stats_main ::
  "'t stats_env \<Rightarrow> (string \<Rightarrow> string option) \<Rightarrow> string \<Rightarrow> string list \<Rightarrow> 't whale_stats stats_end" where
  "whale_stats_main env = stats_main (whale_readStream env) (whale_stats0 env)"

definition atom_readStream :: "'t stats_env \<Rightarrow> 't atom_stats \<Rightarrow> string \<Rightarrow> 't atom_stats option" where
  "atom_readStream env = readStream env (atom_entry env)"

definition atom_stats_main ::
  "'t stats_env \<Rightarrow> (string \<Rightarrow> string option) \<Rightarrow> string \<Rightarrow> string list \<Rightarrow> 't atom_stats stats_end" where
  "atom_stats_main env = stats_main (atom_readStream env) (atom_stats0 env)"

definition phil_readStream :: "'t stats_env \<Rightarrow> 't phil_stats \<Rightarrow> string \<Rightarrow> 't phil_stats option" where
  "phil_readStream env = readStream env (phil_entry env)"

definition phil_stats_main ::
  "'t stats_env \<Rightarrow> (string \<Rightarrow> string option) \<Rightarrow> string \<Rightarrow> string list \<Rightarrow> 't phil_stats stats_end" where
  "phil_stats_main env = stats_main (phil_readStream env) phil_stats0"

end
