(* ===== verification/StatsLines.thy ===== *)
theory StatsLines imports Stats begin

text \<open>
  Lines that a simulation prints, \<open>(t=TIME) ID: ACTION\<close>, and that the programs of Stats take apart again; and the
  interface by which a program that counts entries is proved to read a whole file.
\<close>

section \<open>Lines that are printed and read\<close>

text \<open>The format \<open>(t=%f) %d: %s\<close>, where \<open>t\<close> is the text of the time.\<close>

definition text_line :: "string \<Rightarrow> int \<times> string \<Rightarrow> string" where
  "text_line t l = ''(t='' @ t @ '') '' @ dec (nat (fst l)) @ '': '' @ snd l"

definition log_text :: "string list \<Rightarrow> (int \<times> string) list \<Rightarrow> string" where
  "log_text ts ls = concat (map (\<lambda>l. l @ [CHR 0x0A]) (map2 text_line ts ls))"

definition time_text :: "string \<Rightarrow> bool" where
  "time_text t \<longleftrightarrow> set t \<inter> {CHR '')'', CHR '':'', CHR 0x0A} = {}"

lemma stream_lines_append:
  "CHR 0x0A \<notin> set l \<Longrightarrow> stream_lines (l @ CHR 0x0A # r) = l # stream_lines r"
  by (induction l) auto

lemma stream_lines_printed:
  assumes "\<forall>t \<in> set ts. CHR 0x0A \<notin> set t"
  shows "stream_lines (concat (map (\<lambda>t. t @ [CHR 0x0A]) ts)) = ts @ [[]]"
  using assms by (induction ts) (auto simp: stream_lines_append)

lemma find_char_append: "c \<notin> set l \<Longrightarrow> find_char c (l @ c # r) = int (length l)"
  by (induction l) auto

lemma dec_chars: "CHR '')'' \<notin> set (dec n)" "CHR '':'' \<notin> set (dec n)" "CHR 0x0A \<notin> set (dec n)"
  using dec_digits [of _ n] by fastforce+

lemma substr_append: "substr (x @ y) (length x) k = Some (if k < 0 then y else take (nat k) y)"
  by (simp add: substr_def)

lemma parse_line_spec:
  assumes "line \<noteq> []" and "line ! 0 = CHR ''(''" and "find_char (CHR '')'') line = int r"
    and "find_char (CHR '':'') line = int c" and "0 < r" and "0 < c"
    and "substr line 3 (int r - 1) = Some u"
    and "substr line (r + 1) (int c - int r - 1) = Some i"
    and "substr line (c + 2) (int (length line) - (int c + 2)) = Some action"
  shows "parse_line env line = Some (Entry (atof env u) (atoi i) action)"
proof -
  have "nat (int r + 1) = r + 1" "nat (int c + 2) = c + 2" by simp_all
  then show ?thesis using assms by (auto simp: parse_line_def Let_def)
qed

text \<open>The text that \<open>atof\<close> gets goes two characters beyond the time.\<close>

lemma parse_text_line:
  assumes "time_text t" and "0 \<le> fst l"
  shows "parse_line env (text_line t l) = Some (Entry (atof env (t @ '') '')) (fst l) (snd l))"
proof -
  let ?a = "''(t='' @ t" let ?d = "dec (nat (fst l))" let ?b = "?a @ CHR '')'' # CHR '' '' # ?d"
  have line: "text_line t l = ?a @ CHR '')'' # CHR '' '' # ?d @ '': '' @ snd l"
    "text_line t l = ?b @ CHR '':'' # CHR '' '' # snd l"
    "text_line t l = (?b @ '': '') @ snd l"
    "text_line t l = (?a @ [CHR '')'']) @ (CHR '' '' # ?d) @ '': '' @ snd l"
    "text_line t l = ''(t='' @ (t @ '') '') @ ?d @ '': '' @ snd l"
    by (simp_all add: text_line_def)
  have r: "find_char (CHR '')'') (text_line t l) = int (length ?a)"
    unfolding line(1) using assms(1) by (intro find_char_append) (auto simp: time_text_def)
  have c: "find_char (CHR '':'') (text_line t l) = int (length ?b)"
    unfolding line(2) using assms(1) dec_chars(2) by (intro find_char_append) (auto simp: time_text_def)
  have action: "substr (text_line t l) (length ?b + 2) (int (length (text_line t l)) - (int (length ?b) + 2)) =
      Some (snd l)"
    unfolding line(3) using substr_append [of "?b @ '': ''" "snd l"] by simp
  have i: "substr (text_line t l) (length ?a + 1) (int (length ?b) - int (length ?a) - 1) = Some (CHR '' '' # ?d)"
    unfolding line(4) using substr_append [of "?a @ [CHR '')'']" "(CHR '' '' # ?d) @ '': '' @ snd l"]
    by (simp add: nat_add_distrib)
  have u: "substr (text_line t l) 3 (int (length ?a) - 1) = Some (t @ '') '')"
    unfolding line(5) using substr_append [of "''(t=''" "(t @ '') '') @ ?d @ '': '' @ snd l"]
    by (simp add: numeral_3_eq_3 nat_add_distrib)
  have "atoi (CHR '' '' # ?d) = fst l" using atoi_dec assms(2) by simp
  with parse_line_spec [OF _ _ r c _ _ u i action, of env] show ?thesis by (simp add: text_line_def)
qed

section \<open>Entries\<close>

text \<open>What the lines of a file say, before a program counts it.\<close>

primrec line_entries :: "'t stats_env \<Rightarrow> string list \<Rightarrow> ('t \<times> int \<times> string) list option" where
  "line_entries env [] = Some []"
| "line_entries env (line # ls) =
     (case parse_line env line of
        None \<Rightarrow> None
      | Some No_Entry \<Rightarrow> line_entries env ls
      | Some (Entry t i action) \<Rightarrow> map_option ((#) (t, i, action)) (line_entries env ls))"

text \<open>The numbers in the entries are numbers of threads.\<close>

definition ids_ok :: "int set \<Rightarrow> bool" where
  "ids_ok A \<longleftrightarrow> (\<forall>i \<in> A. 0 \<le> i \<and> i < 2 ^ 31)"

lemma ids_ok_simps [simp]:
  "ids_ok {}" "ids_ok (insert i A) \<longleftrightarrow> 0 \<le> i \<and> i < 2 ^ 31 \<and> ids_ok A" "ids_ok (A \<union> B) \<longleftrightarrow> ids_ok A \<and> ids_ok B"
  by (auto simp: ids_ok_def)

definition entries_ok :: "('t \<times> int \<times> string) list \<Rightarrow> bool" where
  "entries_ok es \<longleftrightarrow> ids_ok (set (map (fst \<circ> snd) es))"

definition entry_count :: "('t \<times> int \<times> string) list \<Rightarrow> string \<Rightarrow> nat" where
  "entry_count es action = length (filter (\<lambda>e. snd (snd e) = action) es)"

lemma entry_count_append: "entry_count (es @ es') a = entry_count es a + entry_count es' a"
  by (simp add: entry_count_def)

text \<open>The entries of a log of lines \<open>ls\<close> printed at the times \<open>ts\<close>.\<close>

definition log_entries :: "'t stats_env \<Rightarrow> string list \<Rightarrow> (int \<times> string) list \<Rightarrow> ('t \<times> int \<times> string) list" where
  "log_entries env ts ls = map2 (\<lambda>t l. (atof env (t @ '') ''), l)) ts ls"

definition log_ok :: "string list \<Rightarrow> (int \<times> string) list \<Rightarrow> bool" where
  "log_ok ts ls \<longleftrightarrow> length ts = length ls \<and> (\<forall>t \<in> set ts. time_text t) \<and> ids_ok (fst ` set ls) \<and>
     (\<forall>l \<in> set ls. CHR 0x0A \<notin> set (snd l))"

lemma stream_lines_log:
  assumes "log_ok ts ls"
  shows "stream_lines (log_text ts ls) = map2 text_line ts ls @ [[]]"
proof -
  have "\<forall>l \<in> set (map2 text_line ts ls). CHR 0x0A \<notin> set l"
    using assms dec_chars(3) by (auto simp: log_ok_def text_line_def time_text_def elim!: in_set_zipE)
  then show ?thesis unfolding log_text_def by (rule stream_lines_printed)
qed

lemma line_entries_log:
  assumes "log_ok ts ls"
  shows "line_entries env (stream_lines (log_text ts ls)) = Some (log_entries env ts ls)"
proof -
  note stream_lines_log [OF assms]
  moreover have "line_entries env (map2 text_line ts ls @ [[]]) = Some (log_entries env ts ls)"
    using assms
  proof (induction ts arbitrary: ls)
    case Nil
    then show ?case by (simp add: log_entries_def parse_line_def)
  next
    case (Cons t ts)
    then obtain l ls' where ls: "ls = l # ls'" by (cases ls) (auto simp: log_ok_def)
    with Cons have "time_text t" "0 \<le> fst l" "log_ok ts ls'" by (auto simp: log_ok_def ids_ok_def)
    with Cons.IH [of ls'] parse_text_line [of t l env] show ?case by (simp add: ls log_entries_def)
  qed
  ultimately show ?thesis by simp
qed

lemma log_entries_simps [simp]:
  "length ts = length ls \<Longrightarrow> map snd (log_entries env ts ls) = ls"
  "length ts = length ls \<Longrightarrow> entry_count (log_entries env ts ls) a = length (filter (\<lambda>l. snd l = a) ls)"
proof -
  assume len: "length ts = length ls"
  show eq: "map snd (log_entries env ts ls) = ls"
    using len by (simp add: log_entries_def case_prod_unfold comp_def map_snd_zip)
next
  assume len: "length ts = length ls"
  then show "entry_count (log_entries env ts ls) a = length (filter (\<lambda>l. snd l = a) ls)"
    by (induction ts ls rule: list_induct2) (simp_all add: entry_count_def log_entries_def)
qed

lemma entries_ok_log: "log_ok ts ls \<Longrightarrow> entries_ok (log_entries env ts ls)"
proof -
  assume ok: "log_ok ts ls"
  then have "map snd (log_entries env ts ls) = ls" by (simp add: log_ok_def)
  then have "set (map (fst \<circ> snd) (log_entries env ts ls)) = fst ` set ls" by (metis list.map_comp set_map)
  with ok show ?thesis by (simp add: entries_ok_def log_ok_def)
qed

section \<open>Programs that count entries\<close>

lemma read_lines_invariant:
  assumes "\<And>s t i action s'. I s \<Longrightarrow> entry_step s t i action = Some s' \<Longrightarrow> I s'" and "I s"
    and "read_lines env entry_step s ls = Some s'"
  shows "I s'"
  using assms(2,3)
proof (induction ls arbitrary: s)
  case (Cons l ls)
  then show ?case by (auto split: option.splits entry.splits) (metis assms(1))
qed simp

definition stats_env_good :: "'t stats_env \<Rightarrow> bool" where
  "stats_env_good env \<longleftrightarrow> (\<forall>n. n \<le> 2 ^ 31 \<longrightarrow> vector_ok env n)"

lemma grow_ok:
  assumes "stats_env_good env" and "0 \<le> i" and "i < 2 ^ 31"
  shows "\<exists>w. grow env v i = Some w"
proof -
  have "Suc (nat i) \<le> 2 ^ 31" using assms(2,3) by (simp add: Suc_le_eq nat_less_iff)
  then have "vector_ok env (Suc (nat i))" using assms(1) unfolding stats_env_good_def by blast
  then show ?thesis using assms(2) by (cases "nat i < length v") (simp_all add: grow_def)
qed

text \<open>
  The contract of the entry step of a program: on an entry with the number of a thread it succeeds, and \<open>Q\<close>
  relates the states before and after the entries read.
\<close>

locale entry_reader =
  fixes entry_step :: "'t stats_env \<Rightarrow> 's \<Rightarrow> 't \<Rightarrow> int \<Rightarrow> string \<Rightarrow> 's option"
    and Q :: "'t stats_env \<Rightarrow> 's \<Rightarrow> ('t \<times> int \<times> string) list \<Rightarrow> 's \<Rightarrow> bool"
  assumes entry: "stats_env_good env \<Longrightarrow> 0 \<le> i \<Longrightarrow> i < 2 ^ 31 \<Longrightarrow>
      \<exists>s'. entry_step env s t i action = Some s' \<and> Q env s [(t, i, action)] s'"
    and none: "Q env s [] s"
    and more: "Q env s es s' \<Longrightarrow> Q env s' es' s'' \<Longrightarrow> Q env s (es @ es') s''"
begin

lemma reads:
  assumes "stats_env_good env" and "line_entries env ls = Some es" and "entries_ok es"
  shows "\<exists>s'. read_lines env (entry_step env) s ls = Some s' \<and> Q env s es s'"
  using assms(2,3)
proof (induction ls arbitrary: s es)
  case Nil
  then show ?case using none by auto
next
  case (Cons l ls)
  show ?case
  proof (cases "parse_line env l")
    case (Some e)
    show ?thesis
    proof (cases e)
      case No_Entry
      with Cons Some show ?thesis by auto
    next
      case (Entry t i action)
      obtain es' where es: "es = (t, i, action) # es'" "line_entries env ls = Some es'"
        using Cons.prems(1) Some Entry by auto
      have i: "0 \<le> i" "i < 2 ^ 31" "entries_ok es'" using Cons.prems(2) by (simp_all add: es entries_ok_def)
      obtain s1 where s1: "entry_step env s t i action = Some s1" "Q env s [(t, i, action)] s1"
        using entry [OF assms(1) i(1,2)] by blast
      obtain s2 where s2: "read_lines env (entry_step env) s1 ls = Some s2" "Q env s1 es' s2"
        using Cons.IH [OF es(2) i(3)] by blast
      show ?thesis using Some Entry s1 s2 more [OF s1(2) s2(2)] es by auto
    qed
  qed (use Cons.prems in auto)
qed

lemma reads_log:
  assumes "stats_env_good env" and "log_ok ts ls"
  shows "\<exists>s'. readStream env (entry_step env) s (log_text ts ls) = Some s' \<and> Q env s (log_entries env ts ls) s'"
  unfolding readStream_def by (rule reads [OF assms(1) line_entries_log [OF assms(2)] entries_ok_log [OF assms(2)]])

end

text \<open>
  A line that ends in its colon ends the programs by an exception, and so does a negative
  number; an option before the name of the file is opened in place of it.
\<close>

lemma stats_short_line: "parse_line env ''()1:'' = None"
  by (simp add: parse_line_def substr_def)

lemma stats_negative: "grow env v (- 1) = None"
  by (simp add: grow_def)

lemma stats_option_opened:
  assumes "name \<noteq> []" and "name ! 0 \<noteq> CHR ''-''" and "files ''-o'' = None"
  shows "stats_main read s files stdin [''-o'', name] = Bad_Filename ''-o''"
  using assms by (auto simp: stats_main_def)

text \<open>Without arguments a program reads its standard input.\<close>

lemma stats_main_stdin: "read s fin = Some s' \<Longrightarrow> stats_main read s files fin [] = Stats s'"
  by (simp add: stats_main_def)

lemma stats_main_read: "stats_main read s files stdin args = Stats s' \<Longrightarrow> \<exists>fin. read s fin = Some s'"
  by (auto simp: stats_main_def split: option.splits if_splits)

text \<open>Times that are counted in characters.\<close>

definition ex_stats_env :: "nat stats_env" where
  "ex_stats_env = \<lparr>atof = length, fadd = (+), fsub = (-), fzero = 0, vector_ok = (\<lambda>n. True)\<rparr>"

lemma ex_stats_env_good: "stats_env_good ex_stats_env"
  by (simp add: stats_env_good_def ex_stats_env_def)

end
