(* ===== verification/PhilStats.thy ===== *)
theory PhilStats imports StatsLines PhilProps begin

text \<open>
  What philosophers_stats.cc makes of the output of philosophers.c. The table is run together with its log and with
  what the program wants to know: how long each philosopher was in each state. A line is printed in the step
  that it tells of; the times are those that are read back from the log.
\<close>

section \<open>The log of the table\<close>

primrec state_char :: "state_t \<Rightarrow> char" where
  "state_char STATE_THINKING = CHR ''T''"
| "state_char STATE_HUNGRY = CHR ''H''"
| "state_char STATE_EATING = CHR ''E''"

text \<open>What a philosopher prints in the step from a point of its loop.\<close>

primrec phil_line :: "phil_pc \<Rightarrow> string option" where
  "phil_line At_Think = Some [state_char STATE_HUNGRY]"
| "phil_line At_Trylock = None"
| "phil_line At_Wait = None"
| "phil_line In_Wait = None"
| "phil_line At_Lock = None"
| "phil_line At_Right = Some ''RIGHT UP''"
| "phil_line At_Left = Some ''LEFT UP''"
| "phil_line At_Eat = Some [state_char STATE_EATING]"
| "phil_line Eating = Some ''RIGHT DOWN''"
| "phil_line At_Left_Down = Some ''LEFT DOWN''"
| "phil_line At_Signal = None"
| "phil_line At_Thinking = Some [state_char STATE_THINKING]"
| "phil_line At_Unlock = None"

text \<open>
  \<open>changed_at\<close> is the time of the last change of state of each philosopher, at first that of the start, and
  \<open>time_in\<close> the time that each spent in each state up to it.
\<close>

record 't timed_table =
  table_of :: table
  phil_lines :: "(int \<times> string) list"
  line_times :: "string list"
  changed_at :: "nat \<Rightarrow> 't"
  time_in :: "nat \<Rightarrow> state_t \<Rightarrow> 't"

definition timed_table0 :: "'t stats_env \<Rightarrow> nat \<Rightarrow> 't timed_table" where
  "timed_table0 env n = \<lparr>table_of = table0 n, phil_lines = [], line_times = [],
     changed_at = (\<lambda>i. fzero env), time_in = (\<lambda>i s. fzero env)\<rparr>"

definition change_state :: "'t stats_env \<Rightarrow> 't timed_table \<Rightarrow> nat \<Rightarrow> state_t \<Rightarrow> 't \<Rightarrow> 't timed_table" where
  "change_state env tt i left t = tt\<lparr>changed_at := (changed_at tt)(i := t),
     time_in := (time_in tt)(i := (time_in tt i)(left := fadd env (time_in tt i left) (fsub env t (changed_at tt i))))\<rparr>"

definition timed_step ::
  "'t stats_env \<Rightarrow> 't timed_table \<Rightarrow> nat \<Rightarrow> nat option \<Rightarrow> string \<Rightarrow> 't timed_table option" where
  "timed_step env tt i woken time =
     map_option (\<lambda>t'.
       case phil_line (pc_of (table_of tt) ! i) of
         None \<Rightarrow> tt\<lparr>table_of := t'\<rparr>
       | Some l \<Rightarrow>
           let before = state_of (table_of tt) ! i;
               tt' = tt\<lparr>table_of := t', phil_lines := phil_lines tt @ [(int i, l)], line_times := line_times tt @ [time]\<rparr>
           in if state_of t' ! i = before then tt'
              else change_state env tt' i before (atof env (time @ '') '')))
     (philosopher_step (table_of tt) i woken)"

inductive timed_reachable :: "'t stats_env \<Rightarrow> nat \<Rightarrow> 't timed_table \<Rightarrow> bool" for env n where
  start: "timed_reachable env n (timed_table0 env n)"
| act: "timed_reachable env n tt \<Longrightarrow> time_text time \<Longrightarrow> timed_step env tt i woken time = Some tt' \<Longrightarrow>
    timed_reachable env n tt'"
| spurious: "timed_reachable env n tt \<Longrightarrow> spurious_step (table_of tt) i = Some t' \<Longrightarrow>
    timed_reachable env n (tt\<lparr>table_of := t'\<rparr>)"

section \<open>The states of the philosophers\<close>

primrec pc_state :: "phil_pc \<Rightarrow> state_t" where
  "pc_state At_Think = STATE_THINKING"
| "pc_state At_Trylock = STATE_HUNGRY"
| "pc_state At_Wait = STATE_HUNGRY"
| "pc_state In_Wait = STATE_HUNGRY"
| "pc_state At_Lock = STATE_HUNGRY"
| "pc_state At_Right = STATE_HUNGRY"
| "pc_state At_Left = STATE_HUNGRY"
| "pc_state At_Eat = STATE_HUNGRY"
| "pc_state Eating = STATE_EATING"
| "pc_state At_Left_Down = STATE_EATING"
| "pc_state At_Signal = STATE_EATING"
| "pc_state At_Thinking = STATE_EATING"
| "pc_state At_Unlock = STATE_THINKING"

definition states_ok :: "nat \<Rightarrow> table \<Rightarrow> bool" where
  "states_ok n t \<longleftrightarrow> length (pc_of t) = n \<and> length (state_of t) = n \<and>
     (\<forall>i < n. state_of t ! i = pc_state (pc_of t ! i))"

lemma states_ok_start: "states_ok n (table0 n)"
  by (simp add: states_ok_def table0_def)

lemma states_ok_spurious: "states_ok n t \<Longrightarrow> spurious_step t i = Some t' \<Longrightarrow> states_ok n t'"
  by (auto simp: states_ok_def spurious_step_def goto_def nth_list_update split: if_splits)

text \<open>A step of a philosopher changes its state just when it prints a letter, that of the new state.\<close>

lemma states_ok_step:
  assumes "states_ok n t" and "philosopher_step t i woken = Some t'"
  shows "i < n \<and> states_ok n t' \<and> state_of t ! i = pc_state (pc_of t ! i) \<and>
    (case phil_line (pc_of t ! i) of None \<Rightarrow> True | Some l \<Rightarrow>
      (if length l = 1 then state_of t' ! i \<noteq> state_of t ! i \<and> l = [state_char (state_of t' ! i)]
       else state_of t' ! i = state_of t ! i))"
proof -
  have i: "i < n" using assms by (auto simp: philosopher_step_def states_ok_def split: if_splits)
  have same: "state_of t ! i = pc_state (pc_of t ! i)" using assms(1) i by (simp add: states_ok_def)
  note simps = philosopher_step_def states_ok_def step_defs nth_list_update signal_ok_def
  have "states_ok n t'" using assms i
    by (cases "pc_of t ! i") (auto simp: simps split: if_splits option.splits)
  moreover have "case phil_line (pc_of t ! i) of None \<Rightarrow> True | Some l \<Rightarrow>
      (if length l = 1 then state_of t' ! i \<noteq> state_of t ! i \<and> l = [state_char (state_of t' ! i)]
       else state_of t' ! i = state_of t ! i)"
    using assms i same by (cases "pc_of t ! i") (auto simp: simps split: if_splits)
  ultimately show ?thesis using i same by blast
qed

section \<open>What the program computes\<close>

text \<open>The vectors of the program as functions: beyond its end a vector counts as zero.\<close>

record 't phil_times =
  changed :: "nat \<Rightarrow> 't"
  spent :: "nat \<Rightarrow> state_t \<Rightarrow> 't"

definition vector_at :: "'t stats_env \<Rightarrow> 't list \<Rightarrow> nat \<Rightarrow> 't" where
  "vector_at env v i = (if i < length v then v ! i else fzero env)"

definition times_vector :: "'t phil_stats \<Rightarrow> state_t \<Rightarrow> 't list" where
  "times_vector st s = (case s of STATE_THINKING \<Rightarrow> thinkingTimes st | STATE_HUNGRY \<Rightarrow> hungryTimes st
     | STATE_EATING \<Rightarrow> eatingTimes st)"

definition phil_times_of :: "'t stats_env \<Rightarrow> 't phil_stats \<Rightarrow> 't phil_times" where
  "phil_times_of env st = \<lparr>changed = vector_at env (lastStateChangeTimes st),
     spent = (\<lambda>i s. vector_at env (times_vector st s) i)\<rparr>"

text \<open>The state that a philosopher leaves, by the letter of the state that it enters.\<close>

definition state_left :: "string \<Rightarrow> state_t option" where
  "state_left a = (if a = ''H'' then Some STATE_THINKING else if a = ''E'' then Some STATE_HUNGRY
     else if a = ''T'' then Some STATE_EATING else None)"

definition times_entry :: "'t stats_env \<Rightarrow> 't phil_times \<Rightarrow> 't \<times> int \<times> string \<Rightarrow> 't phil_times" where
  "times_entry env p e = (let t = fst e; i = nat (fst (snd e)) in case state_left (snd (snd e)) of
     None \<Rightarrow> p
   | Some s \<Rightarrow> p\<lparr>changed := (changed p)(i := t),
       spent := (spent p)(i := (spent p i)(s := fadd env (spent p i s) (fsub env t (changed p i))))\<rparr>)"

lemma vector_grow:
  assumes "grow env v i = Some w"
  shows "nat i < length w \<and> vector_at env w = vector_at env v"
  using assms by (auto simp: grow_def vector_at_def nth_append split: if_splits)

lemma vector_update: "i < length w \<Longrightarrow> vector_at env (w[i := x]) = (vector_at env w)(i := x)"
  by (auto simp: vector_at_def nth_list_update)

lemma vector_set: "grow env v i = Some w \<Longrightarrow> vector_at env (w[nat i := x]) = (vector_at env v)(nat i := x)"
  using vector_grow [of env v i w] by (simp add: vector_update)

lemma phil_entry_times:
  assumes "phil_entry env st t i action = Some st'"
  shows "phil_times_of env st' = times_entry env (phil_times_of env st) (t, i, action)"
proof -
  obtain ts where ts: "grow env (lastStateChangeTimes st) i = Some ts"
    using assms by (auto simp: phil_entry_def split: option.splits)
  have at: "w ! nat i = vector_at env v (nat i)" if "grow env v i = Some w" for v w
    using vector_grow [OF that] by (metis vector_at_def)
  note simps = phil_entry_def add_time_def Let_def phil_times_of_def times_entry_def state_left_def
    times_vector_def fun_eq_iff
  show ?thesis
    using assms ts vector_grow [OF ts]
    by (auto simp: simps at vector_set split: if_splits state_t.splits)
qed

lemma phil_times_entry:
  assumes "stats_env_good env" and "0 \<le> i" and "i < 2 ^ 31"
  shows "\<exists>st'. phil_entry env st t i action = Some st' \<and>
    phil_times_of env st' = times_entry env (phil_times_of env st) (t, i, action)"
proof -
  obtain ts a b c where "grow env (lastStateChangeTimes st) i = Some ts" "grow env (thinkingTimes st) i = Some a"
    "grow env (hungryTimes st) i = Some b" "grow env (eatingTimes st) i = Some c"
    using grow_ok [OF assms, of "lastStateChangeTimes st"] grow_ok [OF assms, of "thinkingTimes st"]
      grow_ok [OF assms, of "hungryTimes st"] grow_ok [OF assms, of "eatingTimes st"] by blast
  then obtain st' where "phil_entry env st t i action = Some st'"
    by (fastforce simp: phil_entry_def add_time_def Let_def)
  with phil_entry_times [OF this] show ?thesis by blast
qed

definition times_kept :: "'t stats_env \<Rightarrow> 't phil_stats \<Rightarrow> ('t \<times> int \<times> string) list \<Rightarrow> 't phil_stats \<Rightarrow> bool" where
  "times_kept env st es st' \<longleftrightarrow> phil_times_of env st' = foldl (times_entry env) (phil_times_of env st) es"

interpretation times: entry_reader phil_entry times_kept
  by unfold_locales (use phil_times_entry in \<open>auto simp: times_kept_def\<close>)

section \<open>The log has the times\<close>

definition timed_inv :: "'t stats_env \<Rightarrow> nat \<Rightarrow> 't timed_table \<Rightarrow> bool" where
  "timed_inv env n tt \<longleftrightarrow> states_ok n (table_of tt) \<and>
     length (line_times tt) = length (phil_lines tt) \<and> (\<forall>t \<in> set (line_times tt). time_text t) \<and>
     (\<forall>l \<in> set (phil_lines tt). 0 \<le> fst l \<and> fst l < int n \<and> CHR 0x0A \<notin> set (snd l)) \<and>
     foldl (times_entry env) \<lparr>changed = (\<lambda>i. fzero env), spent = (\<lambda>i s. fzero env)\<rparr>
       (log_entries env (line_times tt) (phil_lines tt)) = \<lparr>changed = changed_at tt, spent = time_in tt\<rparr>"

lemma log_entries_snoc:
  "length ts = length ls \<Longrightarrow>
    log_entries env (ts @ [t]) (ls @ [l]) = log_entries env ts ls @ [(atof env (t @ '') ''), l)]"
  by (simp add: log_entries_def)

lemma timed_inv_start: "timed_inv env n (timed_table0 env n)"
  by (simp add: timed_inv_def timed_table0_def states_ok_start log_entries_def)

lemma timed_inv_step:
  assumes inv: "timed_inv env n tt" and "time_text time" and step: "timed_step env tt i woken time = Some tt'"
  shows "timed_inv env n tt'"
proof -
  let ?t = "table_of tt"
  obtain t' where t': "philosopher_step ?t i woken = Some t'" using step by (auto simp: timed_step_def)
  have ok: "states_ok n ?t" using inv by (simp add: timed_inv_def)
  note s = states_ok_step [OF ok t']
  show ?thesis
  proof (cases "phil_line (pc_of ?t ! i)")
    case None
    then have "tt' = tt\<lparr>table_of := t'\<rparr>" using step t' by (simp add: timed_step_def)
    with inv s show ?thesis by (simp add: timed_inv_def)
  next
    case (Some l)
    have l: "CHR 0x0A \<notin> set l" using Some by (cases "pc_of ?t ! i") auto
    have left: "state_left l = (if state_of t' ! i = state_of ?t ! i then None else Some (state_of ?t ! i))"
      using s Some by (cases "pc_of ?t ! i") (auto simp: state_left_def)
    have "tt' = (let u = tt\<lparr>table_of := t', phil_lines := phil_lines tt @ [(int i, l)], line_times := line_times tt @ [time]\<rparr>
      in case state_left l of None \<Rightarrow> u | Some b \<Rightarrow> change_state env u i b (atof env (time @ '') '')))"
      using step t' Some left by (auto simp: timed_step_def Let_def split: if_splits)
    with inv conjunct1 [OF s] conjunct1 [OF conjunct2 [OF s]] l assms(2) show ?thesis
      by (cases "state_left l") (auto simp: timed_inv_def change_state_def log_entries_snoc times_entry_def Let_def)
  qed
qed

lemma timed_inv_reachable: "timed_reachable env n tt \<Longrightarrow> timed_inv env n tt"
proof (induction rule: timed_reachable.induct)
  case (spurious tt i t')
  then show ?case using states_ok_spurious by (auto simp: timed_inv_def)
qed (auto intro: timed_inv_start timed_inv_step)

section \<open>Properties\<close>

text \<open>
  C27. What the checker prints about the philosophers: given what the simulation has printed at any moment, it
  reads every line, and for each philosopher the total thinking, hungry and eating times that it prints are
  the times that the philosopher has spent in these states up to its last change of state, as they add
  up from the times in the log, whatever the arithmetic of floats does; a philosopher without an entry counts as zero.
\<close>

theorem phil_stats_times:
  assumes "timed_reachable env n tt" and "n \<le> 2 ^ 31" and "stats_env_good env"
  shows "\<exists>st. phil_stats_main env files (log_text (line_times tt) (phil_lines tt)) [] = Stats st \<and>
    (\<forall>i. vector_at env (thinkingTimes st) i = time_in tt i STATE_THINKING \<and>
      vector_at env (hungryTimes st) i = time_in tt i STATE_HUNGRY \<and>
      vector_at env (eatingTimes st) i = time_in tt i STATE_EATING \<and>
      vector_at env (lastStateChangeTimes st) i = changed_at tt i)"
proof -
  note inv = timed_inv_reachable [OF assms(1), unfolded timed_inv_def]
  have "log_ok (line_times tt) (phil_lines tt)"
    using inv assms(2) by (fastforce simp: log_ok_def ids_ok_def)
  from times.reads_log [OF assms(3) this] obtain st where
    st: "readStream env (phil_entry env) phil_stats0 (log_text (line_times tt) (phil_lines tt)) = Some st"
    "times_kept env phil_stats0 (log_entries env (line_times tt) (phil_lines tt)) st" by blast
  have "phil_times_of env phil_stats0 = \<lparr>changed = (\<lambda>i. fzero env), spent = (\<lambda>i s. fzero env)\<rparr>"
    by (auto simp: phil_times_of_def phil_stats0_def times_vector_def vector_at_def fun_eq_iff split: state_t.splits)
  with st(2) inv have "phil_times_of env st = \<lparr>changed = changed_at tt, spent = time_in tt\<rparr>"
    by (simp add: times_kept_def)
  then have "vector_at env (lastStateChangeTimes st) = changed_at tt"
    "(\<lambda>i s. vector_at env (times_vector st s) i) = time_in tt" by (simp_all add: phil_times_of_def)
  then have "vector_at env (lastStateChangeTimes st) i = changed_at tt i"
    "vector_at env (times_vector st s) i = time_in tt i s" for i s by (simp_all add: fun_eq_iff)
  from this(1) this(2) [of STATE_THINKING] this(2) [of STATE_HUNGRY] this(2) [of STATE_EATING]
    stats_main_stdin [of "phil_readStream env", unfolded phil_readStream_def, OF st(1)]
  show ?thesis by (auto simp: times_vector_def phil_stats_main_def phil_readStream_def)
qed

text \<open>The first of two philosophers eats; each line is printed at a later time.\<close>

definition ex_timed :: "nat timed_table option" where
  "ex_timed = foldl (\<lambda>tt (woken, time). Option.bind tt (\<lambda>u. timed_step ex_stats_env u 0 woken time))
     (Some (timed_table0 ex_stats_env 2))
     (zip (replicate 9 None) [''1'', ''2'', ''33'', ''444'', ''5555'', ''66666'', ''777777'', ''8'', ''88888888''])"

lemma ex_timed_reachable: "ex_timed = Some tt \<Longrightarrow> timed_reachable ex_stats_env 2 tt"
proof -
  have "foldl (\<lambda>tt (woken, time). Option.bind tt (\<lambda>u. timed_step ex_stats_env u 0 woken time)) None xs = None" for xs
    by (induction xs) auto
  then have "timed_reachable ex_stats_env 2 u \<Longrightarrow> \<forall>x \<in> set xs. time_text (snd x) \<Longrightarrow>
    foldl (\<lambda>tt (woken, time). Option.bind tt (\<lambda>u. timed_step ex_stats_env u 0 woken time)) (Some u) xs = Some tt \<Longrightarrow>
    timed_reachable ex_stats_env 2 tt" for u xs
  proof (induction xs arbitrary: u)
    case (Cons x xs)
    then show ?case
      by (cases x; cases "timed_step ex_stats_env u 0 (fst x) (snd x)") (auto intro: timed_reachable.act)
  qed simp
  from this [OF timed_reachable.start, of "zip (replicate 9 None) [''1'', ''2'', ''33'', ''444'', ''5555'', ''66666'',
      ''777777'', ''8'', ''88888888'']"]
  show "ex_timed = Some tt \<Longrightarrow> timed_reachable ex_stats_env 2 tt"
    by (simp add: ex_timed_def time_text_def numeral_eq_Suc)
qed

lemma ex_timed_value:
  "map_option (\<lambda>tt. (time_in tt 0 STATE_THINKING, time_in tt 0 STATE_HUNGRY, time_in tt 0 STATE_EATING, time_in tt 1 STATE_HUNGRY,
      map snd (phil_lines tt))) ex_timed =
    Some (3, 3, 4, 0, [''H'', ''RIGHT UP'', ''LEFT UP'', ''E'', ''RIGHT DOWN'', ''LEFT DOWN'', ''T''])"
  by code_simp

theorem phil_stats_times_witness:
  "\<exists>tt st. ex_timed = Some tt \<and>
    phil_stats_main ex_stats_env (\<lambda>name. None) (log_text (line_times tt) (phil_lines tt)) [] = Stats st \<and>
    vector_at ex_stats_env (thinkingTimes st) 0 = 3 \<and> vector_at ex_stats_env (hungryTimes st) 0 = 3 \<and>
    vector_at ex_stats_env (eatingTimes st) 0 = 4 \<and> vector_at ex_stats_env (hungryTimes st) 1 = 0"
proof -
  obtain tt where tt: "ex_timed = Some tt" "time_in tt 0 STATE_THINKING = 3" "time_in tt 0 STATE_HUNGRY = 3"
    "time_in tt 0 STATE_EATING = 4" "time_in tt 1 STATE_HUNGRY = 0"
    using ex_timed_value by (cases ex_timed) auto
  show ?thesis
    using phil_stats_times [OF ex_timed_reachable [OF tt(1)] _ ex_stats_env_good, of "\<lambda>name. None"] tt by auto
qed

text \<open>Times whose sums and differences are exact.\<close>

definition exact_times :: "'t :: ab_group_add stats_env \<Rightarrow> bool" where
  "exact_times env \<longleftrightarrow> (\<forall>a b. fadd env a b = a + b \<and> fsub env a b = a - b) \<and> fzero env = 0"

definition times_total :: "'t :: ab_group_add phil_times \<Rightarrow> bool" where
  "times_total p \<longleftrightarrow> (\<forall>i. spent p i STATE_THINKING + spent p i STATE_HUNGRY + spent p i STATE_EATING = changed p i)"

lemma times_total_entry:
  assumes "exact_times env" and "times_total p"
  shows "times_total (times_entry env p e)"
proof -
  have total: "changed p i = spent p i STATE_THINKING + spent p i STATE_HUNGRY + spent p i STATE_EATING" for i
    using assms(2) by (simp add: times_total_def)
  have exact: "fadd env = (+)" "fsub env = (-)" using assms(1) by (simp_all add: exact_times_def fun_eq_iff)
  show ?thesis
    by (auto simp: times_total_def times_entry_def state_left_def Let_def exact total algebra_simps)
qed

text \<open>
  No time is lost or counted twice: whatever lines the checker of the philosophers reads, from a file or from
  its standard input, if it comes to the end and sums are exact, then the times that it prints for a philosopher add up to the time of the last
  change of state that it read for it.
\<close>

theorem phil_stats_total:
  assumes "phil_stats_main env files stdin args = Stats st" and "exact_times env"
  shows "vector_at env (thinkingTimes st) i + vector_at env (hungryTimes st) i + vector_at env (eatingTimes st) i =
    vector_at env (lastStateChangeTimes st) i"
proof -
  obtain fin where fin: "read_lines env (phil_entry env) phil_stats0 (stream_lines fin) = Some st"
    using stats_main_read [OF assms(1) [unfolded phil_stats_main_def]] by (auto simp: phil_readStream_def readStream_def)
  have "times_total (phil_times_of env st)"
  proof (rule read_lines_invariant [OF _ _ fin])
    show "times_total (phil_times_of env phil_stats0)"
      using assms(2) by (simp add: times_total_def phil_times_of_def phil_stats0_def times_vector_def vector_at_def
        exact_times_def)
    show "times_total (phil_times_of env s')"
      if "times_total (phil_times_of env s)" "phil_entry env s t j action = Some s'" for s t j action s'
      using that times_total_entry [OF assms(2)] phil_entry_times by metis
  qed
  then show ?thesis by (simp add: times_total_def phil_times_of_def times_vector_def)
qed

definition int_stats_env :: "int stats_env" where
  "int_stats_env = \<lparr>atof = int \<circ> length, fadd = (+), fsub = (-), fzero = 0, vector_ok = (\<lambda>n. True)\<rparr>"

definition ex_phil_file :: string where
  "ex_phil_file = log_text [''12'', ''345'', ''6'', ''7890''] [(0, ''H''), (0, ''E''), (0, ''LEFT DOWN''), (0, ''T'')]"

lemma ex_phil_file_value:
  "(case phil_stats_main int_stats_env (\<lambda>name. if name = ''log'' then Some ex_phil_file else None) [] [''log''] of
      Stats st \<Rightarrow> Some (thinkingTimes st, hungryTimes st, eatingTimes st, lastStateChangeTimes st) | _ \<Rightarrow> None) =
    Some ([4], [1], [1], [6])"
  by code_simp

theorem phil_stats_total_witness:
  "\<exists>st. phil_stats_main int_stats_env (\<lambda>name. if name = ''log'' then Some ex_phil_file else None) [] [''log''] = Stats st \<and>
    vector_at int_stats_env (thinkingTimes st) 0 + vector_at int_stats_env (hungryTimes st) 0 +
      vector_at int_stats_env (eatingTimes st) 0 = 6"
proof -
  obtain st where st: "phil_stats_main int_stats_env (\<lambda>name. if name = ''log'' then Some ex_phil_file else None) [] [''log''] =
      Stats st" "lastStateChangeTimes st = [6]"
    using ex_phil_file_value by (auto split: stats_end.splits)
  have "exact_times int_stats_env" by (simp add: exact_times_def int_stats_env_def)
  from phil_stats_total [OF st(1) this, of 0] st show ?thesis by (auto simp: vector_at_def)
qed

end
