(* ===== verification/Shell.thy ===== *)
theory Shell imports CString begin

text \<open>
  The shell of Asmt_2 (shell.c): it reads a line into a buffer that grows, splits it with
  \<open>strtok\<close> into an array of pointers, forks, and the child sets up redirections and calls
  \<open>execvp\<close>.

  A token is an offset into the input buffer, where \<open>strtok\<close> writes its NULs; a slot of the
  token array and of the parameters of the child is such a pointer, NULL, or never written.
  Memory that \<open>malloc\<close> and \<open>realloc\<close> give out, and which system calls succeed, is up to the
  environment. The input ends with \<open>EOF\<close>, which as a \<open>char\<close> is the byte 255. Prompts and
  messages are left out; the child's own errors do not stop the shell.
\<close>

section \<open>State\<close>

datatype slot = Unwritten | Null | Token nat

datatype open_mode = For_Writing | For_Appending | For_Reading

record command =
  argv :: "byte list list"
  stdout_to :: "(byte list \<times> open_mode) option"
  stdin_from :: "byte list option"

text \<open>A line that was run: what its child ended in, and whether the shell waited for it.\<close>

datatype event = Ran "command res" bool

record shell_env =
  malloc_input :: "byte list option"
  malloc_tokens :: bool
  realloc_input :: "byte list \<Rightarrow> nat \<Rightarrow> byte list option"
  realloc_tokens :: "nat \<Rightarrow> bool"
  fork_ok :: "byte list \<Rightarrow> bool"
  fopen_ok :: "byte list \<Rightarrow> open_mode \<Rightarrow> bool"
  execvp_ok :: "command \<Rightarrow> bool"

definition buf_base_size :: uint32 where
  "buf_base_size = 80"

definition token_buf_base_size :: nat where
  "token_buf_base_size = 20"

section \<open>Reading a line\<close>

fun getchar :: "byte list \<Rightarrow> byte \<times> byte list" where
  "getchar [] = (255, [])"
| "getchar (c # f) = (c, f)"

text \<open>
  The inner loop of \<open>main\<close>; \<open>None\<close> is a loop that never ends. Sizes and positions are
  \<open>unsigned int\<close>s.
\<close>

partial_function (option) read_input ::
  "shell_env \<Rightarrow> byte list \<Rightarrow> byte list \<Rightarrow> uint32 \<Rightarrow> uint32 \<Rightarrow> (byte list \<times> uint32 \<times> byte list) res option" where
  "read_input env f input_buf buf_size buf_pos =
     (case (if buf_pos = buf_size
            then (case realloc_input env input_buf (unat (buf_size + buf_base_size div 2)) of
                    None \<Rightarrow> Inl (Exit (-1))
                  | Some b \<Rightarrow> Inr (b, buf_size + buf_base_size div 2))
            else Inr (input_buf, buf_size)) of
        Inl e \<Rightarrow> Some (Inl e)
      | Inr (b, buf_size1) \<Rightarrow>
          if unat buf_pos < length b
          then if fst (getchar f) = 10
               then Some (Inr (b[unat buf_pos := 10], buf_size1, snd (getchar f)))
               else read_input env (snd (getchar f)) (b[unat buf_pos := fst (getchar f)]) buf_size1 (buf_pos + 1)
          else Some (Inl Out_Of_Bounds))"

section \<open>Splitting it into tokens\<close>

definition delimiter :: "byte \<Rightarrow> bool" where
  "delimiter c \<longleftrightarrow> c = 32 \<or> c = 10"

text \<open>The two scans of \<open>strtok\<close>: over delimiters, and over anything else up to a NUL.\<close>

fun skip_delimiters :: "byte list \<Rightarrow> nat res" where
  "skip_delimiters [] = Inl Out_Of_Bounds"
| "skip_delimiters (c # cs) =
     (if delimiter c then bindr (skip_delimiters cs) (\<lambda>n. Inr (Suc n)) else Inr 0)"

fun skip_token :: "byte list \<Rightarrow> nat res" where
  "skip_token [] = Inl Out_Of_Bounds"
| "skip_token (c # cs) =
     (if delimiter c \<or> c = 0 then Inr 0 else bindr (skip_token cs) (\<lambda>n. Inr (Suc n)))"

text \<open>\<open>strtok\<close> from its saved position \<open>p\<close>: the token, the buffer, and the new position.\<close>

definition strtok :: "byte list \<Rightarrow> nat \<Rightarrow> (nat option \<times> byte list \<times> nat) res" where
  "strtok buf p =
     bindr (skip_delimiters (drop p buf)) (\<lambda>k.
     if buf ! (p + k) = 0 then Inr (None, buf, p + k)
     else
       bindr (skip_token (drop (p + k) buf)) (\<lambda>n.
       if buf ! (p + k + n) = 0 then Inr (Some (p + k), buf, p + k + n)
       else Inr (Some (p + k), buf[p + k + n := 0], Suc (p + k + n))))"

lemma skip_delimiters_less: "skip_delimiters cs = Inr n \<Longrightarrow> n < length cs \<and> \<not> delimiter (cs ! n)"
  by (induction cs arbitrary: n) (auto simp: res_simps split: if_splits)

lemma skip_token_less: "skip_token cs = Inr n \<Longrightarrow> n < length cs \<and> (0 < length cs \<longrightarrow> \<not> delimiter (cs ! 0) \<longrightarrow> cs ! 0 \<noteq> 0 \<longrightarrow> 0 < n)"
  by (induction cs arbitrary: n) (auto simp: res_simps split: if_splits)

lemma strtok_progress:
  assumes "strtok buf p = Inr (Some t, buf', p')"
  shows "p < p' \<and> p' \<le> length buf \<and> length buf' = length buf"
proof -
  from assms obtain k where k: "skip_delimiters (drop p buf) = Inr k" "buf ! (p + k) \<noteq> 0"
    by (auto simp: strtok_def res_simps split: if_splits)
  with assms obtain n where n: "skip_token (drop (p + k) buf) = Inr n"
    "p' = p + k + n \<or> p' = Suc (p + k + n)" "length buf' = length buf"
    by (auto simp: strtok_def res_simps split: if_splits)
  have "\<not> delimiter (drop (p + k) buf ! 0)" "0 < length (drop (p + k) buf)"
    using skip_delimiters_less [OF k(1)] by (auto simp: add.commute)
  with skip_token_less [OF n(1)] k(2) n(2,3) show ?thesis by auto
qed

text \<open>
  The token loop of \<open>main\<close>: the array always has room for the next token, as it grows when it
  is full; \<open>realloc\<close> does not set the new slots.
\<close>

function tokenise ::
  "shell_env \<Rightarrow> byte list \<Rightarrow> nat \<Rightarrow> slot list \<Rightarrow> nat \<Rightarrow> (byte list \<times> slot list) res" where
  "tokenise env buf p token_buf token_pos =
     (case strtok buf p of
        Inl e \<Rightarrow> Inl e
      | Inr (token, buf', p') \<Rightarrow>
          (case token of
             None \<Rightarrow> Inr (buf', token_buf)
           | Some t \<Rightarrow>
               bindr (check (token_pos < length token_buf) Out_Of_Bounds) (\<lambda>u.
               let filled = token_buf[token_pos := Token t] in
               if token_pos + 1 = length filled
               then if realloc_tokens env (length filled + token_buf_base_size div 2)
                    then tokenise env buf' p' (filled @ replicate (token_buf_base_size div 2) Unwritten) (token_pos + 1)
                    else Inl (Exit (-1))
               else tokenise env buf' p' filled (token_pos + 1))))"
  by pat_completeness auto
termination
  by (relation "measure (\<lambda>(env, buf, p, token_buf, token_pos). Suc (length buf) - p)")
    (auto dest!: strtok_progress)

declare tokenise.simps [simp del]

text \<open>The loop that counts the tokens; it looks at a slot before it checks the index.\<close>

fun count_tokens :: "slot list \<Rightarrow> nat res" where
  "count_tokens [] = Inl Out_Of_Bounds"
| "count_tokens (Unwritten # ss) = Inl Uninit_Read"
| "count_tokens (Null # ss) = Inr 0"
| "count_tokens (Token t # ss) = bindr (count_tokens ss) (\<lambda>n. Inr (Suc n))"

section \<open>Running a command\<close>

definition token_at :: "slot list \<Rightarrow> nat \<Rightarrow> nat res" where
  "token_at token_buf i =
     (if i < length token_buf
      then (case token_buf ! i of Unwritten \<Rightarrow> Inl Uninit_Read | Null \<Rightarrow> Inl Null_Deref | Token t \<Rightarrow> Inr t)
      else Inl Out_Of_Bounds)"

text \<open>\<open>strcmp (token_buf[i], s) == 0\<close>.\<close>

definition token_is :: "byte list \<Rightarrow> slot list \<Rightarrow> nat \<Rightarrow> byte list \<Rightarrow> bool res" where
  "token_is buf token_buf i s =
     bindr (token_at token_buf i) (\<lambda>t. bindr (strcmp (drop t buf) (s @ [0])) (\<lambda>r. Inr (r = 0)))"

definition token_string :: "byte list \<Rightarrow> slot list \<Rightarrow> nat \<Rightarrow> byte list res" where
  "token_string buf token_buf i = bindr (token_at token_buf i) (\<lambda>t. c_string (drop t buf))"

text \<open>\<open>find_redirect\<close> from index \<open>i\<close> on, with \<open>n\<close> tokens to go.\<close>

primrec find_redirect_from :: "byte list \<Rightarrow> slot list \<Rightarrow> nat \<Rightarrow> nat \<Rightarrow> nat res" where
  "find_redirect_from buf token_buf i 0 = Inr 0"
| "find_redirect_from buf token_buf i (Suc n) =
     bindr (token_is buf token_buf i [62]) (\<lambda>b1. if b1 then Inr i else
     bindr (token_is buf token_buf i [62, 62]) (\<lambda>b2. if b2 then Inr i else
     bindr (token_is buf token_buf i [60]) (\<lambda>b3. if b3 then Inr i else
     find_redirect_from buf token_buf (i + 1) n)))"

definition find_redirect :: "byte list \<Rightarrow> slot list \<Rightarrow> nat \<Rightarrow> nat res" where
  "find_redirect buf token_buf token_buf_len = find_redirect_from buf token_buf 0 token_buf_len"

text \<open>
  The loop that fills \<open>param_buf\<close> (of \<open>n\<close> slots and one for the NULL): a token \<open>&\<close> ends it, and the
  slots from there on stay unwritten.
\<close>

primrec copy_params :: "byte list \<Rightarrow> slot list \<Rightarrow> nat \<Rightarrow> nat \<Rightarrow> (slot list \<times> bool) res" where
  "copy_params buf token_buf i 0 = Inr ([], False)"
| "copy_params buf token_buf i (Suc n) =
     bindr (token_is buf token_buf i [38]) (\<lambda>b.
     if b then Inr (replicate (Suc n) Unwritten, True)
     else
       bindr (token_at token_buf i) (\<lambda>t.
       bindr (copy_params buf token_buf (i + 1) n) (\<lambda>(ps, background).
       Inr (Token t # ps, background))))"

text \<open>The strings that \<open>execvp\<close> reads: the slots up to the NULL.\<close>

fun read_params :: "byte list \<Rightarrow> slot list \<Rightarrow> byte list list res" where
  "read_params buf [] = Inl Out_Of_Bounds"
| "read_params buf (Unwritten # ps) = Inl Uninit_Read"
| "read_params buf (Null # ps) = Inr []"
| "read_params buf (Token t # ps) =
     bindr (c_string (drop t buf)) (\<lambda>s. bindr (read_params buf ps) (\<lambda>ss. Inr (s # ss)))"

definition dev_null :: "byte list" where
  "dev_null = [47, 100, 101, 118, 47, 110, 117, 108, 108]"

definition open_file :: "shell_env \<Rightarrow> byte list \<Rightarrow> open_mode \<Rightarrow> unit res" where
  "open_file env name mode = check (fopen_ok env name mode) (Exit (-1))"

text \<open>The redirections of the child: \<open>r\<close> is \<open>redirect_token_pos\<close>.\<close>

definition redirect ::
  "shell_env \<Rightarrow> byte list \<Rightarrow> slot list \<Rightarrow> nat \<Rightarrow> byte list \<Rightarrow> bool \<Rightarrow>
   ((byte list \<times> open_mode) option \<times> byte list option) res" where
  "redirect env buf token_buf r fname background =
     bindr (if r = 0 \<and> background
            then bindr (open_file env dev_null For_Writing) (\<lambda>u. Inr (Some (dev_null, For_Writing)))
            else Inr None) (\<lambda>out0.
     if r > 0 then
       bindr (token_is buf token_buf r [62]) (\<lambda>b1.
       bindr (if b1 then bindr (open_file env fname For_Writing) (\<lambda>u. Inr (Some (fname, For_Writing)))
              else Inr out0) (\<lambda>out1.
       bindr (token_is buf token_buf r [62, 62]) (\<lambda>b2.
       bindr (if b2 then bindr (open_file env fname For_Appending) (\<lambda>u. Inr (Some (fname, For_Appending)))
              else Inr out1) (\<lambda>out2.
       bindr (token_is buf token_buf r [60]) (\<lambda>b3.
       bindr (if b3 then bindr (open_file env fname For_Reading) (\<lambda>u. Inr (Some fname))
              else Inr None) (\<lambda>in1. Inr (out2, in1)))))))
     else Inr (out0, None))"

text \<open>The child.\<close>

definition run_child :: "shell_env \<Rightarrow> byte list \<Rightarrow> slot list \<Rightarrow> nat \<Rightarrow> command res" where
  "run_child env buf token_buf token_buf_len =
     bindr (find_redirect buf token_buf token_buf_len) (\<lambda>r.
     bindr (if r > 0 \<and> r + 1 < token_buf_len then token_string buf token_buf (r + 1) else Inr []) (\<lambda>fname.
     let param_buf_size = (if r > 0 then r else token_buf_len) in
     bindr (copy_params buf token_buf 0 param_buf_size) (\<lambda>(params, background).
     bindr (redirect env buf token_buf r fname background) (\<lambda>(out, inp).
     bindr (read_params buf (params @ [Null])) (\<lambda>args.
     let cmd = \<lparr>argv = args, stdout_to = out, stdin_from = inp\<rparr> in
     bindr (check (execvp_ok env cmd) (Exit (-1))) (\<lambda>u. Inr cmd))))))"

text \<open>
  What the shell does with the tokens of a line: whether it is to end, and what it ran. The
  parent waits unless the last token is \<open>&\<close>.
\<close>

definition run_tokens :: "shell_env \<Rightarrow> byte list \<Rightarrow> slot list \<Rightarrow> (bool \<times> event list) res" where
  "run_tokens env buf token_buf =
     bindr (count_tokens token_buf) (\<lambda>n.
     if n = 0 then Inr (False, [])
     else
       bindr (token_is buf token_buf 0 [101, 120, 105, 116]) (\<lambda>ends.
       if ends then Inr (True, [])
       else
         bindr (check (fork_ok env buf) (Exit (-1))) (\<lambda>u.
         bindr (token_is buf token_buf (n - 1) [38]) (\<lambda>background.
         Inr (False, [Ran (run_child env buf token_buf n) (\<not> background)])))))"

section \<open>The main loop\<close>

definition process_line :: "shell_env \<Rightarrow> byte list \<Rightarrow> (bool \<times> event list \<times> byte list) res" where
  "process_line env input_buf =
     bindr (check (malloc_tokens env) Null_Deref) (\<lambda>u.
     bindr (tokenise env input_buf 0 (replicate token_buf_base_size Null) 0) (\<lambda>(buf, token_buf).
     bindr (run_tokens env buf token_buf) (\<lambda>(ends, evs).
     case realloc_input env buf (unat buf_base_size) of
       None \<Rightarrow> Inl (Exit (-1))
     | Some b \<Rightarrow> Inr (ends, evs, replicate (unat buf_base_size) 0))))"

text \<open>One turn of the outer loop. \<open>buf_size\<close> keeps its value when the buffer is cut back.\<close>

definition shell_turn ::
  "shell_env \<Rightarrow> byte list \<Rightarrow> byte list \<Rightarrow> uint32 \<Rightarrow>
   (bool \<times> event list \<times> byte list \<times> byte list \<times> uint32) res option" where
  "shell_turn env f input_buf buf_size =
     map_option (\<lambda>r. bindr r (\<lambda>(buf, buf_size1, f').
       bindr (process_line env buf) (\<lambda>(ends, evs, buf'). Inr (ends, evs, f', buf', buf_size1))))
     (read_input env f input_buf buf_size 0)"

text \<open>The commands run, and how the shell ended; \<open>None\<close> is a shell that never ends.\<close>

partial_function (option) shell_loop ::
  "shell_env \<Rightarrow> byte list \<Rightarrow> byte list \<Rightarrow> uint32 \<Rightarrow> event list \<Rightarrow> (event list \<times> unit res) option" where
  "shell_loop env f input_buf buf_size evs =
     (case shell_turn env f input_buf buf_size of
        None \<Rightarrow> None
      | Some (Inl e) \<Rightarrow> Some (evs, Inl e)
      | Some (Inr (ends, evs', f', buf', buf_size1)) \<Rightarrow>
          if ends then Some (evs @ evs', Inr ()) else shell_loop env f' buf' buf_size1 (evs @ evs'))"

definition shell_main :: "shell_env \<Rightarrow> byte list \<Rightarrow> (event list \<times> unit res) option" where
  "shell_main env f = (case malloc_input env of
     None \<Rightarrow> Some ([], Inl Null_Deref)
   | Some b \<Rightarrow> shell_loop env f b buf_base_size [])"

end
