(* ===== verification/ShellTokens.thy ===== *)
theory ShellTokens imports Shell begin

text \<open>
  Lemmas on the shell: what \<open>strtok\<close> and the token loop make of a line, and what a child does
  with the tokens.
\<close>

section \<open>The words of a line\<close>

text \<open>The first word, and what follows the delimiter after it.\<close>

definition line_word :: "byte list \<Rightarrow> byte list" where
  "line_word s = takeWhile (\<lambda>c. \<not> delimiter c) (dropWhile delimiter s)"

definition line_rest :: "byte list \<Rightarrow> byte list" where
  "line_rest s = dropWhile (\<lambda>c. \<not> delimiter c) (dropWhile delimiter s)"

lemma line_split: "s = takeWhile delimiter s @ line_word s @ line_rest s"
  by (simp add: line_word_def line_rest_def)

lemma line_word_Nil: "line_word s = [] \<longleftrightarrow> dropWhile delimiter s = []"
  by (metis line_word_def hd_dropWhile takeWhile.simps(1) takeWhile_eq_Nil_iff)

function line_words :: "byte list \<Rightarrow> byte list list" where
  "line_words s = (if line_word s = [] then [] else line_word s # line_words (tl (line_rest s)))"
  by pat_completeness auto
termination
proof (relation "measure length")
  fix s assume "line_word s \<noteq> []"
  moreover have "length s = length (takeWhile delimiter s) + length (line_word s) + length (line_rest s)"
    by (metis line_split length_append add.assoc)
  ultimately show "(tl (line_rest s), s) \<in> measure length" by (cases "line_word s") auto
qed simp

declare line_words.simps [simp del]

lemma line_words_Nil [simp]: "line_words [] = []"
  by (simp add: line_words.simps line_word_def)

lemma line_words_word:
  assumes "w \<noteq> []" and "\<forall>c \<in> set w. \<not> delimiter c"
  shows "line_words (w @ 32 # s) = w # line_words s" and "line_words w = [w]"
proof -
  have dw: "dropWhile delimiter (w @ x) = w @ x" for x using assms by (cases w) auto
  have "line_word (w @ 32 # s) = w" "line_rest (w @ 32 # s) = 32 # s"
    unfolding line_word_def line_rest_def dw
    using assms(2) by (simp_all add: takeWhile_append2 dropWhile_append2 delimiter_def)
  then show "line_words (w @ 32 # s) = w # line_words s"
    using assms(1) by (subst line_words.simps) simp
  have "dropWhile delimiter w = w" using dw [of "[]"] by simp
  then have "line_word w = w" "line_rest w = []"
    using assms(2) by (simp_all add: line_word_def line_rest_def)
  then show "line_words w = [w]" using assms(1) by (subst line_words.simps) simp
qed

lemma line_words_chars: "w \<in> set (line_words s) \<Longrightarrow> w \<noteq> [] \<and> set w \<subseteq> set s"
proof (induction s rule: line_words.induct)
  case (1 s)
  have sub: "set (line_word s) \<subseteq> set s" "set (line_rest s) \<subseteq> set s"
    by (metis line_split set_append Un_upper1 Un_upper2 le_sup_iff order_refl)+
  have "line_word s \<noteq> []" using 1(2) by (auto simp: line_words.simps [of s])
  with 1(2) consider "w = line_word s" | "w \<in> set (line_words (tl (line_rest s)))"
    by (auto simp: line_words.simps [of s])
  then show ?case
  proof cases
    case 1
    with sub \<open>line_word s \<noteq> []\<close> show ?thesis by simp
  next
    case 2
    have "set (tl (line_rest s)) \<subseteq> set (line_rest s)" by (cases "line_rest s") auto
    with 1(1) [OF \<open>line_word s \<noteq> []\<close> 2] sub(2) show ?thesis by blast
  qed
qed

section \<open>strtok\<close>

lemma skip_delimiters_spec:
  "skip_delimiters (s @ 0 # r) = Inr (length (takeWhile delimiter s))"
  by (induction s) (auto simp: delimiter_def)

lemma skip_token_spec:
  "0 \<notin> set t \<Longrightarrow> skip_token (t @ 0 # r) = Inr (length (takeWhile (\<lambda>c. \<not> delimiter c) t))"
  by (induction t) auto

lemma drop_append_eq: "drop q xs = y @ z \<Longrightarrow> drop (q + length y) xs = z"
  by (metis append_eq_conv_conj drop_drop add.commute)

lemma drop_Cons_nth: "drop q xs = y # ys \<Longrightarrow> q < length xs \<and> xs ! q = y"
  by (metis drop_eq_Nil linorder_not_less list.distinct(1) nth_via_drop)

lemma strtok_none:
  assumes "drop p buf = s @ 0 # r" and "line_word s = []"
  shows "strtok buf p = Inr (None, buf, p + length s)"
proof -
  have all: "takeWhile delimiter s = s"
    using assms(2) takeWhile_dropWhile_id [of delimiter s] by (simp add: line_word_Nil)
  have "skip_delimiters (drop p buf) = Inr (length s)"
    unfolding assms(1) skip_delimiters_spec all ..
  moreover have "buf ! (p + length s) = 0"
    using drop_Cons_nth [OF drop_append_eq [OF assms(1)]] by simp
  ultimately show ?thesis by (simp add: strtok_def)
qed

lemma strtok_some:
  assumes s: "drop p buf = s @ 0 # r" "0 \<notin> set s" and w: "line_word s \<noteq> []"
  shows "\<exists>q buf' p'. strtok buf p = Inr (Some q, buf', p') \<and> p \<le> q \<and> q \<le> p' \<and> length buf' = length buf \<and>
    take p buf' = take p buf \<and> drop p' buf' = tl (line_rest s) @ 0 # r \<and>
    (if line_rest s = [] then drop q buf' = line_word s @ 0 # r
     else take (p' - q) (drop q buf') = line_word s @ [0])"
proof -
  define q where "q = p + length (takeWhile delimiter s)"
  define e where "e = q + length (line_word s)"
  have "drop p buf = takeWhile delimiter s @ line_word s @ line_rest s @ 0 # r"
    using s(1) line_split [of s] by (metis append_assoc)
  then have drop_q: "drop q buf = line_word s @ line_rest s @ 0 # r"
    unfolding q_def by (rule drop_append_eq)
  then have drop_e: "drop e buf = line_rest s @ 0 # r" unfolding e_def by (rule drop_append_eq)
  have no0: "0 \<notin> set (line_word s)" "0 \<notin> set (line_rest s)"
    using s(2) line_split [of s] by (metis Un_iff set_append)+
  have hd0: "buf ! q \<noteq> 0"
    using w no0(1) drop_q drop_Cons_nth [of q buf "hd (line_word s)"] by (cases "line_word s") auto
  have "skip_token (drop q buf) = Inr (length (takeWhile (\<lambda>c. \<not> delimiter c) (line_word s @ line_rest s)))"
    using skip_token_spec [of "line_word s @ line_rest s" r] drop_q no0 by simp
  also have "line_word s @ line_rest s = dropWhile delimiter s" by (simp add: line_word_def line_rest_def)
  finally have tok: "skip_token (drop q buf) = Inr (length (line_word s))" by (simp add: line_word_def)
  have run: "strtok buf p = (if buf ! e = 0 then Inr (Some q, buf, e) else Inr (Some q, buf[e := 0], Suc e))"
    using hd0 tok by (simp add: strtok_def s(1) skip_delimiters_spec q_def e_def)
  have le: "p \<le> q" "q \<le> e" by (simp_all add: q_def e_def)
  show ?thesis
  proof (cases "line_rest s")
    case Nil
    then have "buf ! e = 0" using drop_e drop_Cons_nth by force
    with run drop_e drop_q Nil le show ?thesis
      by (intro exI [of _ q] exI [of _ buf] exI [of _ e]) simp
  next
    case (Cons d u)
    then have d: "e < length buf" "buf ! e \<noteq> 0" using drop_e drop_Cons_nth [of e buf d] no0(2) by auto
    have "drop (Suc e) buf = u @ 0 # r" using drop_append_eq [of e buf "[d]"] drop_e Cons by simp
    then have "drop (Suc e) (buf[e := 0]) = u @ 0 # r" by simp
    moreover have "take (Suc e - q) (drop q (buf[e := 0])) = line_word s @ [0]"
    proof -
      have "drop q (buf[e := 0]) = (drop q buf)[e - q := 0]" using le by (simp add: drop_update_swap)
      also have "\<dots> = line_word s @ 0 # u @ 0 # r" using drop_q Cons by (simp add: e_def)
      finally show ?thesis by (simp add: e_def)
    qed
    moreover have "take p (buf[e := 0]) = take p buf" using le by simp
    ultimately show ?thesis using run d Cons le
      by (intro exI [of _ q] exI [of _ "buf[e := 0]"] exI [of _ "Suc e"]) simp
  qed
qed

text \<open>Without a NUL a call of \<open>strtok\<close> reads past the buffer, or there is still none behind its token.\<close>

lemma strtok_unterminated:
  assumes "0 \<notin> set (drop p buf)"
  shows "strtok buf p = Inl Out_Of_Bounds \<or>
    (\<exists>q buf' p'. strtok buf p = Inr (Some q, buf', p') \<and> 0 \<notin> set (drop p' buf'))"
proof (cases "skip_delimiters (drop p buf)")
  case (Inl e)
  have "e = Out_Of_Bounds" if "skip_delimiters cs = Inl e" for cs
    using that by (induction cs) (auto simp: res_simps split: if_splits)
  with Inl show ?thesis by (simp add: strtok_def)
next
  case (Inr k)
  have "p + k < length buf" using skip_delimiters_less [OF Inr] by auto
  moreover from this have "buf ! (p + k) \<in> set (drop p buf)"
    using skip_delimiters_less [OF Inr] nth_mem [of k "drop p buf"] by auto
  ultimately have nz: "p + k < length buf" "buf ! (p + k) \<noteq> 0" using assms by auto
  show ?thesis
  proof (cases "skip_token (drop (p + k) buf)")
    case (Inl e)
    have "e = Out_Of_Bounds" if "skip_token cs = Inl e" for cs
      using that by (induction cs) (auto simp: res_simps split: if_splits)
    with Inl Inr nz show ?thesis by (simp add: strtok_def)
  next
    case tok: (Inr n)
    have "n < length (drop (p + k) buf)" using skip_token_less [OF tok] by simp
    then have "buf ! (p + k + n) \<in> set (drop p buf)"
      using nth_mem [of "k + n" "drop p buf"] by (simp add: add.assoc)
    then have "buf ! (p + k + n) \<noteq> 0" using assms by auto
    then have "strtok buf p = Inr (Some (p + k), buf[p + k + n := 0], Suc (p + k + n))"
      using Inr tok nz by (simp add: strtok_def)
    moreover have "set (drop (Suc (p + k + n)) buf) \<subseteq> set (drop p buf)"
      by (rule set_drop_subset_set_drop) simp
    then have "0 \<notin> set (drop (Suc (p + k + n)) (buf[p + k + n := 0]))" using assms by auto
    ultimately show ?thesis by blast
  qed
qed

section \<open>The token loop\<close>

text \<open>The slots after the tokens: NULL up to 20, then what \<open>realloc\<close> added.\<close>

definition pad_ok :: "nat \<Rightarrow> slot list \<Rightarrow> bool" where
  "pad_ok n pad \<longleftrightarrow> pad \<noteq> [] \<and> (if n < 20 then pad = replicate (20 - n) Null else set pad = {Unwritten})"

text \<open>
  Memory is not refused, and \<open>realloc\<close> keeps what was there as far as the new size goes; what
  it adds may be anything.
\<close>

definition realloc_good :: "shell_env \<Rightarrow> bool" where
  "realloc_good env \<longleftrightarrow> (\<forall>n. realloc_tokens env n) \<and> malloc_tokens env \<and>
     (\<forall>b n. \<exists>c. realloc_input env b n = Some c \<and> length c = n \<and>
        take (min n (length b)) c = take (min n (length b)) b)"

lemma pad_ok_next:
  "pad_ok n (x # pad) \<Longrightarrow> pad_ok (Suc n) (if pad = [] then replicate 10 Unwritten else pad)"
proof (cases "n < 20")
  case True
  moreover assume "pad_ok n (x # pad)"
  moreover from True obtain k where "20 - n = Suc k" by (metis Suc_diff_Suc)
  ultimately show ?thesis by (auto simp: pad_ok_def)
qed (cases pad; auto simp: pad_ok_def)

text \<open>The strings at offsets of the buffer.\<close>

definition strings_at :: "byte list \<Rightarrow> nat list \<Rightarrow> byte list list \<Rightarrow> bool" where
  "strings_at buf qs ws \<longleftrightarrow> map (\<lambda>q. c_string (drop q buf)) qs = map Inr ws"

lemma string_kept:
  assumes "take p' buf' = take p' b" and "take (p' - q) (drop q b) = w @ [0]" and "q \<le> p'" and "0 \<notin> set w"
  shows "c_string (drop q buf') = Inr w"
proof -
  have "take (p' - q) (drop q buf') = take (p' - q) (drop q b)"
    using assms(1,3) by (metis drop_take)
  then have "drop q buf' = w @ 0 # drop (p' - q) (drop q buf')"
    using assms(2) append_take_drop_id [of "p' - q" "drop q buf'"] by simp
  then show ?thesis using c_string_append [OF assms(4)] by metis
qed

text \<open>A text without NUL: sooner or later the loop reads past the buffer.\<close>

lemma tokenise_unterminated:
  assumes "realloc_good env"
  shows "0 \<notin> set (drop p buf) \<Longrightarrow> token_pos < length token_buf \<Longrightarrow>
    tokenise env buf p token_buf token_pos = Inl Out_Of_Bounds"
proof (induction "Suc (length buf) - p" arbitrary: buf p token_buf token_pos rule: less_induct)
  case less
  from strtok_unterminated [OF less.prems(1)] show ?case
  proof (elim disjE exE conjE)
    fix q b p' assume st: "strtok buf p = Inr (Some q, b, p')" and nz: "0 \<notin> set (drop p' b)"
    have dec: "Suc (length b) - p' < Suc (length buf) - p" using strtok_progress [OF st] by auto
    show ?thesis
      using less.hyps [OF dec nz] less.prems(2) st assms
      by (simp add: tokenise.simps [of env buf p] Let_def realloc_good_def token_buf_base_size_def)
  qed (simp add: tokenise.simps [of env buf p])
qed

lemma tokenise_spec:
  assumes "realloc_good env" and "drop p buf = s @ 0 # r" and "0 \<notin> set s" and "pad_ok (length qs) pad"
  shows "\<exists>buf' qs' pad'. tokenise env buf p (map Token qs @ pad) (length qs) = Inr (buf', map Token (qs @ qs') @ pad') \<and>
    pad_ok (length (qs @ qs')) pad' \<and> length buf' = length buf \<and> take p buf' = take p buf \<and>
    strings_at buf' qs' (line_words s) \<and> (line_word s = [] \<longrightarrow> buf' = buf)"
  using assms(2-4)
proof (induction s arbitrary: buf p qs pad rule: line_words.induct)
  case (1 s)
  show ?case
  proof (cases "line_word s = []")
    case True
    then have "tokenise env buf p (map Token qs @ pad) (length qs) = Inr (buf, map Token qs @ pad)"
      using strtok_none [OF 1(2)] by (simp add: tokenise.simps [of env])
    moreover have "line_words s = []" using True by (simp add: line_words.simps [of s])
    ultimately show ?thesis using 1(4)
      by (intro exI [of _ buf] exI [of _ "[]"] exI [of _ pad]) (simp add: strings_at_def)
  next
    case False
    obtain q b p' where st: "strtok buf p = Inr (Some q, b, p')" "p \<le> q" "q \<le> p'" "length b = length buf"
      "take p b = take p buf" "drop p' b = tl (line_rest s) @ 0 # r"
      "if line_rest s = [] then drop q b = line_word s @ 0 # r else take (p' - q) (drop q b) = line_word s @ [0]"
      using strtok_some [OF 1(2,3) False] by blast
    have no0: "0 \<notin> set (line_word s)" "0 \<notin> set (line_rest s)"
      using 1(3) line_split [of s] by (metis Un_iff set_append)+
    then have no0': "0 \<notin> set (tl (line_rest s))" by (metis list.set_sel(2) tl_Nil)
    obtain x pad' where pad: "pad = x # pad'" using 1(4) by (cases pad) (auto simp: pad_ok_def)
    define pad1 where "pad1 = (if pad' = [] then replicate 10 Unwritten else pad')"
    have pad1: "pad_ok (length (qs @ [q])) pad1"
      using pad_ok_next 1(4) unfolding pad pad1_def by simp
    have "(map Token qs @ pad)[length qs := Token q] = map Token (qs @ [q]) @ pad'"
      using list_update_length [of "map Token qs" x pad' "Token q"] by (simp add: pad)
    then have step: "tokenise env buf p (map Token qs @ pad) (length qs) =
        tokenise env b p' (map Token (qs @ [q]) @ pad1) (length (qs @ [q]))"
      using assms(1) pad st(1)
      by (simp add: tokenise.simps [of env buf p] realloc_good_def pad1_def token_buf_base_size_def Let_def)
    from 1(1) [OF False st(6) no0' pad1] obtain buf' qs' pad2 where IH:
      "tokenise env b p' (map Token (qs @ [q]) @ pad1) (length (qs @ [q])) =
        Inr (buf', map Token ((qs @ [q]) @ qs') @ pad2)"
      "pad_ok (length ((qs @ [q]) @ qs')) pad2" "length buf' = length b" "take p' buf' = take p' b"
      "strings_at buf' qs' (line_words (tl (line_rest s)))" "line_word (tl (line_rest s)) = [] \<longrightarrow> buf' = b"
      by blast
    have "c_string (drop q buf') = Inr (line_word s)"
    proof (cases "line_rest s = []")
      case True
      then have "buf' = b" using IH(6) by (simp add: line_word_def)
      with True st(7) c_string_append [OF no0(1)] show ?thesis by simp
    next
      case False
      with string_kept [OF IH(4) _ st(3) no0(1)] st(7) show ?thesis by simp
    qed
    then have "strings_at buf' (q # qs') (line_words s)"
      using IH(5) False by (simp add: strings_at_def line_words.simps [of s])
    moreover have "take p buf' = take p buf"
    proof -
      have "take p buf' = take p (take p' buf')" using st(2,3) by simp
      also have "\<dots> = take p buf" using IH(4) st(2,3,5) by simp
      finally show ?thesis .
    qed
    ultimately show ?thesis using step IH(1,2,3) st(4) False
      by (intro exI [of _ buf'] exI [of _ "q # qs'"] exI [of _ pad2]) simp
  qed
qed

end
