(* ===== verification/ShellRuns.thy ===== *)
theory ShellRuns imports ShellTokens begin

text \<open>
  What the shell makes of the words of a line: the command that the child runs, one turn of the
  main loop, and the buffer across turns.
\<close>

section \<open>The words in the token array\<close>

definition tokens_are :: "byte list \<Rightarrow> slot list \<Rightarrow> nat list \<Rightarrow> byte list list \<Rightarrow> bool" where
  "tokens_are buf slots qs ws \<longleftrightarrow> strings_at buf qs ws \<and> length ws < 20 \<and>
     slots = map Token qs @ replicate (20 - length ws) Null"

lemma strings_at_length: "strings_at buf qs ws \<Longrightarrow> length qs = length ws"
  unfolding strings_at_def by (metis length_map)

lemma strings_at_nth: "strings_at buf qs ws \<Longrightarrow> i < length ws \<Longrightarrow> c_string (drop (qs ! i) buf) = Inr (ws ! i)"
  using strings_at_length unfolding strings_at_def by (metis nth_map)

lemma strings_at_take_drop: "strings_at buf qs ws \<Longrightarrow> strings_at buf (take n (drop i qs)) (take n (drop i ws))"
  unfolding strings_at_def by (metis drop_map take_map)

lemma count_tokens_Null: "count_tokens (map Token qs @ Null # ss) = Inr (length qs)"
  by (induction qs) auto

lemma count_tokens_Unwritten: "count_tokens (map Token qs @ Unwritten # ss) = Inl Uninit_Read"
  by (induction qs) auto

lemma tokens_are_count: "tokens_are buf slots qs ws \<Longrightarrow> count_tokens slots = Inr (length ws)"
proof -
  assume t: "tokens_are buf slots qs ws"
  then obtain k where "20 - length ws = Suc k" unfolding tokens_are_def by (metis Suc_diff_Suc)
  with t strings_at_length show ?thesis by (auto simp: tokens_are_def count_tokens_Null)
qed

lemma tokens_are_at: "tokens_are buf slots qs ws \<Longrightarrow> i < length ws \<Longrightarrow> token_at slots i = Inr (qs ! i)"
  using strings_at_length by (auto simp: tokens_are_def token_at_def nth_append)

lemma tokens_are_string:
  "tokens_are buf slots qs ws \<Longrightarrow> i < length ws \<Longrightarrow> token_string buf slots i = Inr (ws ! i)"
  using tokens_are_at strings_at_nth by (auto simp: token_string_def tokens_are_def)

lemma tokens_are_is:
  assumes "tokens_are buf slots qs ws" and "i < length ws" and "0 \<notin> set s"
  shows "token_is buf slots i s = Inr (ws ! i = s)"
proof -
  have w: "c_string (drop (qs ! i) buf) = Inr (ws ! i)"
    using assms(1,2) strings_at_nth by (auto simp: tokens_are_def)
  have s: "c_string (s @ [0]) = Inr s" using c_string_append [OF assms(3), of "[]"] by simp
  obtain n where "strcmp (drop (qs ! i) buf) (s @ [0]) = Inr n" using strcmp_le [OF w s] by blast
  then show ?thesis using tokens_are_at [OF assms(1,2)] strcmp_eq [OF w s] by (auto simp: token_is_def)
qed

section \<open>The command of a child\<close>

definition redirect_op :: "byte list \<Rightarrow> bool" where
  "redirect_op w \<longleftrightarrow> w \<in> {[62], [62, 62], [60]}"

definition first_redirect :: "byte list list \<Rightarrow> nat" where
  "first_redirect ws = (let k = length (takeWhile (\<lambda>w. \<not> redirect_op w) ws) in
     if k < length ws then k else 0)"

text \<open>The words before the first redirection, and the command they and the redirection make.\<close>

definition params :: "byte list list \<Rightarrow> byte list list" where
  "params ws = (if first_redirect ws > 0 then take (first_redirect ws) ws else ws)"

definition command_of :: "byte list list \<Rightarrow> command" where
  "command_of ws = (let r = first_redirect ws; fname = (if r + 1 < length ws then ws ! (r + 1) else []) in
     \<lparr>argv = params ws,
      stdout_to = (if r > 0 \<and> ws ! r = [62] then Some (fname, For_Writing)
        else if r > 0 \<and> ws ! r = [62, 62] then Some (fname, For_Appending) else None),
      stdin_from = (if r > 0 \<and> ws ! r = [60] then Some fname else None)\<rparr>)"

definition ampersand :: "byte list" where
  "ampersand = [38]"

text \<open>
  What the child of a line of words comes to: it exits when a redirection has no file name after
  it, as the empty name cannot be opened, and reads a pointer that was never set when one of the
  words before the redirection is \<open>&\<close>.
\<close>

definition lacks_file :: "byte list list \<Rightarrow> bool" where
  "lacks_file ws \<longleftrightarrow> 0 < first_redirect ws \<and> first_redirect ws + 1 = length ws"

definition child_of :: "byte list list \<Rightarrow> command res" where
  "child_of ws = (if lacks_file ws then Inl (Exit (-1))
     else if ampersand \<in> set (params ws) then Inl Uninit_Read else Inr (command_of ws))"

lemma first_redirect_op: "0 < first_redirect ws \<Longrightarrow> redirect_op (ws ! first_redirect ws)"
  using nth_length_takeWhile [of "\<lambda>w. \<not> redirect_op w" ws]
  by (auto simp: first_redirect_def Let_def split: if_splits)

lemma find_redirect_from_spec:
  assumes "tokens_are buf slots qs ws"
  shows "i + n \<le> length ws \<Longrightarrow> find_redirect_from buf slots i n =
    Inr (let k = length (takeWhile (\<lambda>w. \<not> redirect_op w) (take n (drop i ws))) in if k < n then i + k else 0)"
proof (induction n arbitrary: i)
  case (Suc n)
  then have i: "i < length ws" by simp
  have split: "take (Suc n) (drop i ws) = ws ! i # take n (drop (Suc i) ws)"
    using i by (simp add: Cons_nth_drop_Suc [symmetric])
  show ?case
  proof (cases "redirect_op (ws ! i)")
    case True
    then show ?thesis using tokens_are_is [OF assms i] split
      by (auto simp: redirect_op_def)
  next
    case False
    with Suc.IH [of "Suc i"] Suc.prems show ?thesis using tokens_are_is [OF assms i] split
      by (auto simp: redirect_op_def Let_def)
  qed
qed simp

lemma find_redirect_spec:
  "tokens_are buf slots qs ws \<Longrightarrow> find_redirect buf slots (length ws) = Inr (first_redirect ws)"
  using find_redirect_from_spec [of buf slots qs ws 0 "length ws"]
  by (simp add: find_redirect_def first_redirect_def Let_def)

lemma copy_params_spec:
  assumes "tokens_are buf slots qs ws"
  shows "i + n \<le> length ws \<Longrightarrow> copy_params buf slots i n =
    (let k = length (takeWhile (\<lambda>w. w \<noteq> ampersand) (take n (drop i ws))) in
     Inr (map Token (take k (drop i qs)) @ replicate (n - k) Unwritten, k < n))"
proof (induction n arbitrary: i)
  case (Suc n)
  then have i: "i < length ws" "i < length qs"
    using assms strings_at_length by (auto simp: tokens_are_def)
  have split: "take (Suc n) (drop i ws) = ws ! i # take n (drop (Suc i) ws)"
    "drop i qs = qs ! i # drop (Suc i) qs"
    using i by (simp_all add: Cons_nth_drop_Suc [symmetric])
  show ?case
    using Suc.IH [of "Suc i"] Suc.prems tokens_are_is [OF assms i(1), of "[38]"] tokens_are_at [OF assms i(1)] split
    by (auto simp: ampersand_def Let_def)
qed simp

lemma read_params_Null: "strings_at buf qs ws \<Longrightarrow> read_params buf (map Token qs @ [Null]) = Inr ws"
proof (induction qs arbitrary: ws)
  case (Cons q qs)
  then obtain w ws' where "ws = w # ws'" by (cases ws) (auto simp: strings_at_def)
  with Cons show ?case by (simp add: strings_at_def)
qed (simp add: strings_at_def)

lemma read_params_Unwritten:
  "strings_at buf qs ws \<Longrightarrow> read_params buf (map Token qs @ Unwritten # ps) = Inl Uninit_Read"
proof (induction qs arbitrary: ws)
  case (Cons q qs)
  then obtain w ws' where "ws = w # ws'" by (cases ws) (auto simp: strings_at_def)
  with Cons show ?case by (simp add: strings_at_def)
qed (simp add: strings_at_def)

text \<open>The system refuses nothing but to open a file with an empty name.\<close>

definition calls_good :: "shell_env \<Rightarrow> bool" where
  "calls_good env \<longleftrightarrow> (\<forall>b. fork_ok env b) \<and> (\<forall>n m. fopen_ok env n m = (n \<noteq> [])) \<and> (\<forall>c. execvp_ok env c)"

lemma redirect_spec:
  assumes "calls_good env" and "tokens_are buf slots qs ws" and "r < length ws"
    and "0 < r \<longrightarrow> redirect_op (ws ! r)"
  shows "redirect env buf slots r fname background = (if 0 < r \<and> fname = [] then Inl (Exit (-1)) else Inr
    (if r > 0 \<and> ws ! r = [62] then Some (fname, For_Writing)
     else if r > 0 \<and> ws ! r = [62, 62] then Some (fname, For_Appending)
     else if r = 0 \<and> background then Some (dev_null, For_Writing) else None,
     if r > 0 \<and> ws ! r = [60] then Some fname else None))"
  using assms(1,4) tokens_are_is [OF assms(2,3)]
  by (auto simp: redirect_def open_file_def calls_good_def redirect_op_def dev_null_def)

lemma run_child_spec:
  assumes "calls_good env" and "tokens_are buf slots qs ws" and "ws \<noteq> []" and "[] \<notin> set ws"
  shows "run_child env buf slots (length ws) = child_of ws"
proof -
  define r where "r = first_redirect ws"
  define n where "n = (if r > 0 then r else length ws)"
  define k where "k = length (takeWhile (\<lambda>w. w \<noteq> ampersand) (take n ws))"
  define fname where "fname = (if r > 0 \<and> r + 1 < length ws then ws ! (r + 1) else [])"
  have r: "r < length ws" using assms(3) by (auto simp: r_def first_redirect_def Let_def)
  then have n: "n \<le> length ws" by (simp add: n_def)
  have par: "params ws = take n ws" by (simp add: params_def n_def r_def)
  have file_ok: "(if r > 0 \<and> r + 1 < length ws then token_string buf slots (r + 1) else Inr []) = Inr fname"
    using tokens_are_string [OF assms(2)] by (simp add: fname_def)
  have copy: "copy_params buf slots 0 n = Inr (map Token (take k qs) @ replicate (n - k) Unwritten, k < n)"
    using copy_params_spec [OF assms(2), of 0 n] n by (simp add: k_def Let_def)
  have strings: "strings_at buf (take j qs) (take j ws)" for j
    using strings_at_take_drop [of buf qs ws j 0] assms(2) by (simp add: tokens_are_def)
  have "0 < r \<longrightarrow> redirect_op (ws ! r)" unfolding r_def using first_redirect_op by blast
  note red = redirect_spec [OF assms(1,2) r this]
  have lacks: "lacks_file ws \<longleftrightarrow> 0 < r \<and> fname = []"
  proof
    assume a: "0 < r \<and> fname = []"
    have "\<not> r + 1 < length ws"
    proof
      assume "r + 1 < length ws"
      then have "fname \<in> set ws" using a by (simp add: fname_def)
      with a assms(4) show False by simp
    qed
    with a r show "lacks_file ws" by (simp add: lacks_file_def r_def [symmetric])
  qed (auto simp: lacks_file_def r_def [symmetric] fname_def)
  show ?thesis
  proof (cases "lacks_file ws")
    case True
    moreover from this have "n = r" using lacks by (simp add: n_def)
    ultimately show ?thesis
      using find_redirect_spec [OF assms(2)] file_ok copy red lacks
      by (simp add: run_child_def r_def [symmetric] n_def [symmetric] Let_def child_of_def)
  next
    case has_file: False
    show ?thesis
    proof (cases "ampersand \<in> set (params ws)")
      case True
      have "k \<noteq> n"
      proof
        assume "k = n"
        then have "takeWhile (\<lambda>w. w \<noteq> ampersand) (take n ws) = take n ws"
          using takeWhile_eq_take [of "\<lambda>w. w \<noteq> ampersand" "take n ws"] by (simp add: k_def)
        with True show False unfolding par by (metis (mono_tags, lifting) set_takeWhileD)
      qed
      moreover have "k \<le> n" using length_takeWhile_le [of _ "take n ws"] n unfolding k_def by (metis length_take min.absorb2)
      ultimately have "k < n" by simp
      then obtain j where "n - k = Suc j" by (metis Suc_diff_Suc)
      with read_params_Unwritten [OF strings, of k] have
        "read_params buf ((map Token (take k qs) @ replicate (n - k) Unwritten) @ [Null]) = Inl Uninit_Read"
        by simp
      with True show ?thesis
        using find_redirect_spec [OF assms(2)] file_ok copy red lacks has_file
        by (simp add: run_child_def r_def [symmetric] n_def [symmetric] Let_def child_of_def)
    next
      case False
      then have "takeWhile (\<lambda>w. w \<noteq> ampersand) (take n ws) = take n ws"
        unfolding par by (intro takeWhile_eq_all_conv [THEN iffD2]) auto
      then have "k = length (take n ws)" unfolding k_def by (rule arg_cong)
      then have k: "k = n" using n by simp
      have cmd: "command_of ws = \<lparr>argv = take n ws,
          stdout_to = (if r > 0 \<and> ws ! r = [62] then Some (fname, For_Writing)
            else if r > 0 \<and> ws ! r = [62, 62] then Some (fname, For_Appending) else None),
          stdin_from = (if r > 0 \<and> ws ! r = [60] then Some fname else None)\<rparr>"
        by (simp add: command_of_def Let_def r_def [symmetric] par fname_def)
      show ?thesis
        using False find_redirect_spec [OF assms(2)] file_ok copy red lacks has_file
          read_params_Null [OF strings, of n] assms(1)
        by (simp add: run_child_def r_def [symmetric] n_def [symmetric] Let_def k cmd calls_good_def child_of_def)
    qed
  qed
qed

section \<open>Reading a line\<close>

lemma uint32_less: "unat (w :: uint32) < 2 ^ 32"
  using unsigned_less [of w] by simp

lemma unat_add_of_nat: "unat pos + n < 2 ^ 32 \<Longrightarrow> unat (pos + of_nat n :: uint32) = unat pos + n"
proof -
  assume n: "unat pos + n < 2 ^ 32"
  then have u: "unat (of_nat n :: uint32) = n" by (simp add: unat_of_nat take_bit_eq_mod)
  with n have "unat pos + unat (of_nat n :: uint32) < 2 ^ LENGTH(32)" by simp
  then show ?thesis using u by (simp add: unat_plus_simple [THEN iffD1] no_olen_add_nat)
qed

lemma read_input_prefix:
  assumes "10 \<notin> set l" and "unat pos + length l \<le> unat buf_size" and "unat pos + length l \<le> length b"
  shows "read_input env (l @ f) b buf_size pos =
    read_input env f (take (unat pos) b @ l @ drop (unat pos + length l) b) buf_size (pos + of_nat (length l))"
  using assms
proof (induction l arbitrary: b pos)
  case (Cons c l)
  have lt: "unat pos < unat buf_size" "unat pos < length b" using Cons.prems by simp_all
  have "unat buf_size < 2 ^ 32" by (rule uint32_less)
  then have next_pos: "unat (pos + 1) = unat pos + 1" using lt unat_add_of_nat [of pos 1] by simp
  have "pos \<noteq> buf_size" using lt by auto
  then have "read_input env ((c # l) @ f) b buf_size pos = read_input env (l @ f) (b[unat pos := c]) buf_size (pos + 1)"
    using lt Cons.prems(1) by (subst read_input.simps) simp
  also have "\<dots> = read_input env f (take (unat (pos + 1)) (b[unat pos := c]) @ l @
      drop (unat (pos + 1) + length l) (b[unat pos := c])) buf_size (pos + 1 + of_nat (length l))"
    by (rule Cons.IH) (use Cons.prems next_pos in simp_all)
  also have "take (unat (pos + 1)) (b[unat pos := c]) = take (unat pos) b @ [c]"
    using lt next_pos by (simp add: take_Suc_conv_app_nth)
  also have "drop (unat (pos + 1) + length l) (b[unat pos := c]) = drop (unat pos + length (c # l)) b"
    using next_pos by simp
  finally show ?case by (simp add: ac_simps)
qed simp

lemma read_input_line:
  assumes "10 \<notin> set l" and "unat pos + length l < unat buf_size" and "unat pos + length l < length b"
  shows "read_input env (l @ 10 # f) b buf_size pos =
    Some (Inr (take (unat pos) b @ l @ 10 # drop (Suc (unat pos + length l)) b, buf_size, f))"
proof -
  have "unat buf_size < 2 ^ 32" by (rule uint32_less)
  then have u: "unat (pos + of_nat (length l)) = unat pos + length l"
    using assms(2) unat_add_of_nat by simp
  then have "pos + of_nat (length l) \<noteq> buf_size" using assms(2) by auto
  moreover have "(take (unat pos) b @ l @ drop (unat pos + length l) b)[unat pos + length l := 10] =
      take (unat pos) b @ l @ 10 # drop (Suc (unat pos + length l)) b"
    using assms(3) by (simp add: list_update_append min_def Cons_nth_drop_Suc [symmetric])
  ultimately have "read_input env (10 # f) (take (unat pos) b @ l @ drop (unat pos + length l) b) buf_size
      (pos + of_nat (length l)) =
    Some (Inr (take (unat pos) b @ l @ 10 # drop (Suc (unat pos + length l)) b, buf_size, f))"
    using u assms(3) by (subst read_input.simps) (simp add: min_def)
  then show ?thesis using read_input_prefix [of l pos buf_size b env "10 # f"] assms by simp
qed

section \<open>A line\<close>

lemma line_words_append: "line_words (s @ 10 # t) = line_words s @ line_words t"
proof (induction s rule: line_words.induct)
  case (1 s)
  show ?case
  proof (cases "line_word s = []")
    case True
    then have "dropWhile delimiter (s @ 10 # t) = dropWhile delimiter t"
      by (simp add: line_word_Nil dropWhile_append delimiter_def)
    then have "line_word (s @ 10 # t) = line_word t" "line_rest (s @ 10 # t) = line_rest t"
      by (simp_all add: line_word_def line_rest_def)
    with True show ?thesis
      by (simp add: line_words.simps [of "s @ 10 # t"] line_words.simps [of t] line_words.simps [of s])
  next
    case False
    then obtain x where "x \<in> set s" "\<not> delimiter x"
      unfolding line_word_Nil dropWhile_eq_Nil_conv by blast
    then have d: "dropWhile delimiter (s @ 10 # t) = dropWhile delimiter s @ 10 # t"
      by (rule dropWhile_append1)
    have w: "line_word (s @ 10 # t) = line_word s"
      unfolding line_word_def d by (simp add: takeWhile_tail delimiter_def)
    have r: "line_rest (s @ 10 # t) = line_rest s @ 10 # t"
      unfolding line_rest_def d by (simp add: dropWhile_append3 delimiter_def)
    have "line_words (tl (line_rest s @ 10 # t)) = line_words (tl (line_rest s)) @ line_words t"
      using 1 [OF False] by (cases "line_rest s") simp_all
    with False w r show ?thesis by (simp add: line_words.simps [of "s @ 10 # t"] line_words.simps [of s])
  qed
qed

text \<open>What a line of words makes the shell do: whether it ends, and what it runs.\<close>

definition exit_word :: "byte list" where
  "exit_word = [101, 120, 105, 116]"

definition line_ends :: "byte list list \<Rightarrow> bool" where
  "line_ends ws \<longleftrightarrow> ws \<noteq> [] \<and> hd ws = exit_word"

definition line_events :: "byte list list \<Rightarrow> event list" where
  "line_events ws = (if ws = [] \<or> line_ends ws then []
     else [Ran (child_of ws) (last ws \<noteq> ampersand)])"

lemma run_tokens_spec:
  assumes "calls_good env" and "tokens_are buf slots qs ws" and "[] \<notin> set ws"
  shows "run_tokens env buf slots = Inr (line_ends ws, line_events ws)"
proof (cases "ws = []")
  case True
  then show ?thesis using tokens_are_count [OF assms(2)]
    by (simp add: run_tokens_def line_ends_def line_events_def)
next
  case False
  have "token_is buf slots 0 [101, 120, 105, 116] = Inr (hd ws = exit_word)"
    using tokens_are_is [OF assms(2), of 0] False by (simp add: exit_word_def hd_conv_nth)
  moreover have "token_is buf slots (length ws - 1) [38] = Inr (last ws = ampersand)"
    using tokens_are_is [OF assms(2), of "length ws - 1"] False by (simp add: ampersand_def last_conv_nth)
  ultimately show ?thesis
    using False tokens_are_count [OF assms(2)] run_child_spec [OF assms(1,2) False assms(3)] assms(1)
    by (simp add: run_tokens_def line_ends_def line_events_def calls_good_def)
qed

section \<open>One turn\<close>

text \<open>The words the shell finds in a text that ends with a NUL; without one it reads past the buffer.\<close>

lemma tokenise_text:
  assumes "realloc_good env" and "0 \<notin> set s"
  shows "\<exists>buf' qs pad. tokenise env (s @ 0 # r) 0 (replicate 20 Null) 0 = Inr (buf', map Token qs @ pad) \<and>
    pad_ok (length qs) pad \<and> strings_at buf' qs (line_words s)"
proof -
  have "pad_ok (length ([] :: nat list)) (replicate 20 Null)" by (simp add: pad_ok_def)
  then show ?thesis
    using tokenise_spec [OF assms(1), of 0 "s @ 0 # r" s r "[]" "replicate 20 Null"] assms(2) by auto
qed

lemma process_line_spec:
  assumes "realloc_good env" and "calls_good env" and "0 \<notin> set s" and "length (line_words s) < 20"
  shows "process_line env (s @ 0 # r) = Inr (line_ends (line_words s), line_events (line_words s), replicate 80 0)"
proof -
  obtain buf' qs pad where t: "tokenise env (s @ 0 # r) 0 (replicate 20 Null) 0 = Inr (buf', map Token qs @ pad)"
    "pad_ok (length qs) pad" "strings_at buf' qs (line_words s)"
    using tokenise_text [OF assms(1,3)] by blast
  then have "tokens_are buf' (map Token qs @ pad) qs (line_words s)"
    using strings_at_length [OF t(3)] assms(4) by (simp add: tokens_are_def pad_ok_def)
  moreover have "[] \<notin> set (line_words s)" using line_words_chars by blast
  ultimately have run: "run_tokens env buf' (map Token qs @ pad) = Inr (line_ends (line_words s), line_events (line_words s))"
    by (rule run_tokens_spec [OF assms(2)])
  obtain c where "realloc_input env buf' 80 = Some c" using assms(1) unfolding realloc_good_def by blast
  with run t(1) assms(1) show ?thesis
    by (simp add: process_line_def token_buf_base_size_def realloc_good_def buf_base_size_def)
qed

lemma process_line_many:
  assumes "realloc_good env" and "0 \<notin> set s" and "20 \<le> length (line_words s)"
  shows "process_line env (s @ 0 # r) = Inl Uninit_Read"
proof -
  obtain buf' qs pad where t: "tokenise env (s @ 0 # r) 0 (replicate 20 Null) 0 = Inr (buf', map Token qs @ pad)"
    "pad_ok (length qs) pad" "strings_at buf' qs (line_words s)"
    using tokenise_text [OF assms(1,2)] by blast
  then obtain ss where "pad = Unwritten # ss"
    using strings_at_length [OF t(3)] assms(3) by (cases pad) (auto simp: pad_ok_def)
  with t(1) assms(1) show ?thesis
    by (simp add: process_line_def token_buf_base_size_def realloc_good_def run_tokens_def count_tokens_Unwritten)
qed

lemma process_line_unterminated:
  assumes "realloc_good env" and "0 \<notin> set buf"
  shows "process_line env buf = Inl Out_Of_Bounds"
  using tokenise_unterminated [of env 0 buf 0 "replicate 20 Null"] assms
  by (simp add: process_line_def token_buf_base_size_def realloc_good_def)

text \<open>
  A line \<open>l\<close> read into a buffer that holds \<open>b\<close>: no NUL is stored behind its newline, so the text
  goes on with what the buffer held there, up to the first NUL.
\<close>

definition leftover :: "byte list \<Rightarrow> byte list \<Rightarrow> byte list" where
  "leftover l b = takeWhile (\<lambda>c. c \<noteq> 0) (drop (Suc (length l)) b)"

definition nul_behind :: "byte list \<Rightarrow> byte list \<Rightarrow> bool" where
  "nul_behind l b \<longleftrightarrow> 0 \<in> set (drop (Suc (length l)) b)"

definition words_read :: "byte list \<Rightarrow> byte list \<Rightarrow> byte list list" where
  "words_read l b = line_words l @ line_words (leftover l b)"

definition turn_result :: "byte list \<Rightarrow> byte list \<Rightarrow> (bool \<times> event list \<times> byte list) res" where
  "turn_result l b = (if \<not> nul_behind l b then Inl Out_Of_Bounds
     else if 20 \<le> length (words_read l b) then Inl Uninit_Read
     else Inr (line_ends (words_read l b), line_events (words_read l b), replicate 80 0))"

lemma process_line_cases:
  assumes "realloc_good env" and "calls_good env" and "0 \<notin> set l"
  shows "process_line env (l @ 10 # drop (Suc (length l)) b) = turn_result l b"
proof (cases "nul_behind l b")
  case True
  define s where "s = l @ 10 # leftover l b"
  have "0 \<notin> set (leftover l b)" unfolding leftover_def using set_takeWhileD by fastforce
  with assms(3) have s: "0 \<notin> set s" by (simp add: s_def)
  have words: "line_words s = words_read l b" by (simp add: s_def line_words_append words_read_def)
  have "dropWhile (\<lambda>c. c \<noteq> 0) (drop (Suc (length l)) b) \<noteq> []"
    using True unfolding nul_behind_def dropWhile_eq_Nil_conv by auto
  then obtain r where r: "dropWhile (\<lambda>c. c \<noteq> 0) (drop (Suc (length l)) b) = 0 # r"
    using hd_dropWhile [of "\<lambda>c. c \<noteq> 0" "drop (Suc (length l)) b"]
    by (cases "dropWhile (\<lambda>c. c \<noteq> 0) (drop (Suc (length l)) b)") auto
  have "l @ 10 # drop (Suc (length l)) b = s @ 0 # r"
    using takeWhile_dropWhile_id [of "\<lambda>c. c \<noteq> 0" "drop (Suc (length l)) b"]
    by (simp add: s_def leftover_def r)
  with process_line_spec [OF assms(1,2) s, of r] process_line_many [OF assms(1) s, of r] True
  show ?thesis by (simp add: turn_result_def words)
next
  case False
  then have "0 \<notin> set (l @ 10 # drop (Suc (length l)) b)" using assms(3) by (simp add: nul_behind_def)
  from process_line_unterminated [OF assms(1) this] False show ?thesis by (simp add: turn_result_def)
qed

definition line_fits :: "byte list \<Rightarrow> bool" where
  "line_fits l \<longleftrightarrow> length l \<le> 78 \<and> 10 \<notin> set l \<and> 0 \<notin> set l"

text \<open>A turn with any buffer of 80 bytes, and with one that was cleared by the turn before.\<close>

lemma shell_turn_any:
  assumes "realloc_good env" and "calls_good env" and "length b = 80"
    and "length l \<le> 79" and "10 \<notin> set l" and "0 \<notin> set l"
  shows "shell_turn env (l @ 10 # f) b 80 =
    Some (bindr (turn_result l b) (\<lambda>(ends, evs, buf'). Inr (ends, evs, f, buf', 80)))"
proof -
  have "read_input env (l @ 10 # f) b 80 0 = Some (Inr (l @ 10 # drop (Suc (length l)) b, 80, f))"
    using read_input_line [of l 0 80 b env f] assms(3-5) by simp
  with process_line_cases [OF assms(1,2,6), of b] show ?thesis by (simp add: shell_turn_def)
qed

lemma cleared_behind:
  assumes "length l \<le> 78"
  shows "nul_behind l (replicate 80 0)" and "words_read l (replicate 80 0) = line_words l"
proof -
  have "79 - length l = Suc (78 - length l)" using assms by arith
  then have d: "drop (Suc (length l)) (replicate 80 0) = 0 # replicate (78 - length l) (0 :: byte)" by simp
  show "nul_behind l (replicate 80 0)" unfolding nul_behind_def d by simp
  show "words_read l (replicate 80 0) = line_words l" unfolding words_read_def leftover_def d by simp
qed

lemma shell_turn_line:
  assumes "realloc_good env" and "calls_good env" and "line_fits l" and "length (line_words l) < 20"
  shows "shell_turn env (l @ 10 # f) (replicate 80 0) 80 =
    Some (Inr (line_ends (line_words l), line_events (line_words l), f, replicate 80 0, 80))"
  using shell_turn_any [OF assms(1,2), of "replicate 80 0" l f] assms(3,4) cleared_behind [of l]
  by (simp add: line_fits_def turn_result_def)

end
