(* ===== verification/ShellProps.thy ===== *)
theory ShellProps imports ShellRuns begin

text \<open>
  The properties of the shell, for lines of text: a session of lines that fit, words typed and
  words passed on, and what happens with too many words, with long lines and at the end of
  the input. What \<open>malloc\<close> and \<open>realloc\<close> leave in fresh memory is arbitrary: it is read behind
  the first line and behind a line that makes the buffer grow.
\<close>

section \<open>Examples\<close>

definition typed :: "string \<Rightarrow> byte list" where
  "typed s = map (of_nat \<circ> of_char) s"

text \<open>Fresh memory that holds text of before.\<close>

definition ex_memory :: "byte list" where
  "ex_memory = typed ''garbage garbage'' @ replicate 65 0"

definition ex_shell_env :: "byte list \<Rightarrow> shell_env" where
  "ex_shell_env b = \<lparr>malloc_input = Some b, malloc_tokens = True,
     realloc_input = (\<lambda>b n. Some (take n b @ replicate (n - length b) 0)), realloc_tokens = (\<lambda>n. True),
     fork_ok = (\<lambda>b. True), fopen_ok = (\<lambda>n m. n \<noteq> []), execvp_ok = (\<lambda>c. True)\<rparr>"

text \<open>
  The environments in which nothing is refused but opening the empty file name; \<open>b\<close> is what
  \<open>malloc\<close> left in the buffer.
\<close>

definition shell_env_good :: "shell_env \<Rightarrow> byte list \<Rightarrow> bool" where
  "shell_env_good env b \<longleftrightarrow> realloc_good env \<and> calls_good env \<and> malloc_input env = Some b \<and> length b = 80"

lemma ex_shell_env_good: "length b = 80 \<Longrightarrow> shell_env_good (ex_shell_env b) b"
  by (simp add: shell_env_good_def ex_shell_env_def realloc_good_def calls_good_def min_def)

lemma ex_memory_length: "length ex_memory = 80"
  by (simp add: ex_memory_def typed_def)

section \<open>Sessions\<close>

definition session_line :: "byte list \<Rightarrow> bool" where
  "session_line l \<longleftrightarrow> line_fits l \<and> length (line_words l) < 20 \<and> \<not> line_ends (line_words l)"

text \<open>A first line, typed over what the buffer holds.\<close>

definition first_line :: "byte list \<Rightarrow> byte list \<Rightarrow> bool" where
  "first_line b l \<longleftrightarrow> line_fits l \<and> nul_behind l b \<and> length (words_read l b) < 20 \<and> \<not> line_ends (words_read l b)"

definition input_lines :: "byte list list \<Rightarrow> byte list" where
  "input_lines ls = concat (map (\<lambda>l. l @ [10]) ls)"

lemma shell_loop_lines:
  assumes "shell_env_good env b" and "\<forall>l \<in> set ls. session_line l"
  shows "shell_loop env (input_lines ls @ f) (replicate 80 0) 80 evs =
    shell_loop env f (replicate 80 0) 80 (evs @ concat (map (line_events \<circ> line_words) ls))"
  using assms(2)
proof (induction ls arbitrary: evs)
  case (Cons l ls)
  have "shell_turn env (l @ 10 # input_lines ls @ f) (replicate 80 0) 80 =
    Some (Inr (False, line_events (line_words l), input_lines ls @ f, replicate 80 0, 80))"
    using shell_turn_line [of env l "input_lines ls @ f"] assms(1) Cons.prems
    by (simp add: shell_env_good_def session_line_def)
  then have "shell_loop env (input_lines (l # ls) @ f) (replicate 80 0) 80 evs =
    shell_loop env (input_lines ls @ f) (replicate 80 0) 80 (evs @ line_events (line_words l))"
    by (subst shell_loop.simps) (simp add: input_lines_def)
  with Cons show ?case by simp
qed (simp add: input_lines_def)

text \<open>The first turn.\<close>

lemma shell_main_first:
  assumes "shell_env_good env b" and "length l \<le> 79" and "10 \<notin> set l" and "0 \<notin> set l"
  shows "shell_main env (l @ 10 # f) = (case turn_result l b of Inl e \<Rightarrow> Some ([], Inl e)
    | Inr (ends, evs, buf') \<Rightarrow> if ends then Some (evs, Inr ()) else shell_loop env f buf' 80 evs)"
proof -
  have "shell_turn env (l @ 10 # f) b 80 =
      Some (bindr (turn_result l b) (\<lambda>(ends, evs, buf'). Inr (ends, evs, f, buf', 80)))"
    using shell_turn_any [of env b l f] assms by (simp add: shell_env_good_def)
  then have "shell_loop env (l @ 10 # f) b 80 [] = (case turn_result l b of Inl e \<Rightarrow> Some ([], Inl e)
    | Inr (ends, evs, buf') \<Rightarrow> if ends then Some (evs, Inr ()) else shell_loop env f buf' 80 evs)"
    by (subst shell_loop.simps) (auto split: sum.splits)
  then show ?thesis using assms(1) by (simp add: shell_main_def shell_env_good_def buf_base_size_def)
qed

lemma shell_main_lines:
  assumes "shell_env_good env b" and "first_line b l" and "\<forall>l \<in> set ls. session_line l"
  shows "shell_main env (l @ 10 # input_lines ls @ f) =
    shell_loop env f (replicate 80 0) 80 (line_events (words_read l b) @ concat (map (line_events \<circ> line_words) ls))"
  using shell_main_first [OF assms(1), of l "input_lines ls @ f"] assms(2) shell_loop_lines [OF assms(1,3)]
  by (simp add: first_line_def line_fits_def turn_result_def)

lemma shell_main_unterminated:
  assumes "shell_env_good env b" and "length l \<le> 79" and "10 \<notin> set l" and "0 \<notin> set l" and "\<not> nul_behind l b"
  shows "shell_main env (l @ 10 # f) = Some ([], Inl Out_Of_Bounds)"
  using shell_main_first [OF assms(1-4), of f] assms(5) by (simp add: turn_result_def)

lemma shell_loop_exit:
  assumes "shell_env_good env b" and "line_fits e" and "length (line_words e) < 20" and "line_ends (line_words e)"
  shows "shell_loop env (e @ 10 # f) (replicate 80 0) 80 evs = Some (evs, Inr ())"
  using shell_turn_line [of env e f] assms
  by (subst shell_loop.simps) (simp add: shell_env_good_def line_events_def)

text \<open>
  C28. A session, whatever \<open>malloc\<close> left in the buffer: no NUL is stored behind a line, so the words
  of the first line are those typed and then those that the buffer holds behind them, up to
  its first NUL; without one there the shell reads past the buffer and has run nothing.
  Otherwise, given lines of at most 78 characters without NUL and fewer than 20 words each (those
  from the buffer included), of which only the last starts with the word \<open>exit\<close>, the shell runs for
  each of the others that is not empty exactly one command and ends without an error, leaving
  the rest of the input unread; from the second line on the words are those typed, as the
  buffer is cleared after each line. The command gets the words before the first redirection
  operator as arguments, and the file after it as its output or input; the shell waits for it
  unless the last word is \<open>&\<close>. A redirection without a file name makes the child exit, and if
  one of the arguments is \<open>&\<close> the child passes on a pointer that it never set. (Memory is not
  refused, and of the system calls only opening the empty file name fails.)
\<close>

theorem shell_session:
  assumes "shell_env_good env b" and "line_fits l"
    and "nul_behind l b \<longrightarrow> length (words_read l b) < 20 \<and> \<not> line_ends (words_read l b)"
    and "\<forall>l \<in> set ls. session_line l"
    and "line_fits e" and "length (line_words e) < 20" and "line_ends (line_words e)"
  shows "shell_main env (input_lines (l # ls) @ e @ 10 # f) =
    Some (if nul_behind l b
      then (concat (map (\<lambda>ws. if ws = [] then []
          else [Ran (if lacks_file ws then Inl (Exit (-1))
            else if ampersand \<in> set (params ws) then Inl Uninit_Read else Inr (command_of ws)) (last ws \<noteq> ampersand)])
        (words_read l b # map line_words ls)), Inr ())
      else ([], Inl Out_Of_Bounds))"
proof (cases "nul_behind l b")
  case True
  then have first: "first_line b l" using assms(2,3) by (simp add: first_line_def)
  have events: "line_events ws = (if ws = [] then [] else [Ran (child_of ws) (last ws \<noteq> ampersand)])"
    if "\<not> line_ends ws" for ws using that by (simp add: line_events_def)
  have "map (line_events \<circ> line_words) ls = map (\<lambda>ws. if ws = [] then []
      else [Ran (child_of ws) (last ws \<noteq> ampersand)]) (map line_words ls)"
    using assms(4) events by (simp add: session_line_def)
  then have "concat (map (line_events \<circ> line_words) ls) = concat (map (\<lambda>ws. if ws = [] then []
      else [Ran (child_of ws) (last ws \<noteq> ampersand)]) (map line_words ls))" by (rule arg_cong)
  moreover have "line_events (words_read l b) = (if words_read l b = [] then []
      else [Ran (child_of (words_read l b)) (last (words_read l b) \<noteq> ampersand)])"
    using first events by (simp add: first_line_def)
  moreover have "input_lines (l # ls) @ e @ 10 # f = l @ 10 # input_lines ls @ e @ 10 # f"
    by (simp add: input_lines_def)
  ultimately show ?thesis
    unfolding child_of_def [symmetric]
    using shell_main_lines [OF assms(1) first assms(4), of "e @ 10 # f"] shell_loop_exit [OF assms(1,5-7)] True
    by simp
next
  case False
  with shell_main_unterminated [OF assms(1), of l "input_lines ls @ e @ 10 # f"] assms(2)
  show ?thesis by (simp add: input_lines_def line_fits_def)
qed

lemmas word_simps = line_words.simps line_word_def line_rest_def delimiter_def

theorem shell_session_witness:
  "shell_main (ex_shell_env ex_memory)
      (input_lines [typed ''ls -l'', typed ''ls  -l > f'', typed ''cat <'', typed ''cat &''] @ typed ''exit'' @ 10 # []) =
    Some ([Ran (Inr \<lparr>argv = [typed ''ls'', typed ''-l'', typed ''e'', typed ''garbage''], stdout_to = None,
        stdin_from = None\<rparr>) True,
      Ran (Inr \<lparr>argv = [typed ''ls'', typed ''-l''], stdout_to = Some (typed ''f'', For_Writing),
        stdin_from = None\<rparr>) True, Ran (Inl (Exit (-1))) True, Ran (Inl Uninit_Read) False], Inr ())"
proof -
  have w: "line_words (typed ''ls  -l > f'') = [typed ''ls'', typed ''-l'', [62], typed ''f'']"
    "line_words (typed ''cat <'') = [typed ''cat'', [60]]"
    "line_words (typed ''cat &'') = [typed ''cat'', ampersand]" "line_words (typed ''exit'') = [exit_word]"
    by (simp_all add: typed_def word_simps ampersand_def exit_word_def)
  have first: "words_read (typed ''ls -l'') ex_memory = [typed ''ls'', typed ''-l'', typed ''e'', typed ''garbage'']"
    "nul_behind (typed ''ls -l'') ex_memory"
    by (simp_all add: words_read_def leftover_def nul_behind_def ex_memory_def typed_def word_simps)
  have behind: "nul_behind [108, 115, 32, 45, 108] ex_memory"
    by (simp add: nul_behind_def ex_memory_def typed_def)
  have fits: "line_fits (typed ''ls -l'')" "line_fits (typed ''ls  -l > f'')" "line_fits (typed ''cat <'')"
    "line_fits (typed ''cat &'')" "line_fits (typed ''exit'')"
    by (simp_all add: typed_def line_fits_def)
  have ne: "typed ''ls'' \<noteq> exit_word" "typed ''cat'' \<noteq> exit_word" by (simp_all add: typed_def exit_word_def)
  then have "\<forall>l \<in> set [typed ''ls  -l > f'', typed ''cat <'', typed ''cat &'']. session_line l"
    using fits by (simp add: session_line_def w line_ends_def)
  note session = shell_session [OF ex_shell_env_good [OF ex_memory_length] fits(1) _ this fits(5), of "[]",
    unfolded list.map w first]
  show ?thesis
    by (rule session [THEN trans])
      (simp_all add: ne line_ends_def params_def command_of_def first_redirect_def redirect_op_def ampersand_def
        typed_def lacks_file_def behind exit_word_def)
qed

section \<open>Words\<close>

definition typed_words :: "byte list list \<Rightarrow> byte list" where
  "typed_words ws = concat (map (\<lambda>w. w @ [32]) ws)"

definition plain_word :: "byte list \<Rightarrow> bool" where
  "plain_word w \<longleftrightarrow> w \<noteq> [] \<and> (\<forall>c \<in> set w. \<not> delimiter c \<and> c \<noteq> 0) \<and> \<not> redirect_op w \<and> w \<noteq> ampersand"

lemma line_words_typed: "\<forall>w \<in> set ws. plain_word w \<Longrightarrow> line_words (typed_words ws) = ws"
proof (induction ws)
  case (Cons w ws)
  then have "w \<noteq> []" "\<forall>c \<in> set w. \<not> delimiter c" by (simp_all add: plain_word_def)
  with Cons show ?case by (simp add: typed_words_def line_words_word)
qed (simp add: typed_words_def)

lemma typed_words_fit: "\<forall>w \<in> set ws. plain_word w \<Longrightarrow> length (typed_words ws) \<le> 78 \<Longrightarrow> line_fits (typed_words ws)"
  by (auto simp: typed_words_def plain_word_def delimiter_def line_fits_def)

lemma line_events_plain:
  assumes "\<forall>w \<in> set ws. plain_word w" and "ws \<noteq> []" and "hd ws \<noteq> exit_word"
  shows "line_events ws = [Ran (Inr \<lparr>argv = ws, stdout_to = None, stdin_from = None\<rparr>) True]"
proof -
  have tw: "takeWhile (\<lambda>w. \<not> redirect_op w) ws = ws"
    using assms(1) by (simp add: takeWhile_eq_all_conv plain_word_def)
  have r: "first_redirect ws = 0" unfolding first_redirect_def tw by simp
  have amp: "ampersand \<notin> set ws" using assms(1) by (auto simp: plain_word_def)
  then have "last ws \<noteq> ampersand" using last_in_set [OF assms(2)] by metis
  with amp show ?thesis using assms(2,3)
    by (auto simp: line_events_def line_ends_def params_def command_of_def child_of_def lacks_file_def r Let_def)
qed

lemma exit_line: "line_words exit_word = [exit_word]" "line_fits exit_word"
  by (simp_all add: exit_word_def word_simps line_fits_def)

text \<open>
  C29. Round trip: words typed with spaces between them are the words the program gets. For at most
  78 characters and fewer than 20 words that are no operators, the first of them not \<open>exit\<close>, a
  line of them, typed after any first line that ran, runs a command whose arguments are exactly
  these words, with no redirection, and the shell waits for it. Typed as the first line, the
  arguments are these words and behind them the words that the fresh buffer holds after the
  line, so exactly these words if there are none (for fewer than 20 words together, those of
  the buffer no operators either, and a NUL in the buffer behind the line).
\<close>

theorem shell_roundtrip:
  assumes "shell_env_good env b" and "\<forall>w \<in> set ws. plain_word w" and "ws \<noteq> []" and "hd ws \<noteq> exit_word"
    and "length ws < 20" and "length (typed_words ws) \<le> 78"
  shows "(first_line b l \<longrightarrow> shell_main env (l @ 10 # typed_words ws @ 10 # exit_word @ 10 # f) =
      Some (line_events (words_read l b) @ [Ran (Inr \<lparr>argv = ws, stdout_to = None, stdin_from = None\<rparr>) True], Inr ())) \<and>
    (gs = line_words (leftover (typed_words ws) b) \<and> nul_behind (typed_words ws) b \<and>
        length (ws @ gs) < 20 \<and> (\<forall>w \<in> set gs. plain_word w) \<longrightarrow>
      shell_main env (typed_words ws @ 10 # exit_word @ 10 # f) =
      Some ([Ran (Inr \<lparr>argv = ws @ gs, stdout_to = None, stdin_from = None\<rparr>) True], Inr ()))"
proof (intro conjI impI)
  have w: "line_words (typed_words ws) = ws" using line_words_typed [OF assms(2)] .
  have fits: "line_fits (typed_words ws)" by (rule typed_words_fit [OF assms(2,6)])
  note ends = shell_loop_exit [OF assms(1) exit_line(2), of f]
  {
    assume first: "first_line b l"
    have "session_line (typed_words ws)" using assms(3-5) fits by (simp add: session_line_def w line_ends_def)
    with shell_main_lines [OF assms(1) first, of "[typed_words ws]" "exit_word @ 10 # f"] ends
    show "shell_main env (l @ 10 # typed_words ws @ 10 # exit_word @ 10 # f) =
      Some (line_events (words_read l b) @ [Ran (Inr \<lparr>argv = ws, stdout_to = None, stdin_from = None\<rparr>) True], Inr ())"
      by (simp add: input_lines_def w line_events_plain [OF assms(2-4)] exit_line(1) line_ends_def)
  next
    assume g: "gs = line_words (leftover (typed_words ws) b) \<and> nul_behind (typed_words ws) b \<and>
        length (ws @ gs) < 20 \<and> (\<forall>w \<in> set gs. plain_word w)"
    then have read: "words_read (typed_words ws) b = ws @ gs" by (simp add: words_read_def w)
    have plain: "\<forall>w \<in> set (ws @ gs). plain_word w" "ws @ gs \<noteq> []" "hd (ws @ gs) \<noteq> exit_word"
      using g assms(2-4) by auto
    moreover have "length (ws @ gs) < 20" "nul_behind (typed_words ws) b" using g by blast+
    ultimately have "first_line b (typed_words ws)"
      using fits read by (simp add: first_line_def line_ends_def)
    from shell_main_lines [OF assms(1) this, of "[]" "exit_word @ 10 # f"] ends
    show "shell_main env (typed_words ws @ 10 # exit_word @ 10 # f) =
      Some ([Ran (Inr \<lparr>argv = ws @ gs, stdout_to = None, stdin_from = None\<rparr>) True], Inr ())"
      by (simp add: input_lines_def read line_events_plain [OF plain] exit_line(1) line_ends_def)
  }
qed

theorem shell_roundtrip_witness:
  "shell_main (ex_shell_env ex_memory)
      (typed ''ls -l'' @ 10 # typed_words [typed ''cp'', typed ''a'', typed ''b''] @ 10 # exit_word @ 10 # []) =
    Some (line_events [typed ''ls'', typed ''-l'', typed ''e'', typed ''garbage''] @
      [Ran (Inr \<lparr>argv = [typed ''cp'', typed ''a'', typed ''b''], stdout_to = None, stdin_from = None\<rparr>) True], Inr ()) \<and>
   shell_main (ex_shell_env ex_memory)
      (typed_words [typed ''cp'', typed ''a'', typed ''b''] @ 10 # exit_word @ 10 # []) =
    Some ([Ran (Inr \<lparr>argv = [typed ''cp'', typed ''a'', typed ''b'', typed ''garbage''], stdout_to = None,
      stdin_from = None\<rparr>) True], Inr ())"
proof -
  have first: "words_read (typed ''ls -l'') ex_memory = [typed ''ls'', typed ''-l'', typed ''e'', typed ''garbage'']"
    "nul_behind (typed ''ls -l'') ex_memory"
    by (simp_all add: words_read_def leftover_def nul_behind_def ex_memory_def typed_def word_simps)
  have g: "line_words (leftover (typed_words [typed ''cp'', typed ''a'', typed ''b'']) ex_memory) = [typed ''garbage'']"
    "nul_behind (typed_words [typed ''cp'', typed ''a'', typed ''b'']) ex_memory"
    by (simp_all add: leftover_def nul_behind_def ex_memory_def typed_def typed_words_def word_simps)
  have "first_line ex_memory (typed ''ls -l'')"
    by (simp add: first_line_def first line_fits_def line_ends_def) (simp add: typed_def exit_word_def)
  moreover have "plain_word (typed ''cp'')" "plain_word (typed ''a'')" "plain_word (typed ''b'')" "plain_word (typed ''garbage'')"
    by (simp_all add: typed_def plain_word_def delimiter_def redirect_op_def ampersand_def)
  moreover have "typed ''cp'' \<noteq> exit_word" "length (typed_words [typed ''cp'', typed ''a'', typed ''b'']) \<le> 78"
    by (simp_all add: typed_def exit_word_def typed_words_def)
  ultimately show ?thesis
    using shell_roundtrip [OF ex_shell_env_good [OF ex_memory_length],
      of "[typed ''cp'', typed ''a'', typed ''b'']" "typed ''ls -l''" "[]" "[typed ''garbage'']"] first g by simp
qed

section \<open>Limits\<close>

text \<open>
  A line that makes the buffer grow, to \<open>c\<close>, and the size that is remembered after it.
\<close>

lemma shell_turn_long:
  assumes "realloc_good env" and "calls_good env" and "length b = 80" and "80 \<le> length l" and "length l \<le> 119"
    and "10 \<notin> set l" and "0 \<notin> set l" and "realloc_input env (take 80 l) 120 = Some c"
  shows "shell_turn env (l @ 10 # f) b 80 =
    Some (bindr (turn_result l c) (\<lambda>(ends, evs, buf'). Inr (ends, evs, f, buf', 120)))"
proof -
  define l1 where "l1 = take 80 l"
  define l2 where "l2 = drop 80 l"
  have l: "l = l1 @ l2" "length l1 = 80" "length l2 \<le> 39" "10 \<notin> set l1" "10 \<notin> set l2"
    using assms(4-6) by (auto simp: l1_def l2_def dest: in_set_takeD in_set_dropD)
  have c: "realloc_input env l1 120 = Some c" "length c = 120" "take 80 c = l1"
    using assms(1,8) l(2) unfolding realloc_good_def l1_def [symmetric] by (auto dest!: spec [of _ l1] spec [of _ 120])
  have "read_input env (l1 @ l2 @ 10 # f) b 80 0 = read_input env (l2 @ 10 # f) l1 80 80"
    using read_input_prefix [of l1 0 80 b env "l2 @ 10 # f"] l assms(3) by simp
  also have "\<dots> = read_input env (l2 @ 10 # f) c 120 80"
  proof -
    have "read_input env (l2 @ 10 # f) c 120 80 =
        (let g = l2 @ 10 # f in
         if fst (getchar g) = 10 then Some (Inr (c[80 := 10], 120, snd (getchar g)))
         else read_input env (snd (getchar g)) (c[80 := fst (getchar g)]) 120 81)"
      using c(2) by (subst read_input.simps) (simp add: Let_def)
    moreover have "read_input env (l2 @ 10 # f) l1 80 80 =
        (let g = l2 @ 10 # f in
         if fst (getchar g) = 10 then Some (Inr (c[80 := 10], 120, snd (getchar g)))
         else read_input env (snd (getchar g)) (c[80 := fst (getchar g)]) 120 81)"
      using c(1,2) by (subst read_input.simps) (simp add: Let_def buf_base_size_def)
    ultimately show ?thesis by simp
  qed
  also have "\<dots> = Some (Inr (l1 @ l2 @ 10 # drop (Suc (length l)) c, 120, f))"
    using read_input_line [of l2 80 120 c env f] l c by simp
  finally have "read_input env (l @ 10 # f) b 80 0 = Some (Inr (l @ 10 # drop (Suc (length l)) c, 120, f))"
    using l(1) by simp
  with process_line_cases [OF assms(1,2,7), of c] show ?thesis by (simp add: shell_turn_def)
qed

text \<open>
  C30. Limits of the first line, whatever \<open>malloc\<close> and \<open>realloc\<close> leave in fresh memory. With 20 words or
  more (those of the buffer behind the line included, which has a NUL there) the shell reads a
  slot of the grown token array that was never set. A line of 79 characters fills the buffer with its
  newline, and \<open>strtok\<close> reads past the end of it. A line of 80 characters or more (up to 118)
  makes the buffer grow; if the grown buffer holds a NUL behind it, it is run like any other,
  but the size of the grown buffer is remembered when the buffer is cut back to 80 bytes, so
  the next line of 80 characters or more is written past the end of the buffer.
\<close>

theorem shell_limits:
  assumes "shell_env_good env b" and "10 \<notin> set l" and "0 \<notin> set l"
  shows "(length l \<le> 78 \<and> nul_behind l b \<and> 20 \<le> length (words_read l b) \<longrightarrow>
      shell_main env (l @ 10 # f) = Some ([], Inl Uninit_Read)) \<and>
    (length l = 79 \<longrightarrow> shell_main env (l @ 10 # f) = Some ([], Inl Out_Of_Bounds)) \<and>
    (80 \<le> length l \<and> length l \<le> 118 \<and> realloc_input env (take 80 l) 120 = Some c \<and> nul_behind l c \<and>
       length (words_read l c) < 20 \<and> \<not> line_ends (words_read l c) \<and> length l' = 80 \<and> 10 \<notin> set l' \<longrightarrow>
      shell_main env (l @ 10 # l' @ f) = Some (line_events (words_read l c), Inl Out_Of_Bounds))"
proof (intro conjI impI; (elim conjE)?)
  assume "length l \<le> 78" "nul_behind l b" "20 \<le> length (words_read l b)"
  with shell_main_first [OF assms(1) _ assms(2,3), of f]
  show "shell_main env (l @ 10 # f) = Some ([], Inl Uninit_Read)" by (simp add: turn_result_def)
next
  assume len: "length l = 79"
  then have "\<not> nul_behind l b" using assms(1) by (simp add: nul_behind_def shell_env_good_def)
  with shell_main_unterminated [OF assms(1) _ assms(2,3), of f] len
  show "shell_main env (l @ 10 # f) = Some ([], Inl Out_Of_Bounds)" by simp
next
  assume l: "80 \<le> length l" "length l \<le> 118" and c: "realloc_input env (take 80 l) 120 = Some c" "nul_behind l c"
    "length (words_read l c) < 20" "\<not> line_ends (words_read l c)" and l': "length l' = 80" "10 \<notin> set l'"
  have "read_input env (l' @ f) (replicate 80 0) 120 0 = read_input env f l' 120 80"
    using read_input_prefix [of l' 0 120 "replicate 80 0" env f] l' by simp
  also have "\<dots> = Some (Inl Out_Of_Bounds)" using l'(1) by (subst read_input.simps) simp
  finally have turn2: "shell_turn env (l' @ f) (replicate 80 0) 120 = Some (Inl Out_Of_Bounds)"
    by (simp add: shell_turn_def)
  have turn1: "shell_turn env (l @ 10 # l' @ f) b 80 =
      Some (Inr (False, line_events (words_read l c), l' @ f, replicate 80 0, 120))"
    using shell_turn_long [of env b l c "l' @ f"] assms l c by (simp add: shell_env_good_def turn_result_def)
  have "shell_main env (l @ 10 # l' @ f) = shell_loop env (l @ 10 # l' @ f) b 80 []"
    using assms(1) by (simp add: shell_main_def shell_env_good_def buf_base_size_def)
  also have "\<dots> = shell_loop env (l' @ f) (replicate 80 0) 120 (line_events (words_read l c))"
    using turn1 by (subst shell_loop.simps) simp
  also have "\<dots> = Some (line_events (words_read l c), Inl Out_Of_Bounds)"
    using turn2 by (subst shell_loop.simps) simp
  finally show "shell_main env (l @ 10 # l' @ f) = Some (line_events (words_read l c), Inl Out_Of_Bounds)" .
qed

theorem shell_limits_witness:
  "shell_main (ex_shell_env ex_memory) (concat (replicate 20 [97, 32]) @ 10 # []) = Some ([], Inl Uninit_Read) \<and>
   shell_main (ex_shell_env ex_memory) (replicate 79 97 @ 10 # []) = Some ([], Inl Out_Of_Bounds) \<and>
   shell_main (ex_shell_env ex_memory) (replicate 90 97 @ 10 # replicate 80 98 @ [10]) =
     Some (line_events [replicate 90 97], Inl Out_Of_Bounds)"
proof -
  define env where "env = ex_shell_env ex_memory"
  define c where "c = replicate 80 (97 :: byte) @ replicate 40 0"
  note good = ex_shell_env_good [OF ex_memory_length, folded env_def]
  define many where "many = concat (replicate 20 [97, 32 :: byte])"
  have "line_words many = replicate 20 [97]"
    using line_words_typed [of "replicate 20 [97]"]
    by (simp add: many_def typed_words_def plain_word_def delimiter_def redirect_op_def ampersand_def)
  moreover have len: "length many = 40" by (simp add: many_def length_concat sum_list_replicate)
  ultimately have m: "20 \<le> length (words_read many ex_memory)" "nul_behind many ex_memory"
    by (simp_all add: words_read_def nul_behind_def ex_memory_def typed_def)
  have "10 \<notin> set many" "0 \<notin> set many" by (simp_all add: many_def)
  with shell_limits [OF good, of many "[]" "[]" "[]"] m len
  have "shell_main env (many @ 10 # []) = Some ([], Inl Uninit_Read)" by simp
  moreover have "shell_main env (replicate 79 97 @ 10 # []) = Some ([], Inl Out_Of_Bounds)"
    using shell_limits [OF good, of "replicate 79 97" "[]" "[]" "[]"] by simp
  moreover have "realloc_input env (take 80 (replicate 90 97)) 120 = Some c" "nul_behind (replicate 90 97) c"
    "line_words (leftover (replicate 90 97) c) = []"
    by (simp_all add: env_def c_def ex_shell_env_def nul_behind_def leftover_def)
  moreover have "line_words (replicate 90 97) = [replicate 90 97]"
    by (rule line_words_word) (simp_all add: delimiter_def)
  moreover have "replicate 90 97 \<noteq> exit_word" by (auto simp: exit_word_def dest: arg_cong [of _ _ length])
  ultimately show ?thesis
    using shell_limits [OF good, of "replicate 90 97" "[]" c "replicate 80 98" ] 
      shell_limits [OF good, of "replicate 90 97" "[10]" c "replicate 80 98"]
    by (simp add: line_ends_def words_read_def many_def [symmetric] env_def [symmetric])
qed

section \<open>The end of the input\<close>

lemma read_input_eof:
  assumes "10 \<notin> set f" and "read_input env f b buf_size pos = Some r"
  shows "\<exists>e. r = Inl e"
proof -
  have "10 \<notin> set f \<longrightarrow> (\<exists>e. r = Inl e)"
    using assms(2)
  proof (rule read_input.raw_induct [rotated], goal_cases)
    case (1 read_input env f b buf_size pos r)
    then show ?case
      by (cases f) (auto split: if_splits option.splits sum.splits)
  qed
  with assms(1) show ?thesis by blast
qed

text \<open>
  The end of the input is not noticed: when the lines end without \<open>exit\<close>, the shell never
  ends normally. It keeps storing the byte of \<open>EOF\<close> until memory is refused or the position
  leaves the buffer.
\<close>

theorem shell_eof:
  assumes "shell_env_good env b" and "first_line b l" and "\<forall>l \<in> set ls. session_line l" and "10 \<notin> set g"
  shows "\<not> (\<exists>evs. shell_main env (input_lines (l # ls) @ g) = Some (evs, Inr ()))"
proof -
  have "shell_turn env g (replicate 80 0) 80 = None \<or> (\<exists>e. shell_turn env g (replicate 80 0) 80 = Some (Inl e))"
    using read_input_eof [OF assms(4), of env "replicate 80 0" 80 0]
    by (cases "read_input env g (replicate 80 0) 80 0") (auto simp: shell_turn_def)
  then have "\<not> (\<exists>evs'. shell_loop env g (replicate 80 0) 80 evs = Some (evs', Inr ()))" for evs
    by (subst shell_loop.simps) auto
  moreover have "input_lines (l # ls) @ g = l @ 10 # input_lines ls @ g" by (simp add: input_lines_def)
  ultimately show ?thesis using shell_main_lines [OF assms(1-3), of g] by simp
qed

theorem shell_eof_witness:
  "\<not> (\<exists>evs. shell_main (ex_shell_env (replicate 80 0)) (input_lines [typed ''ls''] @ []) = Some (evs, Inr ()))"
proof -
  have "first_line (replicate 80 0) (typed ''ls'')"
    using cleared_behind [of "typed ''ls''"]
    by (simp add: first_line_def line_fits_def typed_def word_simps line_ends_def exit_word_def)
  then show ?thesis using shell_eof [OF ex_shell_env_good [of "replicate 80 0"], of "typed ''ls''" "[]" "[]"] by simp
qed

end
