(* ===== verification/ProdCon.thy ===== *)
theory ProdCon imports Prelude begin

text \<open>
  The producers and consumers of Asmt_5 that share a buffer: one of each with semaphores
  (prodcon_sem.cpp), and many with condition variables (prodcon_cv.cpp). All threads loop for ever; a thread is at one of a few points of its
  loop. \<open>InsertItem\<close> and \<open>RemoveItem\<close> run under a mutex and are one step each; a semaphore
  operation is one step, and \<open>sem_wait\<close> on a semaphore of value 0 blocks. Sleeping and
  drawing on the terminal are left out.

  The buffer holds \<open>bufferlen\<close> cells, of which one that was never written is \<open>None\<close>; \<open>pos\<close> is
  the index of the item written last.
\<close>

section \<open>State and operations\<close>

text \<open>The buffer, which the two versions of the program share, and the state of the first.\<close>

datatype thread_pc = At_Wait | At_Item | At_Post

record buffer_state =
  cells :: "byte option list"
  pos :: int

record prodcon = buffer_state +
  canRead :: nat
  canWrite :: nat
  producer_at :: thread_pc
  consumer_at :: thread_pc

definition prodcon0 :: "nat \<Rightarrow> prodcon" where
  "prodcon0 bufferlen = \<lparr>cells = replicate bufferlen None, pos = 0, canRead = 0, canWrite = bufferlen,
     producer_at = At_Wait, consumer_at = At_Wait\<rparr>"

definition cell :: "'a buffer_state_scheme \<Rightarrow> int \<Rightarrow> nat res" where
  "cell s i = (if 0 \<le> i \<and> i < int (length (cells s)) then Inr (nat i) else Inl Out_Of_Bounds)"

text \<open>\<open>item = buffer[pos--]\<close> and \<open>buffer[++pos] = item\<close>.\<close>

definition RemoveItem :: "'a buffer_state_scheme \<Rightarrow> (byte \<times> 'a buffer_state_scheme) res" where
  "RemoveItem s = bindr (cell s (pos s)) (\<lambda>i.
     case cells s ! i of
       None \<Rightarrow> Inl Uninit_Read
     | Some item \<Rightarrow> bindr (c_int (pos s - 1)) (\<lambda>p. Inr (item, s\<lparr>pos := p\<rparr>)))"

definition InsertItem :: "byte \<Rightarrow> 'a buffer_state_scheme \<Rightarrow> 'a buffer_state_scheme res" where
  "InsertItem item s = bindr (c_int (pos s + 1)) (\<lambda>p.
     bindr (cell s p) (\<lambda>i. Inr (s\<lparr>pos := p, cells := (cells s)[i := Some item]\<rparr>)))"

definition sem_wait :: "nat \<Rightarrow> nat option" where
  "sem_wait v = (if v = 0 then None else Some (v - 1))"

text \<open>One step of \<open>ProducerStart\<close> and of \<open>ConsumerStart\<close>; \<open>None\<close> when the thread is blocked.\<close>

definition producer_step :: "prodcon \<Rightarrow> prodcon res option" where
  "producer_step s = (case producer_at s of
     At_Wait \<Rightarrow> map_option (\<lambda>v. Inr (s\<lparr>canWrite := v, producer_at := At_Item\<rparr>)) (sem_wait (canWrite s))
   | At_Item \<Rightarrow> Some (bindr (InsertItem 65 s) (\<lambda>s'. Inr (s'\<lparr>producer_at := At_Post\<rparr>)))
   | At_Post \<Rightarrow> Some (Inr (s\<lparr>canRead := canRead s + 1, producer_at := At_Wait\<rparr>)))"

definition consumer_step :: "prodcon \<Rightarrow> prodcon res option" where
  "consumer_step s = (case consumer_at s of
     At_Wait \<Rightarrow> map_option (\<lambda>v. Inr (s\<lparr>canRead := v, consumer_at := At_Item\<rparr>)) (sem_wait (canRead s))
   | At_Item \<Rightarrow> Some (bindr (RemoveItem s) (\<lambda>(item, s'). Inr (s'\<lparr>consumer_at := At_Post\<rparr>)))
   | At_Post \<Rightarrow> Some (Inr (s\<lparr>canWrite := canWrite s + 1, consumer_at := At_Wait\<rparr>)))"

inductive prodcon_reachable :: "nat \<Rightarrow> prodcon \<Rightarrow> bool" for bufferlen where
  start: "prodcon_reachable bufferlen (prodcon0 bufferlen)"
| produce: "prodcon_reachable bufferlen s \<Longrightarrow> producer_step s = Some (Inr s') \<Longrightarrow> prodcon_reachable bufferlen s'"
| consume: "prodcon_reachable bufferlen s \<Longrightarrow> consumer_step s = Some (Inr s') \<Longrightarrow> prodcon_reachable bufferlen s'"

section \<open>The invariant\<close>

text \<open>
  Each of the \<open>bufferlen\<close> permits is in a semaphore or in the hands of a thread; \<open>pos\<close> is the
  number of items, and these are the cells 1 to \<open>pos\<close>.
\<close>

definition in_hand :: "thread_pc \<Rightarrow> nat" where
  "in_hand p = (if p = At_Wait then 0 else 1)"

definition prodcon_inv :: "nat \<Rightarrow> prodcon \<Rightarrow> bool" where
  "prodcon_inv n s \<longleftrightarrow> length (cells s) = n \<and>
     canRead s + canWrite s + in_hand (producer_at s) + in_hand (consumer_at s) = n \<and>
     pos s = int (canRead s + (if producer_at s = At_Post then 1 else 0) +
       (if consumer_at s = At_Item then 1 else 0)) \<and>
     (\<forall>i. 1 \<le> i \<longrightarrow> int i \<le> pos s \<longrightarrow> i < n \<and> cells s ! i = Some 65)"

lemma prodcon_inv_start: "prodcon_inv n (prodcon0 n)"
  by (auto simp: prodcon_inv_def prodcon0_def in_hand_def)

text \<open>What the two functions do when \<open>pos\<close> is in the buffer.\<close>

lemma InsertItem_runs:
  assumes "0 \<le> pos s" and "pos s < int (length (cells s))" and "length (cells s) < 2 ^ 31"
  shows "InsertItem x s = (if pos s + 1 = int (length (cells s)) then Inl Out_Of_Bounds
    else Inr (s\<lparr>pos := pos s + 1, cells := (cells s)[nat (pos s + 1) := Some x]\<rparr>))"
proof -
  have "c_int (pos s + 1) = Inr (pos s + 1)" using assms by (simp add: int32_ok_def)
  then show ?thesis using assms by (simp add: InsertItem_def cell_def)
qed

lemma RemoveItem_runs:
  assumes "0 \<le> pos s" and "pos s < int (length (cells s))" and "length (cells s) < 2 ^ 31"
  shows "RemoveItem s = (case cells s ! nat (pos s) of None \<Rightarrow> Inl Uninit_Read | Some x \<Rightarrow> Inr (x, s\<lparr>pos := pos s - 1\<rparr>))"
proof -
  have "c_int (pos s - 1) = Inr (pos s - 1)" using assms by (simp add: int32_ok_def)
  then show ?thesis using assms by (simp add: RemoveItem_def cell_def split: option.split)
qed

text \<open>What a step of a thread can do in a state with the invariant.\<close>

lemma InsertItem_spec:
  assumes "prodcon_inv n s" and "producer_at s = At_Item" and "n < 2 ^ 31"
  shows "if pos s + 1 = int n then InsertItem 65 s = Inl Out_Of_Bounds
    else \<exists>s'. InsertItem 65 s = Inr s' \<and> prodcon_inv n (s'\<lparr>producer_at := At_Post\<rparr>)"
proof -
  let ?s = "s\<lparr>pos := pos s + 1, cells := (cells s)[nat (pos s + 1) := Some 65]\<rparr>"
  have p: "0 \<le> pos s" "pos s < int n" "length (cells s) = n"
    using assms(1,2) by (auto simp: prodcon_inv_def in_hand_def)
  have "prodcon_inv n (?s\<lparr>producer_at := At_Post\<rparr>)" if "pos s + 1 \<noteq> int n"
    using assms(1,2) that p by (auto simp: prodcon_inv_def in_hand_def nth_list_update)
  then show ?thesis using InsertItem_runs [of s 65] p assms(3) by auto
qed

lemma RemoveItem_spec:
  assumes "prodcon_inv n s" and "consumer_at s = At_Item" and "n < 2 ^ 31"
  shows "\<exists>s'. RemoveItem s = Inr (65, s') \<and> prodcon_inv n (s'\<lparr>consumer_at := At_Post\<rparr>)"
proof -
  have p: "1 \<le> pos s" "length (cells s) = n" using assms(1,2) by (auto simp: prodcon_inv_def)
  then obtain i where i: "pos s = int i" "1 \<le> i" by (metis int_nat_eq nat_mono nat_one_as_int order_trans zero_le_one)
  have "i < n" "cells s ! i = Some 65" using assms(1) i by (auto simp: prodcon_inv_def)
  then have "RemoveItem s = Inr (65, s\<lparr>pos := pos s - 1\<rparr>)"
    using RemoveItem_runs [of s] p i assms(3) by simp
  moreover have "prodcon_inv n (s\<lparr>pos := pos s - 1, consumer_at := At_Post\<rparr>)"
    using assms(1,2) i by (auto simp: prodcon_inv_def in_hand_def)
  ultimately show ?thesis by auto
qed

lemma producer_step_inv:
  assumes "prodcon_inv n s" and "n < 2 ^ 31" and "producer_step s = Some (Inr s')"
  shows "prodcon_inv n s'"
proof (cases "producer_at s")
  case At_Item
  with InsertItem_spec [OF assms(1) At_Item assms(2)] assms(3) show ?thesis
    by (auto simp: producer_step_def split: if_splits)
qed (use assms in \<open>auto simp: producer_step_def sem_wait_def prodcon_inv_def in_hand_def split: if_splits\<close>)

lemma consumer_step_inv:
  assumes "prodcon_inv n s" and "n < 2 ^ 31" and "consumer_step s = Some (Inr s')"
  shows "prodcon_inv n s'"
proof (cases "consumer_at s")
  case At_Item
  with RemoveItem_spec [OF assms(1) At_Item assms(2)] assms(3) show ?thesis
    by (auto simp: consumer_step_def)
qed (use assms in \<open>auto simp: consumer_step_def sem_wait_def prodcon_inv_def in_hand_def split: if_splits\<close>)

lemma prodcon_inv_reachable: "prodcon_reachable n s \<Longrightarrow> n < 2 ^ 31 \<Longrightarrow> prodcon_inv n s"
proof (induction rule: prodcon_reachable.induct)
  case start
  then show ?case by (simp add: prodcon_inv_start)
qed (blast intro: producer_step_inv consumer_step_inv)+

section \<open>The version with condition variables\<close>

text \<open>
  The points of a loop of prodcon_cv.cpp: before the check of \<open>pos\<close> (under the mutex), before
  \<open>pthread_cond_wait\<close>, inside it, and before the item. A check that signals wakes one of the
  threads waiting on the other side, which one is open; without one the signal is lost.
  POSIX allows wake-ups without a signal (\<open>cv_spurious\<close>).
\<close>

datatype cv_pc = At_Check | Before_Wait | Waiting | At_Buffer

record prodcon_cv = buffer_state +
  producers :: "cv_pc list"
  consumers :: "cv_pc list"

definition prodcon_cv0 :: "nat \<Rightarrow> prodcon_cv" where
  "prodcon_cv0 bufferlen = \<lparr>cells = replicate bufferlen None, pos = 0,
     producers = replicate bufferlen At_Check, consumers = replicate bufferlen At_Check\<rparr>"

text \<open>\<open>pthread_cond_signal\<close> with \<open>woken\<close> as the thread that wakes up.\<close>

definition cond_signal :: "cv_pc list \<Rightarrow> nat option \<Rightarrow> cv_pc list option" where
  "cond_signal ts woken = (case woken of
     None \<Rightarrow> if Waiting \<in> set ts then None else Some ts
   | Some j \<Rightarrow> if j < length ts \<and> ts ! j = Waiting then Some (ts[j := At_Buffer]) else None)"

definition cv_producer_step :: "prodcon_cv \<Rightarrow> nat \<Rightarrow> nat option \<Rightarrow> prodcon_cv res option" where
  "cv_producer_step s i woken =
     (if i \<ge> length (producers s) then None
      else case producers s ! i of
        At_Check \<Rightarrow>
          if pos s > 0
          then map_option (\<lambda>ts. Inr (s\<lparr>consumers := ts, producers := (producers s)[i := Before_Wait]\<rparr>))
            (cond_signal (consumers s) woken)
          else Some (Inr (s\<lparr>producers := (producers s)[i := Before_Wait]\<rparr>))
      | Before_Wait \<Rightarrow> Some (Inr (s\<lparr>producers := (producers s)[i := Waiting]\<rparr>))
      | Waiting \<Rightarrow> None
      | At_Buffer \<Rightarrow> Some (bindr (InsertItem 65 s) (\<lambda>s'. Inr (s'\<lparr>producers := (producers s)[i := At_Check]\<rparr>))))"

definition cv_consumer_step :: "prodcon_cv \<Rightarrow> nat \<Rightarrow> nat option \<Rightarrow> prodcon_cv res option" where
  "cv_consumer_step s i woken =
     (if i \<ge> length (consumers s) then None
      else case consumers s ! i of
        At_Check \<Rightarrow>
          if pos s < int (length (cells s))
          then map_option (\<lambda>ts. Inr (s\<lparr>producers := ts, consumers := (consumers s)[i := Before_Wait]\<rparr>))
            (cond_signal (producers s) woken)
          else Some (Inr (s\<lparr>consumers := (consumers s)[i := Before_Wait]\<rparr>))
      | Before_Wait \<Rightarrow> Some (Inr (s\<lparr>consumers := (consumers s)[i := Waiting]\<rparr>))
      | Waiting \<Rightarrow> None
      | At_Buffer \<Rightarrow> Some (bindr (RemoveItem s) (\<lambda>(item, s'). Inr (s'\<lparr>consumers := (consumers s)[i := At_Check]\<rparr>))))"

definition cv_spurious :: "cv_pc list \<Rightarrow> nat \<Rightarrow> cv_pc list option" where
  "cv_spurious ts j = (if j < length ts \<and> ts ! j = Waiting then Some (ts[j := At_Buffer]) else None)"

inductive cv_reachable :: "nat \<Rightarrow> prodcon_cv \<Rightarrow> bool" for bufferlen where
  start: "cv_reachable bufferlen (prodcon_cv0 bufferlen)"
| produce: "cv_reachable bufferlen s \<Longrightarrow> cv_producer_step s i woken = Some (Inr s') \<Longrightarrow> cv_reachable bufferlen s'"
| consume: "cv_reachable bufferlen s \<Longrightarrow> cv_consumer_step s i woken = Some (Inr s') \<Longrightarrow> cv_reachable bufferlen s'"
| spurious_producer: "cv_reachable bufferlen s \<Longrightarrow> cv_spurious (producers s) j = Some ts \<Longrightarrow>
    cv_reachable bufferlen (s\<lparr>producers := ts\<rparr>)"
| spurious_consumer: "cv_reachable bufferlen s \<Longrightarrow> cv_spurious (consumers s) j = Some ts \<Longrightarrow>
    cv_reachable bufferlen (s\<lparr>consumers := ts\<rparr>)"

text \<open>The first \<open>k\<close> consumers, then the first \<open>j\<close> producers, have gone to wait.\<close>

definition gone_to_wait :: "nat \<Rightarrow> nat \<Rightarrow> nat \<Rightarrow> prodcon_cv" where
  "gone_to_wait n k j = (prodcon_cv0 n)\<lparr>
     consumers := replicate k Waiting @ replicate (n - k) At_Check,
     producers := replicate j Waiting @ replicate (n - j) At_Check\<rparr>"

lemma replicate_next:
  "k < n \<Longrightarrow> (replicate k x @ replicate (n - k) y)[k := x] = replicate (Suc k) x @ replicate (n - Suc k) y"
  "k < n \<Longrightarrow> (replicate k x @ replicate (n - k) y) ! k = y"
proof -
  assume "k < n"
  then obtain d where d: "n - k = Suc d" "n - Suc k = d" by (metis Suc_diff_Suc)
  show "(replicate k x @ replicate (n - k) y)[k := x] = replicate (Suc k) x @ replicate (n - Suc k) y"
    using list_update_length [of "replicate k x" y "replicate d y" x] by (simp add: d replicate_app_Cons_same)
  show "(replicate k x @ replicate (n - k) y) ! k = y" unfolding d by (simp add: nth_append)
qed

lemma consumers_wait: "k \<le> n \<Longrightarrow> cv_reachable n (gone_to_wait n k 0)"
proof (induction k)
  case 0
  then show ?case using cv_reachable.start [of n] by (simp add: gone_to_wait_def prodcon_cv0_def)
next
  case (Suc k)
  let ?s = "gone_to_wait n k 0"
  let ?s1 = "?s\<lparr>consumers := (consumers ?s)[k := Before_Wait]\<rparr>"
  have len: "length (consumers ?s) = n" "consumers ?s ! k = At_Check" "Waiting \<notin> set (producers ?s)"
    using Suc.prems replicate_next(2) [of k n Waiting At_Check] by (simp_all add: gone_to_wait_def)
  then have "cv_consumer_step ?s k None = Some (Inr ?s1)"
    using Suc.prems by (simp add: cv_consumer_step_def cond_signal_def gone_to_wait_def prodcon_cv0_def)
  then have r: "cv_reachable n ?s1" using Suc cv_reachable.consume by simp
  have "consumers ?s1 ! k = Before_Wait" "length (consumers ?s1) = n" using len Suc.prems by simp_all
  then have "cv_consumer_step ?s1 k None = Some (Inr (?s1\<lparr>consumers := (consumers ?s1)[k := Waiting]\<rparr>))"
    using Suc.prems by (simp add: cv_consumer_step_def)
  moreover have "?s1\<lparr>consumers := (consumers ?s1)[k := Waiting]\<rparr> = gone_to_wait n (Suc k) 0"
    using Suc.prems replicate_next(1) [of k n Waiting At_Check] by (simp add: gone_to_wait_def)
  ultimately show ?case using cv_reachable.consume [OF r] by metis
qed

lemma producers_wait: "j \<le> n \<Longrightarrow> cv_reachable n (gone_to_wait n n j)"
proof (induction j)
  case 0
  then show ?case using consumers_wait by simp
next
  case (Suc j)
  let ?s = "gone_to_wait n n j"
  let ?s1 = "?s\<lparr>producers := (producers ?s)[j := Before_Wait]\<rparr>"
  have len: "length (producers ?s) = n" "producers ?s ! j = At_Check" "pos ?s = 0"
    using Suc.prems replicate_next(2) [of j n Waiting At_Check] by (simp_all add: gone_to_wait_def prodcon_cv0_def)
  then have "cv_producer_step ?s j None = Some (Inr ?s1)"
    using Suc.prems by (simp add: cv_producer_step_def)
  then have r: "cv_reachable n ?s1" using Suc cv_reachable.produce by simp
  have "producers ?s1 ! j = Before_Wait" "length (producers ?s1) = n" using len Suc.prems by simp_all
  then have "cv_producer_step ?s1 j None = Some (Inr (?s1\<lparr>producers := (producers ?s1)[j := Waiting]\<rparr>))"
    using Suc.prems by (simp add: cv_producer_step_def)
  moreover have "?s1\<lparr>producers := (producers ?s1)[j := Waiting]\<rparr> = gone_to_wait n n (Suc j)"
    using Suc.prems replicate_next(1) [of j n Waiting At_Check] by (simp add: gone_to_wait_def)
  ultimately show ?case using cv_reachable.produce [OF r] by metis
qed

end
