(* ===== verification/ProdConProps.thy ===== *)
theory ProdConProps imports ProdCon begin

text \<open>The properties of the producers and consumers.\<close>

section \<open>Semaphores\<close>

lemma producer_step_errors:
  assumes "prodcon_inv n s" and "n < 2 ^ 31"
  shows "producer_step s = Some (Inl e) \<longleftrightarrow> e = Out_Of_Bounds \<and> producer_at s = At_Item \<and> pos s + 1 = int n"
proof (cases "producer_at s")
  case At_Item
  with InsertItem_spec [OF assms(1) At_Item assms(2)] show ?thesis
    by (auto simp: producer_step_def split: if_splits)
qed (auto simp: producer_step_def)

lemma consumer_step_ok:
  assumes "prodcon_inv n s" and "n < 2 ^ 31"
  shows "consumer_step s \<noteq> Some (Inl e)"
proof (cases "consumer_at s")
  case At_Item
  with RemoveItem_spec [OF assms(1) At_Item assms(2)] show ?thesis by (auto simp: consumer_step_def)
qed (auto simp: consumer_step_def)

text \<open>
  A run of the two threads with the number of items inserted and removed so far: a step of a
  thread at its item is one of them.
\<close>

inductive prodcon_run :: "nat \<Rightarrow> nat \<Rightarrow> nat \<Rightarrow> prodcon \<Rightarrow> bool" for bufferlen where
  start: "prodcon_run bufferlen 0 0 (prodcon0 bufferlen)"
| produce: "prodcon_run bufferlen ins rem s \<Longrightarrow> producer_step s = Some (Inr s') \<Longrightarrow>
    prodcon_run bufferlen (ins + (if producer_at s = At_Item then 1 else 0)) rem s'"
| consume: "prodcon_run bufferlen ins rem s \<Longrightarrow> consumer_step s = Some (Inr s') \<Longrightarrow>
    prodcon_run bufferlen ins (rem + (if consumer_at s = At_Item then 1 else 0)) s'"

lemma prodcon_run_reachable: "prodcon_run n ins rem s \<Longrightarrow> prodcon_reachable n s"
  by (induction rule: prodcon_run.induct) (auto intro: prodcon_reachable.intros)

lemma prodcon_reachable_run: "prodcon_reachable n s \<Longrightarrow> \<exists>ins rem. prodcon_run n ins rem s"
  by (induction rule: prodcon_reachable.induct) (meson prodcon_run.intros)+

lemma producer_step_pos:
  "producer_step s = Some (Inr s') \<Longrightarrow> pos s' = pos s + (if producer_at s = At_Item then 1 else 0)"
  by (cases "producer_at s") (auto simp: producer_step_def InsertItem_def c_int_def res_simps split: if_splits)

lemma consumer_step_pos:
  "consumer_step s = Some (Inr s') \<Longrightarrow> pos s' = pos s - (if consumer_at s = At_Item then 1 else 0)"
  by (cases "consumer_at s") (auto simp: consumer_step_def RemoveItem_def c_int_def res_simps split: if_splits option.splits)

lemma prodcon_run_pos: "prodcon_run n ins rem s \<Longrightarrow> pos s = int ins - int rem"
proof (induction rule: prodcon_run.induct)
  case start
  then show ?case by (simp add: prodcon0_def)
next
  case (produce ins rem s s')
  then show ?case using producer_step_pos [OF produce.hyps(2)] by simp
next
  case (consume ins rem s s')
  then show ?case using consumer_step_pos [OF consume.hyps(2)] by simp
qed

text \<open>
  C31. The semaphores keep the buffer: in every state that a producer and a consumer of a buffer
  of \<open>n\<close> cells reach, after \<open>ins\<close> insertions and \<open>rem\<close> removals, no more items were removed than
  inserted, \<open>pos\<close> is the number of those that are left, and they are in the cells 1 to \<open>pos\<close>;
  the items left are those that \<open>canRead\<close> admits and those in the hands of a thread; the
  consumer never fails and never finds a cell that was not written; some thread can take a
  step; and the only error is an insertion at index \<open>n\<close>.
\<close>

theorem prodcon_safe:
  assumes "prodcon_run n ins rem s" and "0 < n" and "n < 2 ^ 31"
  shows "rem \<le> ins \<and> pos s = int (ins - rem) \<and> ins - rem < n \<and>
    (\<forall>i. 1 \<le> i \<and> i \<le> ins - rem \<longrightarrow> cells s ! i = Some 65) \<and>
    ins - rem = canRead s + (if producer_at s = At_Post then 1 else 0) + (if consumer_at s = At_Item then 1 else 0) \<and>
    canRead s + canWrite s \<le> n \<and>
    (\<forall>e. consumer_step s \<noteq> Some (Inl e)) \<and> (producer_step s \<noteq> None \<or> consumer_step s \<noteq> None) \<and>
    (\<forall>e. producer_step s = Some (Inl e) \<longleftrightarrow> e = Out_Of_Bounds \<and> producer_at s = At_Item \<and> ins - rem + 1 = n)"
proof (intro conjI allI)
  have inv: "prodcon_inv n s" by (rule prodcon_inv_reachable [OF prodcon_run_reachable [OF assms(1)] assms(3)])
  have "0 \<le> pos s" using inv by (simp add: prodcon_inv_def)
  then show le: "rem \<le> ins" using prodcon_run_pos [OF assms(1)] by simp
  then show pos: "pos s = int (ins - rem)" using prodcon_run_pos [OF assms(1)] by (simp add: of_nat_diff)
  show less: "ins - rem < n"
  proof (cases "ins - rem = 0")
    case False
    then have "1 \<le> ins - rem" "int (ins - rem) \<le> pos s" using pos by simp_all
    with inv show ?thesis unfolding prodcon_inv_def by blast
  qed (use assms(2) in simp)
  show "1 \<le> i \<and> i \<le> ins - rem \<longrightarrow> cells s ! i = Some 65" for i
    using inv pos by (auto simp: prodcon_inv_def)
  show "ins - rem = canRead s + (if producer_at s = At_Post then 1 else 0) + (if consumer_at s = At_Item then 1 else 0)"
    using inv pos unfolding prodcon_inv_def by linarith
  show "canRead s + canWrite s \<le> n" using inv by (simp add: prodcon_inv_def)
  show "consumer_step s \<noteq> Some (Inl e)" for e by (rule consumer_step_ok [OF inv assms(3)])
  have "pos s + 1 = int n \<longleftrightarrow> ins - rem + 1 = n" using pos by linarith
  then show "producer_step s = Some (Inl e) \<longleftrightarrow> e = Out_Of_Bounds \<and> producer_at s = At_Item \<and> ins - rem + 1 = n" for e
    using producer_step_errors [OF inv assms(3)] by metis
  show "producer_step s \<noteq> None \<or> consumer_step s \<noteq> None"
    using inv assms(2)
    by (cases "producer_at s"; cases "consumer_at s")
      (auto simp: producer_step_def consumer_step_def sem_wait_def prodcon_inv_def in_hand_def)
qed

text \<open>The state after \<open>k\<close> turns of the producer alone.\<close>

lemma producer_runs:
  "k < n \<Longrightarrow> n < 2 ^ 31 \<Longrightarrow> \<exists>s. prodcon_reachable n s \<and> pos s = int k \<and> producer_at s = At_Wait \<and>
     consumer_at s = At_Wait \<and> canWrite s = n - k"
proof (induction k)
  case 0
  then show ?case using prodcon_reachable.start [of n]
    by (intro exI [of _ "prodcon0 n"]) (simp add: prodcon0_def)
next
  case (Suc k)
  then obtain s where s: "prodcon_reachable n s" "pos s = int k" "producer_at s = At_Wait"
    "consumer_at s = At_Wait" "canWrite s = n - k" by auto
  let ?s1 = "s\<lparr>canWrite := n - k - 1, producer_at := At_Item\<rparr>"
  have "producer_step s = Some (Inr ?s1)"
    using s(3,5) Suc.prems(1) by (simp add: producer_step_def sem_wait_def)
  then have r1: "prodcon_reachable n ?s1" by (rule prodcon_reachable.produce [OF s(1)])
  have "length (cells ?s1) = n" using prodcon_inv_reachable [OF r1 Suc.prems(2)] by (simp add: prodcon_inv_def)
  then have ins: "InsertItem 65 ?s1 = Inr (?s1\<lparr>pos := int k + 1, cells := (cells s)[Suc k := Some 65]\<rparr>)"
    using s(2) Suc.prems by (simp add: InsertItem_def cell_def int32_ok_def nat_add_distrib)
  let ?s2 = "?s1\<lparr>pos := int k + 1, cells := (cells s)[Suc k := Some 65], producer_at := At_Post\<rparr>"
  have "producer_step ?s1 = Some (Inr ?s2)" using ins by (simp add: producer_step_def)
  then have r2: "prodcon_reachable n ?s2" by (rule prodcon_reachable.produce [OF r1])
  let ?s3 = "?s2\<lparr>canRead := canRead s + 1, producer_at := At_Wait\<rparr>"
  have "producer_step ?s2 = Some (Inr ?s3)" by (simp add: producer_step_def)
  then have "prodcon_reachable n ?s3" by (rule prodcon_reachable.produce [OF r2])
  then show ?case using s(4) by (intro exI [of _ ?s3]) simp
qed

text \<open>
  The buffer overflows: items are stored from index 1 on, but \<open>n\<close> of them are admitted to \<open>n\<close>
  cells. For every size \<open>n\<close> the producer can get so far ahead that its next insertion writes
  past the end of the buffer.
\<close>

theorem prodcon_overflow:
  assumes "0 < n" and "n < 2 ^ 31"
  shows "\<exists>s. prodcon_reachable n s \<and> canWrite s = 0 \<and> producer_step s = Some (Inl Out_Of_Bounds)"
proof -
  obtain s where s: "prodcon_reachable n s" "pos s = int (n - 1)" "producer_at s = At_Wait" "canWrite s = 1"
    using producer_runs [of "n - 1" n] assms by auto
  let ?s = "s\<lparr>canWrite := 0, producer_at := At_Item\<rparr>"
  have "producer_step s = Some (Inr ?s)" using s(3,4) by (simp add: producer_step_def sem_wait_def)
  then have r: "prodcon_reachable n ?s" by (rule prodcon_reachable.produce [OF s(1)])
  moreover have "producer_step ?s = Some (Inl Out_Of_Bounds)"
    using producer_step_errors [OF prodcon_inv_reachable [OF r assms(2)] assms(2), of Out_Of_Bounds] s(2) assms(1)
    by (simp add: of_nat_diff)
  ultimately show ?thesis by (intro exI [of _ ?s]) simp
qed

theorem prodcon_overflow_witness:
  "\<exists>s. prodcon_reachable 3 s \<and> canWrite s = 0 \<and> producer_step s = Some (Inl Out_Of_Bounds)"
  by (rule prodcon_overflow) simp_all

theorem prodcon_safe_witness:
  "\<exists>ins rem s. prodcon_run 3 ins rem s \<and> ins - rem = 2 \<and> pos s = 2 \<and> cells s ! 1 = Some 65 \<and> cells s ! 2 = Some 65"
proof -
  obtain s where s: "prodcon_reachable 3 s" "pos s = 2" using producer_runs [of 2 3] by auto
  then obtain ins rem where run: "prodcon_run 3 ins rem s" using prodcon_reachable_run by blast
  from prodcon_safe [OF this] have "pos s = int (ins - rem)" "\<forall>i. 1 \<le> i \<and> i \<le> ins - rem \<longrightarrow> cells s ! i = Some 65"
    by simp_all
  with run s(2) show ?thesis by (intro exI [of _ ins] exI [of _ rem] exI [of _ s]) auto
qed

section \<open>Condition variables\<close>

text \<open>
  C32. With condition variables the program can stop for good: for every buffer size, if all
  consumers come first, their signals are lost as no producer waits yet; then the producers,
  which find the buffer empty, signal nobody. In the state reached all threads wait and none can
  take a step of its own, so that only a wake-up without a signal would go on.
\<close>

theorem prodcon_cv_deadlock:
  "\<exists>s. cv_reachable n s \<and> set (producers s) \<subseteq> {Waiting} \<and> set (consumers s) \<subseteq> {Waiting} \<and>
    length (producers s) = n \<and> length (consumers s) = n \<and> pos s = 0 \<and>
    (\<forall>i woken. cv_producer_step s i woken = None \<and> cv_consumer_step s i woken = None)"
proof -
  have s: "producers (gone_to_wait n n n) = replicate n Waiting" "consumers (gone_to_wait n n n) = replicate n Waiting"
    "pos (gone_to_wait n n n) = 0"
    by (simp_all add: gone_to_wait_def prodcon_cv0_def)
  then have "cv_producer_step (gone_to_wait n n n) i woken = None"
    "cv_consumer_step (gone_to_wait n n n) i woken = None" for i woken
    by (simp_all add: cv_producer_step_def cv_consumer_step_def)
  with s producers_wait [of n n] show ?thesis by (intro exI [of _ "gone_to_wait n n n"]) auto
qed

end
