(* ===== verification/ProdConCv.thy ===== *)
theory ProdConCv imports ProdConProps begin

text \<open>
  The buffer of prodcon_cv.cpp: what is in it in every reachable state, and the two ways in which its
  threads leave it.
\<close>

section \<open>The buffer\<close>

text \<open>The cells 1 to \<open>pos\<close> are written, cell 0 never is.\<close>

definition buffer_ok :: "nat \<Rightarrow> 'a buffer_state_scheme \<Rightarrow> bool" where
  "buffer_ok n s \<longleftrightarrow> length (cells s) = n \<and> 0 \<le> pos s \<and> pos s < int n \<and> cells s ! 0 = None \<and>
     (\<forall>i. 1 \<le> i \<longrightarrow> int i \<le> pos s \<longrightarrow> cells s ! i = Some 65)"

lemma buffer_ok_insert:
  assumes "buffer_ok n s" and "n < 2 ^ 31"
  shows "if pos s + 1 = int n then InsertItem 65 s = Inl Out_Of_Bounds
    else \<exists>cs. InsertItem 65 s = Inr (s\<lparr>pos := pos s + 1, cells := cs\<rparr>) \<and>
      buffer_ok n (s\<lparr>pos := pos s + 1, cells := cs\<rparr>)"
proof -
  have p: "0 \<le> pos s" "pos s < int n" "length (cells s) = n" using assms(1) by (auto simp: buffer_ok_def)
  have "buffer_ok n (s\<lparr>pos := pos s + 1, cells := (cells s)[nat (pos s + 1) := Some 65]\<rparr>)" if "pos s + 1 \<noteq> int n"
    using assms(1) that p by (auto simp: buffer_ok_def nth_list_update)
  then show ?thesis using InsertItem_runs [of s 65] p assms(2) by auto
qed

lemma buffer_ok_remove:
  assumes "buffer_ok n s" and "n < 2 ^ 31"
  shows "if pos s = 0 then RemoveItem s = Inl Uninit_Read
    else RemoveItem s = Inr (65, s\<lparr>pos := pos s - 1\<rparr>) \<and> buffer_ok n (s\<lparr>pos := pos s - 1\<rparr>)"
proof -
  have p: "0 \<le> pos s" "pos s < int n" "length (cells s) = n" using assms(1) by (auto simp: buffer_ok_def)
  have "cells s ! nat (pos s) = (if pos s = 0 then None else Some 65)"
    using assms(1) p(1) by (auto simp: buffer_ok_def)
  moreover have "buffer_ok n (s\<lparr>pos := pos s - 1\<rparr>)" if "pos s \<noteq> 0"
    using assms(1) that by (auto simp: buffer_ok_def)
  ultimately show ?thesis using RemoveItem_runs [of s] p assms(2) by simp
qed

text \<open>What only changes the points of the threads keeps the buffer.\<close>

lemma buffer_ok_threads [simp]:
  "buffer_ok n (s\<lparr>producers := ts\<rparr>) \<longleftrightarrow> buffer_ok n s"
  "buffer_ok n (s\<lparr>consumers := ts\<rparr>) \<longleftrightarrow> buffer_ok n s"
  by (simp_all add: buffer_ok_def)

lemma cv_producer_outcome:
  assumes "buffer_ok n s" and "n < 2 ^ 31" and "cv_producer_step s i woken = Some r"
  shows "case r of Inl e \<Rightarrow> e = Out_Of_Bounds \<and> producers s ! i = At_Buffer \<and> pos s + 1 = int n | Inr s' \<Rightarrow> buffer_ok n s'"
proof (cases "pos s + 1 = int n")
  case True
  then have fails: "InsertItem 65 s = Inl Out_Of_Bounds" using buffer_ok_insert [OF assms(1,2)] by simp
  show ?thesis using True assms by (auto simp: fails cv_producer_step_def split: if_splits cv_pc.splits)
next
  case False
  with assms buffer_ok_insert [OF assms(1,2)] show ?thesis
    by (auto simp: cv_producer_step_def split: if_splits cv_pc.splits)
qed

lemma cv_consumer_outcome:
  assumes "buffer_ok n s" and "n < 2 ^ 31" and "cv_consumer_step s i woken = Some r"
  shows "case r of Inl e \<Rightarrow> e = Uninit_Read \<and> consumers s ! i = At_Buffer \<and> pos s = 0 | Inr s' \<Rightarrow> buffer_ok n s'"
  using assms buffer_ok_remove [OF assms(1,2)]
  by (auto simp: cv_consumer_step_def split: if_splits cv_pc.splits)

lemma buffer_ok_reachable: "cv_reachable n s \<Longrightarrow> 0 < n \<Longrightarrow> n < 2 ^ 31 \<Longrightarrow> buffer_ok n s"
proof (induction rule: cv_reachable.induct)
  case start
  then show ?case by (auto simp: buffer_ok_def prodcon_cv0_def)
next
  case (produce s i woken s')
  then show ?case using cv_producer_outcome [of n s i woken "Inr s'"] by simp
next
  case (consume s i woken s')
  then show ?case using cv_consumer_outcome [of n s i woken "Inr s'"] by simp
qed simp_all

section \<open>Runs that leave the buffer\<close>

text \<open>A run of steps without spurious wake-ups: a producer or a consumer, its number, the thread it wakes.\<close>

datatype side = Producer | Consumer

definition cv_step :: "prodcon_cv \<Rightarrow> side \<Rightarrow> nat \<Rightarrow> nat option \<Rightarrow> prodcon_cv res option" where
  "cv_step s p i woken = (case p of Producer \<Rightarrow> cv_producer_step s i woken | Consumer \<Rightarrow> cv_consumer_step s i woken)"

fun cv_run :: "prodcon_cv \<Rightarrow> (side \<times> nat \<times> nat option) list \<Rightarrow> prodcon_cv res option" where
  "cv_run s [] = Some (Inr s)"
| "cv_run s ((p, i, woken) # es) =
     (case cv_step s p i woken of
        None \<Rightarrow> None
      | Some (Inl e) \<Rightarrow> Some (Inl e)
      | Some (Inr s') \<Rightarrow> cv_run s' es)"

lemma cv_run_append:
  "cv_run s es = Some (Inr s') \<Longrightarrow> cv_run s (es @ fs) = cv_run s' fs"
  by (induction s es rule: cv_run.induct) (auto split: option.splits sum.splits)

text \<open>
  One producer is woken by one consumer after the other, none of which has begun to wait when it signals
  that the buffer may be read.
\<close>

definition woken_round :: "nat \<Rightarrow> (side \<times> nat \<times> nat option) list" where
  "woken_round k = [(Producer, 0, None), (Producer, 0, None), (Consumer, k, Some 0), (Producer, 0, None)]"

definition after_rounds :: "nat \<Rightarrow> nat \<Rightarrow> prodcon_cv \<Rightarrow> bool" where
  "after_rounds n k s \<longleftrightarrow> buffer_ok n s \<and> pos s = int k \<and> producers s = replicate n At_Check \<and>
     consumers s = replicate k Before_Wait @ replicate (n - k) At_Check"

lemma woken_round_runs:
  assumes "after_rounds n k s" and "n < 2 ^ 31" and "k < n"
  shows "if k + 1 = n then cv_run s (woken_round k) = Some (Inl Out_Of_Bounds)
    else \<exists>s'. cv_run s (woken_round k) = Some (Inr s') \<and> after_rounds n (k + 1) s'"
proof -
  obtain m where m: "n = Suc m" using assms(3) by (cases n) auto
  let ?cs = "replicate k Before_Wait @ replicate (n - k) At_Check"
  note a = assms(1) [unfolded after_rounds_def]
  have cs: "?cs ! k = At_Check" "length ?cs = n" "Waiting \<notin> set ?cs"
    "?cs[k := Before_Wait] = replicate (k + 1) Before_Wait @ replicate (n - (k + 1)) At_Check"
    using replicate_next [OF assms(3), of Before_Wait At_Check] assms(3) by auto
  define s1 where "s1 = s\<lparr>producers := At_Buffer # replicate m At_Check, consumers := ?cs[k := Before_Wait]\<rparr>"
  have "cells s = cells s1" "pos s1 = int k" "buffer_ok n s1" using a by (simp_all add: s1_def)
  have len: "length (cells s) = n" using a by (simp add: buffer_ok_def)
  have run: "cv_run s (woken_round k) = cv_run s1 [(Producer, 0, None)]"
    using a cs(1-3) len assms(3) m
    by (simp add: woken_round_def cv_step_def cv_producer_step_def cv_consumer_step_def cond_signal_def s1_def)
  have b: "buffer_ok n s1" using a by (simp add: s1_def)
  show ?thesis
  proof (cases "k + 1 = n")
    case True
    then have "InsertItem 65 s1 = Inl Out_Of_Bounds"
      using buffer_ok_insert [OF b assms(2)] \<open>pos s1 = int k\<close> by auto
    then have "cv_run s1 [(Producer, 0, None)] = Some (Inl Out_Of_Bounds)"
      by (simp add: cv_step_def cv_producer_step_def s1_def)
    with True run show ?thesis by simp
  next
    case False
    then obtain cs where s2: "InsertItem 65 s1 = Inr (s1\<lparr>pos := pos s1 + 1, cells := cs\<rparr>)"
      "buffer_ok n (s1\<lparr>pos := pos s1 + 1, cells := cs\<rparr>)"
      using buffer_ok_insert [OF b assms(2)] \<open>pos s1 = int k\<close> by auto
    let ?s' = "s1\<lparr>pos := pos s1 + 1, cells := cs, producers := replicate n At_Check\<rparr>"
    have "producers s1 = At_Buffer # replicate m At_Check" by (simp add: s1_def)
    then have "cv_run s1 [(Producer, 0, None)] = Some (Inr ?s')"
      using s2(1) m by (simp add: cv_step_def cv_producer_step_def)
    moreover have "consumers s1 = replicate (k + 1) Before_Wait @ replicate (n - (k + 1)) At_Check"
      using cs(4) by (simp add: s1_def)
    then have "after_rounds n (k + 1) ?s'"
      using s2(2) \<open>pos s1 = int k\<close> by (simp add: after_rounds_def)
    ultimately show ?thesis using False run by auto
  qed
qed

lemma rounds_run:
  assumes "k < n" and "n < 2 ^ 31"
  shows "\<exists>es s. cv_run (prodcon_cv0 n) es = Some (Inr s) \<and> after_rounds n k s"
  using assms(1)
proof (induction k)
  case 0
  then show ?case by (intro exI [of _ "[]"]) (auto simp: after_rounds_def prodcon_cv0_def buffer_ok_def)
next
  case (Suc k)
  then obtain es s where es: "cv_run (prodcon_cv0 n) es = Some (Inr s)" "after_rounds n k s" by auto
  with woken_round_runs [OF es(2) assms(2)] Suc.prems cv_run_append [OF es(1), of "woken_round k"] show ?case by force
qed

lemma cv_overflows:
  assumes "0 < n" and "n < 2 ^ 31"
  shows "\<exists>es. cv_run (prodcon_cv0 n) es = Some (Inl Out_Of_Bounds)"
proof -
  obtain es s where es: "cv_run (prodcon_cv0 n) es = Some (Inr s)" "after_rounds n (n - 1) s"
    using rounds_run [of "n - 1" n] assms by auto
  have "cv_run s (woken_round (n - 1)) = Some (Inl Out_Of_Bounds)"
    using woken_round_runs [OF es(2) assms(2)] assms(1) by simp
  with cv_run_append [OF es(1), of "woken_round (n - 1)"] show ?thesis by metis
qed

text \<open>Two producers find the same item and signal a consumer each.\<close>

definition twice_signalled :: "(side \<times> nat \<times> nat option) list" where
  "twice_signalled = [(Producer, 0, None), (Producer, 0, None), (Consumer, 0, Some 0), (Consumer, 0, None),
     (Producer, 0, None), (Consumer, 1, None), (Consumer, 1, None), (Producer, 0, Some 0), (Producer, 1, Some 1),
     (Consumer, 0, None), (Consumer, 1, None)]"

lemma cv_underflows:
  assumes "2 \<le> n" and "n < 2 ^ 31"
  shows "cv_run (prodcon_cv0 n) twice_signalled = Some (Inl Uninit_Read)"
proof -
  obtain m where "n = Suc (Suc m)" using assms(1) by (metis Suc_le_D numeral_2_eq_2 Suc_le_mono)
  then show ?thesis
    by (simp add: twice_signalled_def prodcon_cv0_def cv_step_def cv_producer_step_def cv_consumer_step_def
        cond_signal_def InsertItem_def RemoveItem_def cell_def int32_ok_def)
qed

section \<open>The property\<close>

text \<open>
  C33. The buffer with condition variables. In every reachable state, also with spurious wake-ups,
  \<open>pos\<close> is an index of the buffer and the cells 1 to \<open>pos\<close> hold what producers wrote; a producer fails just when it inserts with
  \<open>pos\<close> at the end, by writing past the buffer, and a consumer just when it removes with \<open>pos\<close> at 0, by
  reading the cell that nothing has written. Nothing excludes either: there are runs without spurious
  wake-ups that end in the first for every size of the buffer, and in the second for every size above 1.
\<close>

theorem prodcon_cv_buffer:
  assumes "0 < n" and "n < 2 ^ 31"
  shows "(\<forall>s. cv_reachable n s \<longrightarrow>
      0 \<le> pos s \<and> pos s < int n \<and> (\<forall>i. 1 \<le> i \<longrightarrow> int i \<le> pos s \<longrightarrow> cells s ! i = Some 65) \<and>
      (\<forall>i woken e. cv_producer_step s i woken = Some (Inl e) \<longleftrightarrow>
        i < length (producers s) \<and> producers s ! i = At_Buffer \<and> pos s + 1 = int n \<and> e = Out_Of_Bounds) \<and>
      (\<forall>i woken e. cv_consumer_step s i woken = Some (Inl e) \<longleftrightarrow>
        i < length (consumers s) \<and> consumers s ! i = At_Buffer \<and> pos s = 0 \<and> e = Uninit_Read)) \<and>
    (\<exists>es. cv_run (prodcon_cv0 n) es = Some (Inl Out_Of_Bounds)) \<and>
    (2 \<le> n \<longrightarrow> (\<exists>es. cv_run (prodcon_cv0 n) es = Some (Inl Uninit_Read)))"
proof (intro conjI allI impI iffI)
  fix s assume r: "cv_reachable n s"
  have b: "buffer_ok n s" by (rule buffer_ok_reachable [OF r assms])
  then show "0 \<le> pos s" "pos s < int n" "\<And>i. 1 \<le> i \<Longrightarrow> int i \<le> pos s \<Longrightarrow> cells s ! i = Some 65"
    by (auto simp: buffer_ok_def)
  fix i woken e
  show "i < length (producers s)" "producers s ! i = At_Buffer" "pos s + 1 = int n" "e = Out_Of_Bounds"
    if "cv_producer_step s i woken = Some (Inl e)"
    using cv_producer_outcome [OF b assms(2) that] that by (auto simp: cv_producer_step_def split: if_splits)
  show "cv_producer_step s i woken = Some (Inl e)"
    if "i < length (producers s) \<and> producers s ! i = At_Buffer \<and> pos s + 1 = int n \<and> e = Out_Of_Bounds"
    using that buffer_ok_insert [OF b assms(2)] by (simp add: cv_producer_step_def)
  show "i < length (consumers s)" "consumers s ! i = At_Buffer" "pos s = 0" "e = Uninit_Read"
    if "cv_consumer_step s i woken = Some (Inl e)"
    using cv_consumer_outcome [OF b assms(2) that] that by (auto simp: cv_consumer_step_def split: if_splits)
  show "cv_consumer_step s i woken = Some (Inl e)"
    if "i < length (consumers s) \<and> consumers s ! i = At_Buffer \<and> pos s = 0 \<and> e = Uninit_Read"
    using that buffer_ok_remove [OF b assms(2)] by (simp add: cv_consumer_step_def)
qed (use cv_overflows [OF assms] cv_underflows [OF _ assms(2)] in blast)+

theorem prodcon_cv_buffer_witness:
  "(\<exists>es. cv_run (prodcon_cv0 3) es = Some (Inl Out_Of_Bounds)) \<and> (\<exists>es. cv_run (prodcon_cv0 3) es = Some (Inl Uninit_Read)) \<and>
    (\<forall>i woken e. cv_consumer_step (prodcon_cv0 3) i woken \<noteq> Some (Inl e))"
proof -
  have "consumers (prodcon_cv0 3) ! i = At_Check" if "i < 3" for i
    using that by (simp add: prodcon_cv0_def)
  moreover have "length (consumers (prodcon_cv0 3)) = 3" by (simp add: prodcon_cv0_def)
  ultimately show ?thesis using prodcon_cv_buffer [of 3] cv_reachable.start [of 3] by auto
qed

end
