(* ===== verification/ProdConScreen.thy ===== *)
theory ProdConScreen imports ProdConCv Decimal "HOL-Library.Signed_Division" begin

text \<open>
  What the producers and consumers of Asmt_5 (prodcon_sem.cpp, prodcon_cv.cpp) draw on the terminal: \<open>main\<close> draws
  an empty buffer, and each insertion and removal draws its item. The terminal is a line of cells with a cursor
  that obeys the control sequences the programs use; the picture it shows is the buffer.
\<close>

section \<open>What is printed\<close>

definition escape :: string where
  "escape = [CHR 0x1B, CHR ''['']"

text \<open>\<open>cout << item\<close> in \<open>InsertItem\<close>, the string of \<open>RemoveItem\<close>, and \<open>DrawEmptyBuffer\<close>.\<close>

definition draw_insert :: "byte \<Rightarrow> string" where
  "draw_insert item = [char_of (unat item)]"

definition draw_remove :: string where
  "draw_remove = escape @ ''1D '' @ escape @ ''1D''"

definition DrawEmptyBuffer :: "int \<Rightarrow> string" where
  "DrawEmptyBuffer bufferlen =
     (let column = (80 - bufferlen) sdiv 2 - 1 in
      newline @ escape @ dec_int column @ ''C'' @ escape @ ''31;44m'' @
      replicate (nat bufferlen) (CHR '' '') @ escape @ dec_int bufferlen @ ''D'')"

text \<open>The steps of the threads with what they print.\<close>

inductive sem_prints :: "prodcon \<Rightarrow> string \<Rightarrow> prodcon \<Rightarrow> bool" where
  produce: "producer_step s = Some (Inr s') \<Longrightarrow>
    sem_prints s (if producer_at s = thread_pc.At_Item then draw_insert 65 else []) s'"
| consume: "consumer_step s = Some (Inr s') \<Longrightarrow>
    sem_prints s (if consumer_at s = thread_pc.At_Item then draw_remove else []) s'"

inductive cv_prints :: "prodcon_cv \<Rightarrow> string \<Rightarrow> prodcon_cv \<Rightarrow> bool" where
  produce: "cv_producer_step s i woken = Some (Inr s') \<Longrightarrow>
    cv_prints s (if producers s ! i = At_Buffer then draw_insert 65 else []) s'"
| consume: "cv_consumer_step s i woken = Some (Inr s') \<Longrightarrow>
    cv_prints s (if consumers s ! i = At_Buffer then draw_remove else []) s'"
| spurious_producer: "cv_spurious (producers s) j = Some ts \<Longrightarrow> cv_prints s [] (s\<lparr>producers := ts\<rparr>)"
| spurious_consumer: "cv_spurious (consumers s) j = Some ts \<Longrightarrow> cv_prints s [] (s\<lparr>consumers := ts\<rparr>)"

inductive drawn :: "('s \<Rightarrow> string \<Rightarrow> 's \<Rightarrow> bool) \<Rightarrow> 's \<Rightarrow> string \<Rightarrow> 's \<Rightarrow> string \<Rightarrow> bool" for step s0 out0 where
  start: "drawn step s0 out0 s0 out0"
| step: "drawn step s0 out0 s out \<Longrightarrow> step s new s' \<Longrightarrow> drawn step s0 out0 s' (out @ new)"

text \<open>
  \<open>main\<close> up to where the threads run: the wrong number of arguments, \<open>new char[bufferlen]\<close> that throws (always
  for a negative length, otherwise as \<open>new_ok\<close> says), or the output and the state in which the threads start. With
  condition variables and no thread at all, \<open>pthread_join\<close> takes a variable that was never written.
\<close>

datatype 's started = Usage | Bad_Alloc | Joins_Uninit | Threads string 's

definition prodcon_sem_main :: "(nat \<Rightarrow> bool) \<Rightarrow> string list \<Rightarrow> prodcon started" where
  "prodcon_sem_main new_ok argv =
     (if length argv \<noteq> 2 then Usage
      else let bufferlen = atoi (argv ! 1) in
        if bufferlen < 0 \<or> \<not> new_ok (nat bufferlen) then Bad_Alloc
        else Threads (DrawEmptyBuffer bufferlen) (prodcon0 (nat bufferlen)))"

definition prodcon_cv_main :: "(nat \<Rightarrow> bool) \<Rightarrow> string list \<Rightarrow> prodcon_cv started" where
  "prodcon_cv_main new_ok argv =
     (if length argv \<noteq> 2 then Usage
      else let bufferlen = atoi (argv ! 1) in
        if bufferlen < 0 \<or> \<not> new_ok (nat bufferlen) then Bad_Alloc
        else if bufferlen = 0 then Joins_Uninit
        else Threads (DrawEmptyBuffer bufferlen) (prodcon_cv0 (nat bufferlen)))"

section \<open>The terminal\<close>

text \<open>
  A line of the terminal, as the standard of the control sequences has it: a newline starts a blank line;
  \<open>CUF\<close> (C) and \<open>CUB\<close> (D) move the cursor by their parameter, where 0 is taken as 1; \<open>SGR\<close> (m) sets the
  colour, which is left out. The lines below are short enough that the width plays no part.
\<close>

datatype term_mode = Ground | After_Esc | In_Csi string

record screen =
  mode :: term_mode
  row :: "nat \<Rightarrow> char"
  col :: nat

definition parameter :: "char \<Rightarrow> bool" where
  "parameter c \<longleftrightarrow> 48 \<le> (of_char c :: nat) \<and> (of_char c :: nat) \<le> 59"

definition control :: "screen \<Rightarrow> string \<Rightarrow> char \<Rightarrow> screen" where
  "control t ps c =
     (let k = max 1 (nat (atoi ps)) in
      t\<lparr>mode := Ground, col := (if c = CHR ''C'' then col t + k else if c = CHR ''D'' then col t - k else col t)\<rparr>)"

definition term_char :: "screen \<Rightarrow> char \<Rightarrow> screen" where
  "term_char t c = (case mode t of
     Ground \<Rightarrow>
       if c = CHR 0x1B then t\<lparr>mode := After_Esc\<rparr>
       else if c = CHR 0x0A then t\<lparr>row := (\<lambda>k. CHR '' ''), col := 0\<rparr>
       else t\<lparr>row := (row t)(col t := c), col := col t + 1\<rparr>
   | After_Esc \<Rightarrow> t\<lparr>mode := (if c = CHR ''['' then In_Csi [] else Ground)\<rparr>
   | In_Csi ps \<Rightarrow> if parameter c then t\<lparr>mode := In_Csi (ps @ [c])\<rparr> else control t ps c)"

definition screen_of :: "string \<Rightarrow> screen" where
  "screen_of out = foldl term_char \<lparr>mode = Ground, row = (\<lambda>k. CHR '' ''), col = 0\<rparr> out"

text \<open>The picture of \<open>p\<close> items: the column where it begins, the items, the cursor behind them.\<close>

definition first_col :: "nat \<Rightarrow> nat" where
  "first_col n = max 1 (nat ((80 - int n) div 2 - 1))"

definition shows_buffer :: "nat \<Rightarrow> int \<Rightarrow> string \<Rightarrow> bool" where
  "shows_buffer n p out \<longleftrightarrow> mode (screen_of out) = Ground \<and> int (col (screen_of out)) = int (first_col n) + p \<and>
     row (screen_of out) = (\<lambda>k. if first_col n \<le> k \<and> int k < int (first_col n) + p then CHR ''A'' else CHR '' '')"

section \<open>Lemmas\<close>

lemma screen_of_append: "screen_of (out @ new) = foldl term_char (screen_of out) new"
  by (simp add: screen_of_def)

lemma term_parameters:
  "\<forall>c \<in> set cs. parameter c \<Longrightarrow> foldl term_char (t\<lparr>mode := In_Csi ps\<rparr>) cs = t\<lparr>mode := In_Csi (ps @ cs)\<rparr>"
  by (induction cs arbitrary: ps) (simp_all add: term_char_def)

lemma term_escape [simp]: "mode t = Ground \<Longrightarrow> foldl term_char t escape = t\<lparr>mode := In_Csi []\<rparr>"
  by (simp add: escape_def term_char_def)

lemma term_control:
  assumes "mode t = Ground" and "\<forall>c \<in> set ps. parameter c" and "\<not> parameter f"
  shows "foldl term_char t (escape @ ps @ [f]) = control t ps f"
proof -
  have "foldl term_char t (escape @ ps @ [f]) = term_char (foldl term_char (t\<lparr>mode := In_Csi []\<rparr>) ps) f"
    using assms(1) by simp
  also have "\<dots> = control t ps f"
    unfolding term_parameters [OF assms(2)] using assms(3) by (simp add: term_char_def control_def Let_def)
  finally show ?thesis .
qed

lemma term_blanks:
  "mode t = Ground \<Longrightarrow> row t = (\<lambda>k. CHR '' '') \<Longrightarrow>
    foldl term_char t (replicate m (CHR '' '')) = t\<lparr>col := col t + m\<rparr>"
  by (induction m arbitrary: t) (auto simp: term_char_def fun_eq_iff)

lemma dec_parameters: "\<forall>c \<in> set (dec k). parameter c"
  using dec_digits by (fastforce simp: parameter_def)

lemma atoi_dec_only: "atoi (dec k) = int k"
  using atoi_dec_int [of "int k"] by (simp add: dec_int_def)

lemma control_simps [simp]:
  "mode (control t ps c) = Ground" "row (control t ps c) = row t"
  "col (control t ps (CHR ''C'')) = col t + max 1 (nat (atoi ps))"
  "col (control t ps (CHR ''D'')) = col t - max 1 (nat (atoi ps))"
  "col (control t ps (CHR ''m'')) = col t"
  by (simp_all add: control_def Let_def)

lemma shows_empty:
  assumes "0 < n" and "n \<le> 78"
  shows "shows_buffer n 0 (DrawEmptyBuffer (int n))"
proof -
  let ?c = "(80 - int n) sdiv 2 - 1"
  have c: "?c = (80 - int n) div 2 - 1" "0 \<le> ?c"
    using assms by (simp_all add: signed_divide_int_def)
  have col: "dec_int ?c = dec (nat ?c)" "dec_int (int n) = dec n" using c(2) by (simp_all add: dec_int_def)
  define t0 where "t0 = \<lparr>mode = Ground, row = (\<lambda>k. CHR '' ''), col = 0 :: nat\<rparr>"
  define t1 where "t1 = control t0 (dec (nat ?c)) (CHR ''C'')"
  define t2 where "t2 = control t1 ''31;44'' (CHR ''m'')"
  define t3 where "t3 = t2\<lparr>col := col t2 + n\<rparr>"
  define t4 where "t4 = control t3 (dec n) (CHR ''D'')"
  have "foldl term_char t0 newline = t0" by (simp add: newline_def t0_def term_char_def)
  moreover have "foldl term_char t0 (escape @ dec (nat ?c) @ ''C'') = t1"
    unfolding t1_def by (rule term_control) (simp_all add: t0_def dec_parameters, simp add: parameter_def)
  moreover have "foldl term_char t1 (escape @ ''31;44'' @ ''m'') = t2"
    unfolding t2_def by (rule term_control) (simp_all add: t1_def, simp_all add: parameter_def)
  moreover have "foldl term_char t2 (replicate n (CHR '' '')) = t3"
    unfolding t3_def by (rule term_blanks) (simp_all add: t2_def t1_def t0_def)
  moreover have "foldl term_char t3 (escape @ dec n @ ''D'') = t4"
    unfolding t4_def by (rule term_control) (simp_all add: t3_def t2_def dec_parameters, simp add: parameter_def)
  moreover have "DrawEmptyBuffer (int n) = newline @ (escape @ dec (nat ?c) @ ''C'') @ (escape @ ''31;44'' @ ''m'') @
      replicate n (CHR '' '') @ (escape @ dec n @ ''D'')"
    by (simp only: DrawEmptyBuffer_def Let_def col) simp
  ultimately have "screen_of (DrawEmptyBuffer (int n)) = t4"
    by (simp only: screen_of_def foldl_append t0_def [symmetric])
  moreover have "mode t4 = Ground" "row t4 = (\<lambda>k. CHR '' '')" by (simp_all add: t4_def t3_def t2_def t1_def t0_def)
  moreover have "col t4 = first_col n"
    using assms(1) c by (simp add: t4_def t3_def t2_def t1_def t0_def atoi_dec_only first_col_def)
  ultimately show ?thesis by (auto simp: shows_buffer_def)
qed

lemma shows_insert:
  assumes "shows_buffer n p out" and "0 \<le> p"
  shows "shows_buffer n (p + 1) (out @ draw_insert 65)"
proof -
  let ?t = "screen_of out"
  note a = assms(1) [unfolded shows_buffer_def]
  have "draw_insert 65 = ''A''" unfolding draw_insert_def by code_simp
  then have "screen_of (out @ draw_insert 65) = ?t\<lparr>row := (row ?t)(col ?t := CHR ''A''), col := col ?t + 1\<rparr>"
    using a by (simp add: screen_of_append term_char_def)
  moreover have "int k < int (first_col n) + p + 1 \<longleftrightarrow> int k < int (first_col n) + p \<or> k = col ?t" for k using a by linarith
  moreover have "first_col n \<le> col ?t" using a assms(2) by linarith
  ultimately show ?thesis using a by (auto simp: shows_buffer_def fun_eq_iff)
qed

lemma shows_remove:
  assumes "shows_buffer n p out" and "1 \<le> p"
  shows "shows_buffer n (p - 1) (out @ draw_remove)"
proof -
  let ?t = "screen_of out"
  note a = assms(1) [unfolded shows_buffer_def]
  have c1: "foldl term_char t (escape @ ''1'' @ ''D'') = control t ''1'' (CHR ''D'')" if "mode t = Ground" for t
    using term_control [OF that, of "''1''" "CHR ''D''"] by (simp add: parameter_def)
  have one: "atoi ''1'' = 1" by code_simp
  have parts: "draw_remove = (escape @ ''1'' @ ''D'') @ '' '' @ (escape @ ''1'' @ ''D'')" by (simp add: draw_remove_def)
  define t1 where "t1 = control ?t ''1'' (CHR ''D'')"
  define t2 where "t2 = t1\<lparr>row := (row t1)(col t1 := CHR '' ''), col := col t1 + 1\<rparr>"
  have "foldl term_char ?t (escape @ ''1'' @ ''D'') = t1" unfolding t1_def by (rule c1) (use a in simp)
  moreover have "foldl term_char t1 '' '' = t2" by (simp add: t2_def t1_def term_char_def)
  moreover have "foldl term_char t2 (escape @ ''1'' @ ''D'') = control t2 ''1'' (CHR ''D'')"
    by (rule c1) (simp add: t2_def t1_def)
  ultimately have "screen_of (out @ draw_remove) = control t2 ''1'' (CHR ''D'')"
    by (simp only: screen_of_append parts foldl_append [of _ _ "escape @ ''1'' @ ''D''"] foldl_append [of _ _ "'' ''"])
  moreover have "int k < int (first_col n) + (p - 1) \<longleftrightarrow> int k < int (first_col n) + p \<and> k \<noteq> col ?t - 1" for k
    using a assms(2) by (auto simp: of_nat_diff)
  ultimately show ?thesis using a assms(2) by (auto simp: shows_buffer_def fun_eq_iff t2_def t1_def one)
qed

section \<open>The picture is the buffer\<close>

text \<open>What both programs keep: each step draws how it moves \<open>pos\<close>, which stays an index of the buffer.\<close>

locale drawn_buffer =
  fixes step :: "'s \<Rightarrow> string \<Rightarrow> 's \<Rightarrow> bool" and at_pos :: "'s \<Rightarrow> int" and ok :: "nat \<Rightarrow> 's \<Rightarrow> bool"
  assumes keeps: "ok n s \<Longrightarrow> 0 < n \<Longrightarrow> n < 2 ^ 31 \<Longrightarrow> step s new s' \<Longrightarrow> ok n s'"
    and in_buffer: "ok n s \<Longrightarrow> 0 \<le> at_pos s"
    and draws: "step s new s' \<Longrightarrow> new = [] \<and> at_pos s' = at_pos s \<or>
      new = draw_insert 65 \<and> at_pos s' = at_pos s + 1 \<or> new = draw_remove \<and> at_pos s' = at_pos s - 1"
begin

lemma picture:
  assumes "drawn step s0 (DrawEmptyBuffer (int n)) s out" and "ok n s0" and "at_pos s0 = 0" and "0 < n" and "n \<le> 78"
  shows "ok n s \<and> shows_buffer n (at_pos s) out"
  using assms(1)
proof (induction rule: drawn.induct)
  case start
  with assms(2-5) shows_empty show ?case by simp
next
  case (step s out new s')
  have ok: "ok n s'" using keeps [of n s new s'] step.IH step.hyps(2) assms(4,5) by simp
  then have "0 \<le> at_pos s" "0 \<le> at_pos s'" using in_buffer step.IH by auto
  with draws [OF step.hyps(2)] ok step.IH shows_insert [of n "at_pos s" out] shows_remove [of n "at_pos s" out]
  show ?case by auto
qed

end

lemma insert_pos: "InsertItem x s = Inr s' \<Longrightarrow> pos s' = pos s + 1"
  by (auto simp: InsertItem_def res_simps c_int_def split: if_splits)

lemma remove_pos: "RemoveItem s = Inr (x, s') \<Longrightarrow> pos s' = pos s - 1"
  by (auto simp: RemoveItem_def res_simps c_int_def split: if_splits option.splits)

lemma prodcon0_pos [simp]: "pos (prodcon0 n) = 0" "pos (prodcon_cv0 n) = 0"
  by (simp_all add: prodcon0_def prodcon_cv0_def)

interpretation sem_screen: drawn_buffer sem_prints pos prodcon_inv
proof
  fix n s new s' assume "prodcon_inv n s" "n < 2 ^ 31" "sem_prints s new s'"
  then show "prodcon_inv n s'"
    by (auto elim!: sem_prints.cases intro: producer_step_inv consumer_step_inv)
next
  fix n s assume "prodcon_inv n s" then show "0 \<le> pos s" by (simp add: prodcon_inv_def)
next
  fix s new s' assume "sem_prints s new s'"
  then show "new = [] \<and> pos s' = pos s \<or> new = draw_insert 65 \<and> pos s' = pos s + 1 \<or> new = draw_remove \<and> pos s' = pos s - 1"
  proof cases
    case produce
    then show ?thesis by (cases "producer_at s") (auto simp: producer_step_def res_simps dest: insert_pos)
  next
    case consume
    then show ?thesis by (cases "consumer_at s") (auto simp: consumer_step_def res_simps dest: remove_pos)
  qed
qed

interpretation cv_screen: drawn_buffer cv_prints pos buffer_ok
proof
  fix n s new s' assume "buffer_ok n s" "n < 2 ^ 31" "cv_prints s new s'"
  then show "buffer_ok n s'"
    by (auto elim!: cv_prints.cases dest: cv_producer_outcome cv_consumer_outcome)
next
  fix n s assume "buffer_ok n (s :: prodcon_cv)" then show "0 \<le> pos s" by (simp add: buffer_ok_def)
next
  fix s new s' assume "cv_prints s new s'"
  then show "new = [] \<and> pos s' = pos s \<or> new = draw_insert 65 \<and> pos s' = pos s + 1 \<or> new = draw_remove \<and> pos s' = pos s - 1"
  proof cases
    case (produce i woken)
    then show ?thesis
      by (cases "producers s ! i") (auto simp: cv_producer_step_def res_simps split: if_splits dest: insert_pos)
  next
    case (consume i woken)
    then show ?thesis
      by (cases "consumers s ! i") (auto simp: cv_consumer_step_def res_simps split: if_splits dest: remove_pos)
  qed auto
qed

text \<open>
  C34. What the programs draw is their buffer: if \<open>main\<close> starts the threads with a buffer of 1 to 78 cells, then after
  any run, of one producer and one consumer with semaphores or of many with condition variables, the line on the
  terminal shows as many items as the buffer holds, from the column where the empty buffer was drawn, nothing else,
  and the cursor stands behind the last of them.
\<close>

theorem prodcon_picture:
  assumes "n = nat (atoi (argv ! 1))" and "1 \<le> n" and "n \<le> 78"
  shows "(prodcon_sem_main new_ok argv = Threads out0 s0 \<and> drawn sem_prints s0 out0 s out \<longrightarrow>
      shows_buffer n (pos s) out \<and> (\<forall>i. 1 \<le> i \<and> int i \<le> pos s \<longrightarrow> cells s ! i = Some 65)) \<and>
    (prodcon_cv_main new_ok argv = Threads out0 t0 \<and> drawn cv_prints t0 out0 t out \<longrightarrow>
      shows_buffer n (pos t) out \<and> (\<forall>i. 1 \<le> i \<and> int i \<le> pos t \<longrightarrow> cells t ! i = Some 65))"
proof (intro conjI impI; elim conjE)
  have n: "int n = atoi (argv ! 1)" "0 < n" using assms(1,2) by simp_all
  {
    assume "prodcon_sem_main new_ok argv = Threads out0 s0" and d: "drawn sem_prints s0 out0 s out"
    then have "out0 = DrawEmptyBuffer (int n)" "s0 = prodcon0 n"
      using n assms(1) by (auto simp: prodcon_sem_main_def Let_def split: if_splits)
    then have "prodcon_inv n s \<and> shows_buffer n (pos s) out"
      using sem_screen.picture [OF _ prodcon_inv_start, of n s out] d n(2) assms(3) prodcon0_pos by simp
    then show "shows_buffer n (pos s) out" "\<forall>i. 1 \<le> i \<and> int i \<le> pos s \<longrightarrow> cells s ! i = Some 65"
      by (auto simp: prodcon_inv_def)
  next
    assume "prodcon_cv_main new_ok argv = Threads out0 t0" and d: "drawn cv_prints t0 out0 t out"
    then have "out0 = DrawEmptyBuffer (int n)" "t0 = prodcon_cv0 n"
      using n assms(1) by (auto simp: prodcon_cv_main_def Let_def split: if_splits)
    moreover have "buffer_ok n (prodcon_cv0 n)"
      using buffer_ok_reachable [OF cv_reachable.start n(2)] assms(3) by simp
    ultimately have "buffer_ok n t \<and> shows_buffer n (pos t) out"
      using cv_screen.picture [of "prodcon_cv0 n" n t out] d n(2) assms(3) prodcon0_pos by simp
    then show "shows_buffer n (pos t) out" "\<forall>i. 1 \<le> i \<and> int i \<le> pos t \<longrightarrow> cells t ! i = Some 65"
      by (auto simp: buffer_ok_def)
  }
qed

text \<open>The first item in a buffer of three cells: the program with semaphores shows it in column 38.\<close>

theorem prodcon_picture_witness:
  "\<exists>out0 s0 s out. prodcon_sem_main (\<lambda>n. True) [''prodcon'', ''3''] = Threads out0 s0 \<and> drawn sem_prints s0 out0 s out \<and>
    pos s = 1 \<and> shows_buffer 3 1 out \<and> row (screen_of out) 37 = CHR ''A'' \<and> row (screen_of out) 38 = CHR '' ''"
proof -
  have n: "atoi ''3'' = 3" by code_simp
  then have main: "prodcon_sem_main (\<lambda>n. True) [''prodcon'', ''3''] = Threads (DrawEmptyBuffer 3) (prodcon0 3)"
    by (simp add: prodcon_sem_main_def)
  define s1 where "s1 = (prodcon0 3)\<lparr>canWrite := 2, producer_at := thread_pc.At_Item\<rparr>"
  define s2 where "s2 = s1\<lparr>pos := 1, cells := [None, Some 65, None], producer_at := At_Post\<rparr>"
  have p: "producer_step (prodcon0 3) = Some (Inr s1)" "producer_step s1 = Some (Inr s2)"
    by (simp_all add: producer_step_def prodcon0_def sem_wait_def s1_def s2_def InsertItem_def cell_def int32_ok_def
        numeral_3_eq_3)
  have "sem_prints (prodcon0 3) [] s1" "sem_prints s1 (draw_insert 65) s2"
    using sem_prints.produce [OF p(1)] sem_prints.produce [OF p(2)] by (simp_all add: prodcon0_def s1_def)
  note steps = this
  have d: "drawn sem_prints (prodcon0 3) (DrawEmptyBuffer 3) s2 ((DrawEmptyBuffer 3 @ []) @ draw_insert 65)"
    by (rule drawn.step, rule drawn.step, rule drawn.start, rule steps, rule steps)
  note d = this [unfolded append_Nil2]
  have pos: "pos s2 = 1" by (simp add: s2_def)
  have "shows_buffer 3 1 (DrawEmptyBuffer 3 @ draw_insert 65)"
    using prodcon_picture [of 3 "[''prodcon'', ''3'']" "\<lambda>n. True" "DrawEmptyBuffer 3" "prodcon0 3" s2] n main d pos by simp
  moreover from this have "row (screen_of (DrawEmptyBuffer 3 @ draw_insert 65)) 37 = CHR ''A''"
    "row (screen_of (DrawEmptyBuffer 3 @ draw_insert 65)) 38 = CHR '' ''"
    by (simp_all add: shows_buffer_def first_col_def)
  ultimately show ?thesis using main d pos by blast
qed

text \<open>For longer buffers the column of the empty buffer is negative, which is no parameter of a control sequence.\<close>

lemma long_buffer_column: "78 < n \<Longrightarrow> (80 - int n) sdiv 2 - 1 < 0"
  by (cases "n \<le> 80") (auto simp: signed_divide_int_def sgn_if le_less_Suc_eq)

end
