(* ===== verification/Water.thy ===== *)
theory Water imports Prelude begin

text \<open>
  The water molecules of Asmt_5 (h2o_sem.cpp): each atom is a thread that runs \<open>H\<close> or \<open>O\<close> and
  meets the others at semaphores. The first of each two hydrogen atoms waits for the second, which
  waits for an oxygen atom and then releases both.

  A thread is at a point of its function; a semaphore operation and a section under the mutex are
  one step. Printing takes no step of its own; an atom at \<open>Water_Made\<close> has come to its line
  \<open>Water\<close>. The number of atoms is an \<open>int\<close> argument of \<open>main\<close>, so \<open>num_h\<close> stays in its range.
\<close>

section \<open>State and operations\<close>

datatype atom =
    H_Created
  | H_First
  | H_Second
  | H_Post_H2
  | H_Post_Both
  | H_First_Water
  | H_Second_Water
  | O_Created
  | O_Wait
  | O_Water

record water =
  atoms :: "atom list"
  num_h :: nat
  o_avail :: nat
  h2_avail :: nat
  h_both_avail :: nat

definition water0 :: water where
  "water0 = \<lparr>atoms = [], num_h = 0, o_avail = 0, h2_avail = 0, h_both_avail = 0\<rparr>"

text \<open>\<open>main\<close> creates an atom: \<open>rand\<close> decides between \<open>H\<close> and \<open>O\<close>.\<close>

definition CreateAtom :: "water \<Rightarrow> bool \<Rightarrow> water" where
  "CreateAtom s is_h = s\<lparr>atoms := atoms s @ [if is_h then H_Created else O_Created]\<rparr>"

definition moved :: "water \<Rightarrow> nat \<Rightarrow> atom \<Rightarrow> water" where
  "moved s i a = s\<lparr>atoms := (atoms s)[i := a]\<rparr>"

text \<open>One step of \<open>H\<close>; \<open>None\<close> when the atom is blocked or has ended.\<close>

definition H_step :: "water \<Rightarrow> nat \<Rightarrow> water option" where
  "H_step s i = (case atoms s ! i of
     H_Created \<Rightarrow>
       Some (moved (s\<lparr>num_h := num_h s + 1\<rparr>) i (if num_h s mod 2 = 0 then H_First else H_Second))
   | H_First \<Rightarrow>
       if h2_avail s > 0 then Some (moved (s\<lparr>h2_avail := h2_avail s - 1\<rparr>) i H_First_Water) else None
   | H_Second \<Rightarrow>
       if o_avail s > 0 then Some (moved (s\<lparr>o_avail := o_avail s - 1\<rparr>) i H_Post_H2) else None
   | H_Post_H2 \<Rightarrow> Some (moved (s\<lparr>h2_avail := h2_avail s + 1\<rparr>) i H_Post_Both)
   | H_Post_Both \<Rightarrow> Some (moved (s\<lparr>h_both_avail := h_both_avail s + 1\<rparr>) i H_Second_Water)
   | _ \<Rightarrow> None)"

definition O_step :: "water \<Rightarrow> nat \<Rightarrow> water option" where
  "O_step s i = (case atoms s ! i of
     O_Created \<Rightarrow> Some (moved (s\<lparr>o_avail := o_avail s + 1\<rparr>) i O_Wait)
   | O_Wait \<Rightarrow>
       if h_both_avail s > 0 then Some (moved (s\<lparr>h_both_avail := h_both_avail s - 1\<rparr>) i O_Water) else None
   | _ \<Rightarrow> None)"

definition atom_step :: "water \<Rightarrow> nat \<Rightarrow> water option" where
  "atom_step s i =
     (if i < length (atoms s) then (case H_step s i of None \<Rightarrow> O_step s i | Some s' \<Rightarrow> Some s') else None)"

inductive water_reachable :: "water \<Rightarrow> bool" where
  start: "water_reachable water0"
| create: "water_reachable s \<Longrightarrow> water_reachable (CreateAtom s is_h)"
| act: "water_reachable s \<Longrightarrow> atom_step s i = Some s' \<Longrightarrow> water_reachable s'"

section \<open>The invariant\<close>

text \<open>How many atoms are at one of the points \<open>A\<close>.\<close>

definition count_at :: "water \<Rightarrow> atom set \<Rightarrow> nat" where
  "count_at s A = length (filter (\<lambda>a. a \<in> A) (atoms s))"

lemma at_moved:
  assumes "i < length (atoms s)"
  shows "count_at (moved s i a) A + (if atoms s ! i \<in> A then 1 else 0) = count_at s A + (if a \<in> A then 1 else 0)"
  using filter_update [OF assms, of "\<lambda>a. a \<in> A" a] by (simp add: count_at_def moved_def)

lemma at_other [simp]:
  "count_at (s\<lparr>num_h := n\<rparr>) A = count_at s A" "count_at (s\<lparr>o_avail := n\<rparr>) A = count_at s A" "count_at (s\<lparr>h2_avail := n\<rparr>) A = count_at s A"
  "count_at (s\<lparr>h_both_avail := n\<rparr>) A = count_at s A"
  by (simp_all add: count_at_def)

lemma moved_fields [simp]:
  "num_h (moved s i a) = num_h s" "o_avail (moved s i a) = o_avail s" "h2_avail (moved s i a) = h2_avail s"
  "h_both_avail (moved s i a) = h_both_avail s" "length (atoms (moved s i a)) = length (atoms s)"
  by (simp_all add: moved_def)

text \<open>The permits: what was posted is available or was taken.\<close>

definition water_inv :: "water \<Rightarrow> bool" where
  "water_inv s \<longleftrightarrow>
     count_at s {H_First, H_First_Water} = (num_h s + 1) div 2 \<and>
     count_at s {H_Second, H_Post_H2, H_Post_Both, H_Second_Water} = num_h s div 2 \<and>
     o_avail s + count_at s {H_Post_H2, H_Post_Both, H_Second_Water} = count_at s {O_Wait, O_Water} \<and>
     h2_avail s + count_at s {H_First_Water} = count_at s {H_Post_Both, H_Second_Water} \<and>
     h_both_avail s + count_at s {O_Water} = count_at s {H_Second_Water}"

lemma water_inv_start: "water_inv water0"
  by (simp add: water_inv_def water0_def count_at_def)

lemma water_inv_create: "water_inv s \<Longrightarrow> water_inv (CreateAtom s is_h)"
  by (simp add: water_inv_def CreateAtom_def count_at_def)

lemma count_moved:
  assumes "i < length (atoms s)" and "atoms t = atoms s"
  shows "count_at (moved t i a) A + (if atoms s ! i \<in> A then 1 else 0) = count_at s A + (if a \<in> A then 1 else 0)"
proof -
  have "count_at t A = count_at s A" using assms(2) by (simp add: count_at_def)
  then show ?thesis using at_moved [of i t a A] assms by simp
qed

lemma counts_moved:
  assumes "i < length (atoms s)" and "atoms t = atoms s"
  shows "count_at (moved t i a) {H_First, H_First_Water} + (if atoms s ! i \<in> {H_First, H_First_Water} then 1 else 0) =
      count_at s {H_First, H_First_Water} + (if a \<in> {H_First, H_First_Water} then 1 else 0)"
    and "count_at (moved t i a) {H_Second, H_Post_H2, H_Post_Both, H_Second_Water} +
      (if atoms s ! i \<in> {H_Second, H_Post_H2, H_Post_Both, H_Second_Water} then 1 else 0) =
      count_at s {H_Second, H_Post_H2, H_Post_Both, H_Second_Water} +
      (if a \<in> {H_Second, H_Post_H2, H_Post_Both, H_Second_Water} then 1 else 0)"
    and "count_at (moved t i a) {H_Post_H2, H_Post_Both, H_Second_Water} +
      (if atoms s ! i \<in> {H_Post_H2, H_Post_Both, H_Second_Water} then 1 else 0) =
      count_at s {H_Post_H2, H_Post_Both, H_Second_Water} + (if a \<in> {H_Post_H2, H_Post_Both, H_Second_Water} then 1 else 0)"
    and "count_at (moved t i a) {O_Wait, O_Water} + (if atoms s ! i \<in> {O_Wait, O_Water} then 1 else 0) =
      count_at s {O_Wait, O_Water} + (if a \<in> {O_Wait, O_Water} then 1 else 0)"
    and "count_at (moved t i a) {H_First_Water} + (if atoms s ! i \<in> {H_First_Water} then 1 else 0) =
      count_at s {H_First_Water} + (if a \<in> {H_First_Water} then 1 else 0)"
    and "count_at (moved t i a) {H_Post_Both, H_Second_Water} + (if atoms s ! i \<in> {H_Post_Both, H_Second_Water} then 1 else 0) =
      count_at s {H_Post_Both, H_Second_Water} + (if a \<in> {H_Post_Both, H_Second_Water} then 1 else 0)"
    and "count_at (moved t i a) {O_Water} + (if atoms s ! i \<in> {O_Water} then 1 else 0) =
      count_at s {O_Water} + (if a \<in> {O_Water} then 1 else 0)"
    and "count_at (moved t i a) {H_Second_Water} + (if atoms s ! i \<in> {H_Second_Water} then 1 else 0) =
      count_at s {H_Second_Water} + (if a \<in> {H_Second_Water} then 1 else 0)"
  by (rule count_moved [OF assms])+

lemma water_inv_step:
  assumes inv: "water_inv s" and "atom_step s i = Some s'"
  shows "water_inv s'"
proof -
  have i: "i < length (atoms s)" using assms(2) by (auto simp: atom_step_def split: if_splits)
  note inv = inv [unfolded water_inv_def]
  show ?thesis
  proof (cases "atoms s ! i")
    case H_Created
    define t where "t = s\<lparr>num_h := num_h s + 1\<rparr>"
    define a where "a = (if num_h s mod 2 = 0 then H_First else H_Second)"
    have s': "s' = moved t i a"
      using assms(2) i H_Created by (simp add: atom_step_def H_step_def t_def a_def)
    have "atoms t = atoms s" by (simp add: t_def)
    note c = counts_moved [OF i this, of a]
    show ?thesis
    proof (cases "num_h s mod 2 = 0")
      case True
      then have "(num_h s + 1 + 1) div 2 = (num_h s + 1) div 2 + 1" "(num_h s + 1) div 2 = num_h s div 2"
        by presburger+
      with True inv c H_Created show ?thesis by (simp add: water_inv_def s' t_def a_def)
    next
      case False
      then have "(num_h s + 1 + 1) div 2 = (num_h s + 1) div 2" "(num_h s + 1) div 2 = num_h s div 2 + 1"
        by presburger+
      with False inv c H_Created show ?thesis by (simp add: water_inv_def s' t_def a_def)
    qed
  next
    case H_First
    let ?t = "s\<lparr>h2_avail := h2_avail s - 1\<rparr>"
    have "s' = moved ?t i H_First_Water" "h2_avail s > 0"
      using assms(2) i H_First by (auto simp: atom_step_def H_step_def O_step_def split: if_splits)
    with inv counts_moved [OF i, of ?t H_First_Water] H_First show ?thesis by (simp add: water_inv_def)
  next
    case H_Second
    let ?t = "s\<lparr>o_avail := o_avail s - 1\<rparr>"
    have "s' = moved ?t i H_Post_H2" "o_avail s > 0"
      using assms(2) i H_Second by (auto simp: atom_step_def H_step_def O_step_def split: if_splits)
    with inv counts_moved [OF i, of ?t H_Post_H2] H_Second show ?thesis by (simp add: water_inv_def)
  next
    case H_Post_H2
    let ?t = "s\<lparr>h2_avail := h2_avail s + 1\<rparr>"
    have "s' = moved ?t i H_Post_Both"
      using assms(2) i H_Post_H2 by (auto simp: atom_step_def H_step_def)
    with inv counts_moved [OF i, of ?t H_Post_Both] H_Post_H2 show ?thesis by (simp add: water_inv_def)
  next
    case H_Post_Both
    let ?t = "s\<lparr>h_both_avail := h_both_avail s + 1\<rparr>"
    have "s' = moved ?t i H_Second_Water"
      using assms(2) i H_Post_Both by (auto simp: atom_step_def H_step_def)
    with inv counts_moved [OF i, of ?t H_Second_Water] H_Post_Both show ?thesis by (simp add: water_inv_def)
  next
    case O_Created
    let ?t = "s\<lparr>o_avail := o_avail s + 1\<rparr>"
    have "s' = moved ?t i O_Wait"
      using assms(2) i O_Created by (auto simp: atom_step_def H_step_def O_step_def)
    with inv counts_moved [OF i, of ?t O_Wait] O_Created show ?thesis by (simp add: water_inv_def)
  next
    case O_Wait
    let ?t = "s\<lparr>h_both_avail := h_both_avail s - 1\<rparr>"
    have "s' = moved ?t i O_Water" "h_both_avail s > 0"
      using assms(2) i O_Wait by (auto simp: atom_step_def H_step_def O_step_def split: if_splits)
    with inv counts_moved [OF i, of ?t O_Water] O_Wait show ?thesis by (simp add: water_inv_def)
  qed (use assms(2) i in \<open>simp_all add: atom_step_def H_step_def O_step_def\<close>)
qed

end
