(* ===== verification/WaterProps.thy ===== *)
theory WaterProps imports Water begin

text \<open>The properties of the water molecules: no atom is used twice, and none is left that could be used.\<close>

lemma water_inv_reachable: "water_reachable s \<Longrightarrow> water_inv s"
  by (induction rule: water_reachable.induct)
    (auto intro: water_inv_start water_inv_create water_inv_step)

text \<open>The hydrogen and the oxygen atoms that were created.\<close>

definition hydrogen :: "water \<Rightarrow> nat" where
  "hydrogen s = count_at s {H_Created, H_First, H_Second, H_Post_H2, H_Post_Both, H_First_Water, H_Second_Water}"

definition oxygen :: "water \<Rightarrow> nat" where
  "oxygen s = count_at s {O_Created, O_Wait, O_Water}"

lemma count_at_insert: "a \<notin> A \<Longrightarrow> count_at s (insert a A) = count_at s {a} + count_at s A"
proof -
  assume a: "a \<notin> A"
  have "length (filter (\<lambda>b. b \<in> insert a A) xs) =
      length (filter (\<lambda>b. b \<in> {a}) xs) + length (filter (\<lambda>b. b \<in> A) xs)" for xs
    using a by (induction xs) auto
  then show ?thesis by (simp add: count_at_def)
qed

lemma count_at_0: "(\<And>i. i < length (atoms s) \<Longrightarrow> atoms s ! i \<notin> A) \<Longrightarrow> count_at s A = 0"
  by (auto simp: count_at_def in_set_conv_nth filter_empty_conv)

lemmas count_at_split = count_at_insert [of _ "insert _ _"] count_at_insert [of _ "{_}"]

text \<open>
  C35. Atoms are matched properly: in every reachable state the oxygen atoms that have made water
  are at most the second hydrogen atoms that have, these are at most the oxygen atoms that
  have arrived, and each first hydrogen atom that has made water belongs to a second one that
  has passed its oxygen. So no atom is part of two molecules: there are at most as many
  waters of each kind as oxygen atoms, and as pairs of hydrogen atoms.
\<close>

theorem water_matched:
  assumes "water_reachable s"
  shows "count_at s {O_Water} \<le> count_at s {H_Second_Water} \<and>
    count_at s {H_First_Water} \<le> count_at s {H_Post_Both, H_Second_Water} \<and>
    count_at s {H_Post_Both, H_Second_Water} \<le> min (oxygen s) (hydrogen s div 2)"
proof (intro conjI)
  have inv: "water_inv s" by (rule water_inv_reachable [OF assms])
  then show "count_at s {O_Water} \<le> count_at s {H_Second_Water}"
    "count_at s {H_First_Water} \<le> count_at s {H_Post_Both, H_Second_Water}"
    by (simp_all add: water_inv_def)
  have "hydrogen s = count_at s {H_Created} + count_at s {H_First, H_First_Water} +
      count_at s {H_Second, H_Post_H2, H_Post_Both, H_Second_Water}"
    by (simp add: hydrogen_def count_at_split)
  then have "num_h s \<le> hydrogen s" using inv by (simp add: water_inv_def)
  then have "num_h s div 2 \<le> hydrogen s div 2" by (rule div_le_mono)
  then have "count_at s {H_Post_Both, H_Second_Water} \<le> hydrogen s div 2"
    using inv by (simp add: water_inv_def count_at_split)
  moreover have "count_at s {H_Post_Both, H_Second_Water} \<le> oxygen s"
    using inv by (simp add: water_inv_def oxygen_def count_at_split)
  ultimately show "count_at s {H_Post_Both, H_Second_Water} \<le> min (oxygen s) (hydrogen s div 2)" by simp
qed

text \<open>The steps that an atom has left.\<close>

primrec atom_left :: "atom \<Rightarrow> nat" where
  "atom_left H_Created = 4"
| "atom_left H_First = 1"
| "atom_left H_Second = 3"
| "atom_left H_Post_H2 = 2"
| "atom_left H_Post_Both = 1"
| "atom_left H_First_Water = 0"
| "atom_left H_Second_Water = 0"
| "atom_left O_Created = 2"
| "atom_left O_Wait = 1"
| "atom_left O_Water = 0"

definition steps_left :: "water \<Rightarrow> nat" where
  "steps_left s = sum_list (map atom_left (atoms s))"

lemma steps_left_moved:
  assumes "i < length (atoms s)" and "atom_left a < atom_left (atoms s ! i)" and "atoms t = atoms s"
  shows "steps_left (moved t i a) < steps_left s"
proof -
  obtain l b r where "atoms s = l @ b # r" "length l = i"
    using id_take_nth_drop [OF assms(1)] assms(1) by (metis length_take min.absorb4)
  then show ?thesis using assms by (auto simp: steps_left_def moved_def)
qed

lemma steps_left_step:
  assumes "atom_step s i = Some s'"
  shows "steps_left s' < steps_left s"
proof -
  have i: "i < length (atoms s)" using assms by (auto simp: atom_step_def split: if_splits)
  have "\<exists>t a. s' = moved t i a \<and> atoms t = atoms s \<and> atom_left a < atom_left (atoms s ! i)"
  proof (cases "atoms s ! i")
    case H_Created
    then show ?thesis using assms i
      by (auto simp: atom_step_def H_step_def intro!: exI [of _ "s\<lparr>num_h := num_h s + 1\<rparr>"] exI)
  qed (use assms i in \<open>auto simp: atom_step_def H_step_def O_step_def split: if_splits intro!: exI\<close>)
  with steps_left_moved [OF i] show ?thesis by blast
qed

text \<open>An atom that cannot take a step is at its end or at a semaphore without permits.\<close>

lemma stuck_atom:
  assumes "atom_step s i = None" and "i < length (atoms s)"
  shows "atoms s ! i \<notin> {H_Created, H_Post_H2, H_Post_Both, O_Created} \<and>
    (atoms s ! i = H_First \<longrightarrow> h2_avail s = 0) \<and> (atoms s ! i = H_Second \<longrightarrow> o_avail s = 0) \<and>
    (atoms s ! i = O_Wait \<longrightarrow> h_both_avail s = 0)"
  using assms by (cases "atoms s ! i") (auto simp: atom_step_def H_step_def O_step_def split: if_splits)

text \<open>When no atom can take a step, all the water that can be made has been made.\<close>

lemma stuck_water:
  assumes "water_reachable s" and "\<forall>i. atom_step s i = None"
  shows "count_at s {O_Water} = min (oxygen s) (hydrogen s div 2)"
    and "count_at s {H_First_Water} = min (oxygen s) (hydrogen s div 2)"
    and "count_at s {H_Second_Water} = min (oxygen s) (hydrogen s div 2)"
proof -
  have inv: "water_inv s" by (rule water_inv_reachable [OF assms(1)])
  have none: "atom_step s i = None" for i using assms(2) by blast
  note stuck = stuck_atom [OF none]
  have gone: "count_at s {H_Created} = 0" "count_at s {H_Post_H2} = 0" "count_at s {H_Post_Both} = 0"
    "count_at s {O_Created} = 0"
    using stuck by (auto intro!: count_at_0)
  have blocked: "h2_avail s = 0 \<or> count_at s {H_First} = 0" "o_avail s = 0 \<or> count_at s {H_Second} = 0"
    "h_both_avail s = 0 \<or> count_at s {O_Wait} = 0"
    using stuck by (auto intro!: count_at_0)
  have first: "count_at s {H_First} + count_at s {H_First_Water} = (num_h s + 1) div 2"
    and second: "count_at s {H_Second} + count_at s {H_Second_Water} = num_h s div 2"
    and o: "o_avail s + count_at s {H_Second_Water} = oxygen s"
    and h2: "h2_avail s + count_at s {H_First_Water} = count_at s {H_Second_Water}"
    and both: "h_both_avail s + count_at s {O_Water} = count_at s {H_Second_Water}"
    and o2: "oxygen s = count_at s {O_Wait} + count_at s {O_Water}"
    using inv by (simp_all only: water_inv_def count_at_split gone oxygen_def insert_iff empty_iff atom.simps
      simp_thms add_0 not_False_eq_True)
  have "hydrogen s = (num_h s + 1) div 2 + num_h s div 2"
    using first second by (simp add: hydrogen_def count_at_split gone)
  then have h: "hydrogen s = num_h s" by presburger
  have made: "count_at s {H_Second_Water} = min (oxygen s) (num_h s div 2)"
    using second o blocked(2) by linarith
  have "num_h s div 2 \<le> (num_h s + 1) div 2" by (rule div_le_mono) simp
  then have "count_at s {H_First_Water} = count_at s {H_Second_Water}"
    using first second h2 blocked(1) by linarith
  moreover have "count_at s {O_Water} = count_at s {H_Second_Water}"
    using o both o2 blocked(3) by linarith
  ultimately show "count_at s {O_Water} = min (oxygen s) (hydrogen s div 2)"
    "count_at s {H_First_Water} = min (oxygen s) (hydrogen s div 2)"
    "count_at s {H_Second_Water} = min (oxygen s) (hydrogen s div 2)"
    using made h by simp_all
qed

text \<open>
  C36. All the water that can be made is made: every step of an atom brings the atoms closer to their
  end, so they stop after at most four steps each; and when none can take a step, exactly as
  many molecules were made as there are oxygen atoms, or pairs of hydrogen atoms if these are
  fewer, and each consists of one first and one second hydrogen atom and an oxygen atom.
\<close>

theorem water_complete:
  assumes "water_reachable s"
  shows "steps_left s \<le> 4 * length (atoms s) \<and>
    (\<forall>i s'. atom_step s i = Some s' \<longrightarrow> steps_left s' < steps_left s) \<and>
    ((\<forall>i. atom_step s i = None) \<longrightarrow>
      count_at s {O_Water} = min (oxygen s) (hydrogen s div 2) \<and>
      count_at s {H_First_Water} = min (oxygen s) (hydrogen s div 2) \<and>
      count_at s {H_Second_Water} = min (oxygen s) (hydrogen s div 2))"
proof (intro conjI allI impI)
  have "atom_left a \<le> 4" for a by (cases a) auto
  then have "sum_list (map atom_left xs) \<le> 4 * length xs" for xs by (induction xs) (auto simp: add_le_mono)
  then show "steps_left s \<le> 4 * length (atoms s)" by (simp add: steps_left_def)
  show "steps_left s' < steps_left s" if "atom_step s i = Some s'" for i s'
    using that by (rule steps_left_step)
qed (use stuck_water [OF assms] in auto)

text \<open>Two hydrogen atoms and an oxygen atom: the second hydrogen atom comes before the oxygen.\<close>

definition water_example :: water where
  "water_example = foldl (\<lambda>s i. case atom_step s i of None \<Rightarrow> s | Some s' \<Rightarrow> s')
     (CreateAtom (CreateAtom (CreateAtom water0 True) False) True) [0, 0, 2, 2, 1, 2, 2, 2, 0, 1, 1]"

lemma water_example_state:
  "water_example = \<lparr>atoms = [H_First_Water, O_Water, H_Second_Water], num_h = 2, o_avail = 0, h2_avail = 0, h_both_avail = 0\<rparr>"
  by code_simp

lemma water_reachable_run:
  "water_reachable s \<Longrightarrow>
    water_reachable (foldl (\<lambda>s i. case atom_step s i of None \<Rightarrow> s | Some s' \<Rightarrow> s') s js)"
  by (induction js arbitrary: s) (auto split: option.split intro: water_reachable.act)

lemma water_example_reachable: "water_reachable water_example"
  unfolding water_example_def by (intro water_reachable_run water_reachable.intros)

lemma water_matched_witness:
  "count_at water_example {O_Water} \<le> count_at water_example {H_Second_Water} \<and> water_reachable water_example"
  using water_matched [OF water_example_reachable] water_example_reachable by blast

lemma water_complete_witness:
  "count_at water_example {O_Water} = 1 \<and> count_at water_example {H_First_Water} = 1 \<and>
    (\<forall>i. atom_step water_example i = None)"
proof -
  have none: "\<forall>i. atom_step water_example i = None"
    by (auto simp: water_example_state atom_step_def H_step_def O_step_def nth_Cons' numeral_3_eq_3 less_Suc_eq)
  have "min (oxygen water_example) (hydrogen water_example div 2) = 1" by code_simp
  then show ?thesis using water_complete [OF water_example_reachable] none by auto
qed

end
