(* ===== verification/WaterStats.thy ===== *)
theory WaterStats imports StatsLines WaterProps begin

text \<open>
  What h2o_stats.cpp counts in the output of h2o_sem.cpp. The water is run together with its log: an atom prints
  the line of its creation before its first step, and its line \<open>Water\<close> once it has come to it; other atoms may
  take steps and print between. The end of \<open>main\<close>, a second after the last atom was created, is left out.
\<close>

section \<open>The log of the atoms\<close>

text \<open>\<open>told\<close> has the number of lines that each atom has printed.\<close>

record water_log =
  water_of :: water
  told :: "nat list"
  water_lines :: "(int \<times> string) list"

definition water_log0 :: water_log where
  "water_log0 = \<lparr>water_of = water0, told = [], water_lines = []\<rparr>"

definition create_atom :: "water_log \<Rightarrow> bool \<Rightarrow> water_log" where
  "create_atom w is_h = w\<lparr>water_of := CreateAtom (water_of w) is_h, told := told w @ [0]\<rparr>"

text \<open>The line that an atom at \<open>a\<close> that has printed \<open>n\<close> lines prints next.\<close>

definition atom_line :: "atom \<Rightarrow> nat \<Rightarrow> string option" where
  "atom_line a n =
     (if a = H_Created \<and> n = 0 then Some ''H Created''
      else if a = O_Created \<and> n = 0 then Some ''O Created''
      else if a \<in> {H_First_Water, H_Second_Water, O_Water} \<and> n = 1 then Some ''Water''
      else None)"

definition print_line :: "water_log \<Rightarrow> nat \<Rightarrow> water_log option" where
  "print_line w i =
     (if i < length (told w)
      then map_option (\<lambda>l. w\<lparr>told := (told w)[i := told w ! i + 1], water_lines := water_lines w @ [(int i, l)]\<rparr>)
        (atom_line (atoms (water_of w) ! i) (told w ! i))
      else None)"

definition logged_step :: "water_log \<Rightarrow> nat \<Rightarrow> water_log option" where
  "logged_step w i =
     (if i < length (told w) \<and> told w ! i > 0
      then map_option (\<lambda>s. w\<lparr>water_of := s\<rparr>) (atom_step (water_of w) i) else None)"

inductive water_logged :: "water_log \<Rightarrow> bool" where
  start: "water_logged water_log0"
| create: "water_logged w \<Longrightarrow> water_logged (create_atom w is_h)"
| print: "water_logged w \<Longrightarrow> print_line w i = Some w' \<Longrightarrow> water_logged w'"
| act: "water_logged w \<Longrightarrow> logged_step w i = Some w' \<Longrightarrow> water_logged w'"

lemma water_logged_reachable: "water_logged w \<Longrightarrow> water_reachable (water_of w)"
  by (induction rule: water_logged.induct)
    (auto simp: water_log0_def create_atom_def print_line_def logged_step_def split: if_splits
      intro: water_reachable.intros)

section \<open>The lines count the atoms\<close>

definition h_points :: "atom set" where
  "h_points = {H_Created, H_First, H_Second, H_Post_H2, H_Post_Both, H_First_Water, H_Second_Water}"

definition o_points :: "atom set" where
  "o_points = {O_Created, O_Wait, O_Water}"

definition water_points :: "atom set" where
  "water_points = {H_First_Water, H_Second_Water, O_Water}"

lemmas points_defs = h_points_def o_points_def water_points_def

text \<open>The atoms with the lines that they have printed.\<close>

definition told_atoms :: "water_log \<Rightarrow> (atom \<times> nat) list" where
  "told_atoms w = zip (atoms (water_of w)) (told w)"

definition told_count :: "water_log \<Rightarrow> (atom \<times> nat \<Rightarrow> bool) \<Rightarrow> nat" where
  "told_count w P = length (filter P (told_atoms w))"

definition line_count :: "water_log \<Rightarrow> string \<Rightarrow> nat" where
  "line_count w a = length (filter (\<lambda>l. snd l = a) (water_lines w))"

definition told_ok :: "atom \<times> nat \<Rightarrow> bool" where
  "told_ok x \<longleftrightarrow> snd x \<le> 2 \<and> (snd x = 0 \<longrightarrow> fst x \<in> {H_Created, O_Created}) \<and> (snd x = 2 \<longrightarrow> fst x \<in> water_points)"

definition log_inv :: "water_log \<Rightarrow> bool" where
  "log_inv w \<longleftrightarrow> length (told w) = length (atoms (water_of w)) \<and> (\<forall>x \<in> set (told_atoms w). told_ok x) \<and>
     line_count w ''H Created'' = told_count w (\<lambda>x. snd x > 0 \<and> fst x \<in> h_points) \<and>
     line_count w ''O Created'' = told_count w (\<lambda>x. snd x > 0 \<and> fst x \<in> o_points) \<and>
     line_count w ''Water'' = told_count w (\<lambda>x. snd x = 2) \<and>
     (\<forall>l \<in> set (water_lines w). 0 \<le> fst l \<and> fst l < int (length (told w)) \<and> CHR 0x0A \<notin> set (snd l))"

lemma all_update: "\<forall>x \<in> set xs. P x \<Longrightarrow> P y \<Longrightarrow> \<forall>x \<in> set (xs[i := y]). P x"
  using set_update_subset_insert [of xs i y] by auto

lemma log_inv_start: "log_inv water_log0"
  by (simp add: log_inv_def water_log0_def water0_def told_atoms_def told_count_def line_count_def)

lemma log_inv_create:
  assumes "log_inv w"
  shows "log_inv (create_atom w is_h)"
proof -
  have "told_atoms (create_atom w is_h) = told_atoms w @ [(if is_h then H_Created else O_Created, 0)]"
    using assms by (simp add: told_atoms_def create_atom_def CreateAtom_def log_inv_def)
  with assms show ?thesis
    by (auto simp: log_inv_def told_count_def line_count_def create_atom_def CreateAtom_def told_ok_def)
qed

lemma told_update:
  assumes "i < length (told_atoms w)" and "told_atoms w' = (told_atoms w)[i := y]"
  shows "told_count w' P + (if P (told_atoms w ! i) then 1 else 0) = told_count w P + (if P y then 1 else 0)"
  using filter_update [OF assms(1), of P y] assms(2) by (simp add: told_count_def)

lemma log_inv_print:
  assumes inv: "log_inv w" and step: "print_line w i = Some w'"
  shows "log_inv w'"
proof -
  obtain l where i: "i < length (told w)" and l: "atom_line (atoms (water_of w) ! i) (told w ! i) = Some l"
    and w': "w' = w\<lparr>told := (told w)[i := told w ! i + 1], water_lines := water_lines w @ [(int i, l)]\<rparr>"
    using step by (auto simp: print_line_def split: if_splits)
  have len: "length (told w) = length (atoms (water_of w))" using inv by (simp add: log_inv_def)
  have i': "i < length (told_atoms w)" using i len by (simp add: told_atoms_def)
  have ti: "told_atoms w ! i = (atoms (water_of w) ! i, told w ! i)"
    using i len by (simp add: told_atoms_def)
  have t: "told_atoms w' = (told_atoms w)[i := (atoms (water_of w) ! i, told w ! i + 1)]"
    using i len by (simp add: told_atoms_def w' zip_update [symmetric])
  have "told_ok (atoms (water_of w) ! i, told w ! i + 1)"
    using l by (auto simp: told_ok_def atom_line_def points_defs split: if_splits)
  then have ok: "\<forall>x \<in> set (told_atoms w'). told_ok x"
    unfolding t using inv by (intro all_update) (simp_all add: log_inv_def)
  have lines: "line_count w' a = line_count w a + (if l = a then 1 else 0)" for a
    by (simp add: line_count_def w')
  note c = told_update [OF i' t]
  have "line_count w' ''H Created'' = told_count w' (\<lambda>x. snd x > 0 \<and> fst x \<in> h_points)"
    using c [of "\<lambda>x. snd x > 0 \<and> fst x \<in> h_points"] inv l
    by (auto simp: log_inv_def lines atom_line_def points_defs ti split: if_splits)
  moreover have "line_count w' ''O Created'' = told_count w' (\<lambda>x. snd x > 0 \<and> fst x \<in> o_points)"
    using c [of "\<lambda>x. snd x > 0 \<and> fst x \<in> o_points"] inv l
    by (auto simp: log_inv_def lines atom_line_def points_defs ti split: if_splits)
  moreover have "line_count w' ''Water'' = told_count w' (\<lambda>x. snd x = 2)"
    using c [of "\<lambda>x. snd x = 2"] inv l
    by (auto simp: log_inv_def lines atom_line_def points_defs ti split: if_splits)
  ultimately show ?thesis using ok inv i l len
    by (auto simp: log_inv_def w' atom_line_def split: if_splits)
qed

lemma atom_step_atoms:
  assumes "atom_step s i = Some s'"
  shows "i < length (atoms s) \<and> atoms s ! i \<notin> water_points \<and>
    (\<exists>a. atoms s' = (atoms s)[i := a] \<and> a \<notin> {H_Created, O_Created} \<and>
      (a \<in> h_points \<longleftrightarrow> atoms s ! i \<in> h_points) \<and> (a \<in> o_points \<longleftrightarrow> atoms s ! i \<in> o_points))"
proof -
  have i: "i < length (atoms s)" using assms by (auto simp: atom_step_def split: if_splits)
  then show ?thesis using assms
    by (cases "atoms s ! i")
      (auto simp: atom_step_def H_step_def O_step_def moved_def points_defs split: if_splits intro!: exI)
qed

lemma log_inv_act:
  assumes inv: "log_inv w" and step: "logged_step w i = Some w'"
  shows "log_inv w'"
proof -
  obtain s where i: "i < length (told w)" "told w ! i > 0" and s: "atom_step (water_of w) i = Some s"
    and w': "w' = w\<lparr>water_of := s\<rparr>"
    using step by (auto simp: logged_step_def split: if_splits)
  obtain a where a: "atoms s = (atoms (water_of w))[i := a]" "a \<notin> {H_Created, O_Created}"
    "a \<in> h_points \<longleftrightarrow> atoms (water_of w) ! i \<in> h_points" "a \<in> o_points \<longleftrightarrow> atoms (water_of w) ! i \<in> o_points"
    and before: "atoms (water_of w) ! i \<notin> water_points"
    using atom_step_atoms [OF s] by blast
  have len: "length (told w) = length (atoms (water_of w))" using inv by (simp add: log_inv_def)
  have i': "i < length (told_atoms w)" using i len by (simp add: told_atoms_def)
  have ti: "told_atoms w ! i = (atoms (water_of w) ! i, told w ! i)"
    using i len by (simp add: told_atoms_def)
  have "told_ok (atoms (water_of w) ! i, told w ! i)"
    using inv i' ti nth_mem [of i "told_atoms w"] by (auto simp: log_inv_def)
  with before i(2) have one: "told w ! i = 1" by (auto simp: told_ok_def)
  have t: "told_atoms w' = (told_atoms w)[i := (a, 1)]"
    using i len one list_update_id [of "told w" i] by (simp add: told_atoms_def w' a(1) zip_update [symmetric])
  have ok: "\<forall>x \<in> set (told_atoms w'). told_ok x"
    unfolding t using inv a(2) by (intro all_update) (simp_all add: log_inv_def told_ok_def)
  note c = told_update [OF i' t]
  have "told_count w' P = told_count w P" if "P (a, 1) = P (told_atoms w ! i)" for P
    using c [of P] that by (auto split: if_splits)
  then have "told_count w' (\<lambda>x. snd x > 0 \<and> fst x \<in> h_points) = told_count w (\<lambda>x. snd x > 0 \<and> fst x \<in> h_points)"
    "told_count w' (\<lambda>x. snd x > 0 \<and> fst x \<in> o_points) = told_count w (\<lambda>x. snd x > 0 \<and> fst x \<in> o_points)"
    "told_count w' (\<lambda>x. snd x = 2) = told_count w (\<lambda>x. snd x = 2)"
    using a(3,4) one ti by simp_all
  with ok inv len show ?thesis by (simp add: log_inv_def w' a(1) line_count_def)
qed

lemma log_inv_logged: "water_logged w \<Longrightarrow> log_inv w"
  by (induction rule: water_logged.induct)
    (blast intro: log_inv_start log_inv_create log_inv_print log_inv_act)+

section \<open>What is counted\<close>

text \<open>h2o_stats.cpp counts the atoms and, for three lines \<open>Water\<close>, one molecule.\<close>

definition atoms_counted :: "'t stats_env \<Rightarrow> 't atom_stats \<Rightarrow> ('t \<times> int \<times> string) list \<Rightarrow> 't atom_stats \<Rightarrow> bool" where
  "atoms_counted env s es s' \<longleftrightarrow>
     num_atoms s' = num_atoms s + entry_count es ''H Created'' + entry_count es ''O Created'' \<and>
     num_h_atoms s' = num_h_atoms s + entry_count es ''H Created'' \<and>
     num_o_atoms s' = num_o_atoms s + entry_count es ''O Created'' \<and>
     num_water s' = num_water s + entry_count es ''Water''"

interpretation atoms: entry_reader atom_entry atoms_counted
proof unfold_locales
  fix env :: "'t stats_env" and s :: "'t atom_stats" and t and i :: int and action
  assume "stats_env_good env" "0 \<le> i" "i < 2 ^ 31"
  then obtain v where "grow env (atom_times s) i = Some v" using grow_ok by blast
  then show "\<exists>s'. atom_entry env s t i action = Some s' \<and> atoms_counted env s [(t, i, action)] s'"
    by (simp add: atom_entry_def atoms_counted_def entry_count_def)
qed (simp_all add: atoms_counted_def entry_count_def)

lemma atom_stats_log:
  assumes "stats_env_good env" and "log_ok ts ls"
  shows "\<exists>st. readStream env (atom_entry env) (atom_stats0 env) (log_text ts ls) = Some st \<and>
    (let n = (\<lambda>a. length (filter (\<lambda>l. snd l = a) ls)) in
     atom_printStats st = [n ''H Created'' + n ''O Created'', n ''H Created'', n ''O Created'', n ''Water'' div 3])"
proof -
  obtain st where "readStream env (atom_entry env) (atom_stats0 env) (log_text ts ls) = Some st"
    "atoms_counted env (atom_stats0 env) (log_entries env ts ls) st"
    using atoms.reads_log [OF assms] by blast
  then show ?thesis using assms(2)
    by (simp add: atoms_counted_def atom_stats0_def atom_printStats_def log_ok_def Let_def)
qed

lemma told_count_mono:
  assumes "\<And>x. x \<in> set (told_atoms w) \<Longrightarrow> P x \<Longrightarrow> Q x"
  shows "told_count w P \<le> told_count w Q"
proof -
  have "length (filter P xs) \<le> length (filter Q xs)" if "\<forall>x \<in> set xs. P x \<longrightarrow> Q x" for xs
    using that by (induction xs) auto
  with assms show ?thesis by (simp add: told_count_def)
qed

lemma told_count_at:
  assumes "log_inv w"
  shows "told_count w (\<lambda>x. fst x \<in> A) = count_at (water_of w) A"
proof -
  have "length xs = length ys \<Longrightarrow> length (filter (\<lambda>x. fst x \<in> A) (zip xs ys)) = length (filter (\<lambda>a. a \<in> A) xs)"
    for xs :: "atom list" and ys :: "nat list"
    by (induction xs ys rule: list_induct2) auto
  with assms show ?thesis by (simp add: told_count_def told_atoms_def count_at_def log_inv_def)
qed

lemmas at_points = count_at_insert [of _ "insert _ _"] count_at_insert [of _ "{_}"]

lemma told_bounds:
  assumes inv: "log_inv w" and water: "water_inv (water_of w)"
  shows "line_count w ''H Created'' \<le> hydrogen (water_of w)"
    and "line_count w ''O Created'' \<le> oxygen (water_of w)"
    and "line_count w ''Water'' \<le> 3 * min (line_count w ''O Created'') (line_count w ''H Created'' div 2)"
proof -
  let ?s = "water_of w"
  note at = told_count_at [OF inv] and inv' = inv [unfolded log_inv_def]
  have "line_count w ''H Created'' \<le> told_count w (\<lambda>x. fst x \<in> h_points)"
    using inv' by (auto intro!: told_count_mono)
  then show "line_count w ''H Created'' \<le> hydrogen ?s" by (simp only: at hydrogen_def h_points_def)
  have "line_count w ''O Created'' \<le> told_count w (\<lambda>x. fst x \<in> o_points)"
    using inv' by (auto intro!: told_count_mono)
  then show "line_count w ''O Created'' \<le> oxygen ?s" by (simp only: at oxygen_def o_points_def)
  have "told_count w (\<lambda>x. fst x \<in> {O_Wait, O_Water}) \<le> line_count w ''O Created''"
    using inv' by (auto simp: told_ok_def o_points_def intro!: told_count_mono)
  moreover have "told_count w (\<lambda>x. fst x \<in> h_points - {H_Created}) \<le> line_count w ''H Created''"
    using inv' by (auto simp: told_ok_def h_points_def intro!: told_count_mono)
  moreover have "line_count w ''Water'' \<le> told_count w (\<lambda>x. fst x \<in> water_points)"
    using inv' by (auto simp: told_ok_def intro!: told_count_mono)
  moreover have "h_points - {H_Created} = {H_First, H_Second, H_Post_H2, H_Post_Both, H_First_Water, H_Second_Water}"
    by (auto simp: h_points_def)
  ultimately have o: "count_at ?s {O_Wait, O_Water} \<le> line_count w ''O Created''"
    and h: "count_at ?s {H_First, H_Second, H_Post_H2, H_Post_Both, H_First_Water, H_Second_Water} \<le> line_count w ''H Created''"
    and n: "line_count w ''Water'' \<le> count_at ?s {H_First_Water, H_Second_Water, O_Water}"
    by (simp_all only: at water_points_def)
  have "num_h ?s \<le> line_count w ''H Created''"
  proof -
    have "Suc n div 2 + n div 2 = n" for n :: nat by presburger
    from this [of "num_h ?s"] show ?thesis using h water by (auto simp: water_inv_def at_points)
  qed
  then have "num_h ?s div 2 \<le> line_count w ''H Created'' div 2" by (rule div_le_mono)
  moreover have "count_at ?s {H_First_Water, H_Second_Water, O_Water} \<le> 3 * min (count_at ?s {O_Wait, O_Water}) (num_h ?s div 2)"
    using water by (auto simp: water_inv_def at_points min_def)
  ultimately show "line_count w ''Water'' \<le> 3 * min (line_count w ''O Created'') (line_count w ''H Created'' div 2)"
    using o n by linarith
qed

text \<open>When no atom has anything to print or to do, every atom has printed its lines.\<close>

definition all_done :: "water_log \<Rightarrow> bool" where
  "all_done w \<longleftrightarrow> (\<forall>i. print_line w i = None \<and> logged_step w i = None)"

lemma done_lines:
  assumes inv: "log_inv w" and reach: "water_reachable (water_of w)" and d: "all_done w"
  shows "line_count w ''H Created'' = hydrogen (water_of w)"
    and "line_count w ''O Created'' = oxygen (water_of w)"
    and "line_count w ''Water'' = 3 * min (oxygen (water_of w)) (hydrogen (water_of w) div 2)"
proof -
  note at = told_count_at [OF inv] and inv' = inv [unfolded log_inv_def]
  have told: "snd x > 0 \<and> (fst x \<in> water_points \<longleftrightarrow> snd x = 2)" if x: "x \<in> set (told_atoms w)" for x
  proof -
    obtain i where i: "i < length (told w)" "x = (atoms (water_of w) ! i, told w ! i)"
      using x inv' by (auto simp: told_atoms_def in_set_zip)
    have "print_line w i = None" using d by (simp add: all_done_def)
    then have "atom_line (fst x) (snd x) = None" using i by (simp add: print_line_def)
    moreover have "told_ok x" using inv' x by blast
    ultimately show ?thesis
      by (cases "snd x = 1") (auto simp: atom_line_def told_ok_def water_points_def split: if_splits)
  qed
  have eq: "told_count w P = told_count w Q" if "\<And>x. x \<in> set (told_atoms w) \<Longrightarrow> P x = Q x" for P Q
    using that by (simp add: told_count_def cong: filter_cong)
  have "told_count w (\<lambda>x. snd x > 0 \<and> fst x \<in> h_points) = told_count w (\<lambda>x. fst x \<in> h_points)"
    "told_count w (\<lambda>x. snd x > 0 \<and> fst x \<in> o_points) = told_count w (\<lambda>x. fst x \<in> o_points)"
    "told_count w (\<lambda>x. snd x = 2) = told_count w (\<lambda>x. fst x \<in> water_points)"
    by (rule eq; use told in auto)+
  then have counts: "line_count w ''H Created'' = count_at (water_of w) h_points"
    "line_count w ''O Created'' = count_at (water_of w) o_points"
    "line_count w ''Water'' = count_at (water_of w) water_points"
    using inv' by (simp_all only: at)
  then show "line_count w ''H Created'' = hydrogen (water_of w)" "line_count w ''O Created'' = oxygen (water_of w)"
    by (simp_all add: hydrogen_def oxygen_def h_points_def o_points_def)
  have "atom_step (water_of w) i = None" for i
  proof (cases "i < length (told w)")
    case True
    then have "(atoms (water_of w) ! i, told w ! i) \<in> set (told_atoms w)"
      using inv' nth_mem [of i "told_atoms w"] by (simp add: told_atoms_def)
    from told [OF this] have "told w ! i > 0" by simp
    moreover have "logged_step w i = None" using d by (simp add: all_done_def)
    ultimately show ?thesis using True by (simp add: logged_step_def)
  next
    case False
    then show ?thesis using inv' by (simp add: atom_step_def)
  qed
  with stuck_water [OF reach] counts(3)
  show "line_count w ''Water'' = 3 * min (oxygen (water_of w)) (hydrogen (water_of w) div 2)"
    by (simp add: water_points_def at_points)
qed

section \<open>Properties\<close>

text \<open>
  C37. What the checker prints about the water: given what the simulation has printed at any moment, with any times,
  on its standard input, it reads every line; the atoms of each kind that it counts are among those that were created, and it never counts
  more molecules than can be made of the atoms counted. When every atom has come to its end or waits forever,
  it counts all atoms and all molecules that can be made of them.
\<close>

theorem water_stats_counts:
  assumes "water_logged w" and "length (told w) \<le> 2 ^ 31" and "stats_env_good env"
    and "length ts = length (water_lines w)" and "\<forall>t \<in> set ts. time_text t"
  shows "\<exists>st h ow m. atom_stats_main env files (log_text ts (water_lines w)) [] = Stats st \<and>
    atom_printStats st = [h + ow, h, ow, m] \<and>
    h \<le> hydrogen (water_of w) \<and> ow \<le> oxygen (water_of w) \<and> m \<le> min ow (h div 2) \<and>
    (all_done w \<longrightarrow> h = hydrogen (water_of w) \<and> ow = oxygen (water_of w) \<and> m = min ow (h div 2))"
proof -
  have inv: "log_inv w" and reach: "water_reachable (water_of w)"
    using assms(1) log_inv_logged water_logged_reachable by blast+
  have "log_ok ts (water_lines w)"
    using inv assms(2,4,5) by (fastforce simp: log_ok_def log_inv_def ids_ok_def)
  from atom_stats_log [OF assms(3) this] obtain st where
    st: "readStream env (atom_entry env) (atom_stats0 env) (log_text ts (water_lines w)) = Some st"
    "atom_printStats st = [line_count w ''H Created'' + line_count w ''O Created'', line_count w ''H Created'',
       line_count w ''O Created'', line_count w ''Water'' div 3]"
    by (auto simp: line_count_def Let_def)
  note b = told_bounds [OF inv water_inv_reachable [OF reach]]
  have "line_count w ''Water'' div 3 \<le> min (line_count w ''O Created'') (line_count w ''H Created'' div 2)"
    using b(3) by linarith
  moreover have "atom_stats_main env files (log_text ts (water_lines w)) [] = Stats st"
    using st(1) by (simp add: atom_stats_main_def atom_readStream_def stats_main_stdin)
  ultimately show ?thesis using st(2) b(1,2) done_lines [OF inv reach] by auto
qed

text \<open>Two hydrogen atoms and an oxygen atom, to their end: each step is the printing or else the move of an atom.\<close>

definition log_step :: "water_log \<Rightarrow> nat \<Rightarrow> water_log" where
  "log_step w i = (case print_line w i of
     Some w' \<Rightarrow> w' | None \<Rightarrow> (case logged_step w i of Some w' \<Rightarrow> w' | None \<Rightarrow> w))"

definition ex_water_log :: water_log where
  "ex_water_log = foldl log_step (create_atom (create_atom (create_atom water_log0 True) False) True)
     [0, 1, 0, 2, 2, 1, 2, 2, 2, 2, 0, 0, 1, 1]"

lemma log_step_logged: "water_logged w \<Longrightarrow> water_logged (log_step w i)"
  by (auto simp: log_step_def split: option.splits intro: water_logged.intros)

lemma log_steps_logged: "water_logged w \<Longrightarrow> water_logged (foldl log_step w js)"
  by (induction js arbitrary: w) (simp_all add: log_step_logged)

lemma ex_water_log_logged: "water_logged ex_water_log"
  unfolding ex_water_log_def by (rule log_steps_logged [OF water_logged.create [OF water_logged.create [OF
      water_logged.create [OF water_logged.start]]]])

lemma ex_water_log_state:
  "ex_water_log = \<lparr>water_of = water_example, told = [2, 2, 2],
     water_lines = [(0, ''H Created''), (1, ''O Created''), (2, ''H Created''), (2, ''Water''), (0, ''Water''), (1, ''Water'')]\<rparr>"
  by code_simp

theorem water_stats_counts_witness:
  "\<exists>st. atom_stats_main ex_stats_env (\<lambda>name. None)
      (log_text (replicate 6 ''0.25'') (water_lines ex_water_log)) [] = Stats st \<and> atom_printStats st = [3, 2, 1, 1]"
proof -
  have "all_done ex_water_log"
    unfolding all_done_def
  proof
    fix i :: nat
    consider "i = 0" | "i = 1" | "i = 2" | "3 \<le> i" by linarith
    then show "print_line ex_water_log i = None \<and> logged_step ex_water_log i = None"
    proof cases
      case 4
      then show ?thesis by (simp add: print_line_def logged_step_def ex_water_log_state)
    qed (hypsubst, code_simp)+
  qed
  moreover have "hydrogen (water_of ex_water_log) = 2" "oxygen (water_of ex_water_log) = 1"
    by code_simp+
  ultimately show ?thesis
    using water_stats_counts [OF ex_water_log_logged _ ex_stats_env_good, of "replicate 6 ''0.25''" "\<lambda>name. None"]
    by (auto simp: ex_water_log_state time_text_def)
qed

end
