(* ===== verification/StatsOutput.thy ===== *)
theory StatsOutput imports StatsLines begin

text \<open>
  What the programs that read the output of a simulation (whales_stats.cc, h2o_stats.cpp, philosophers_stats.cc)
  print on the standard output: the lines that they read, with the option -o, and their counts at the end. How a
  float prints is a parameter. The handler of SIGINT, which may print the counts in the middle of a line, is left out.
\<close>

section \<open>printStats\<close>

text \<open>\<open>show_float\<close>: what \<open>cout << t\<close> prints; \<open>show_ratio t n\<close>: what \<open>cout << t / n\<close> prints.\<close>

record 't out_env =
  show_float :: "'t \<Rightarrow> string"
  show_ratio :: "'t \<Rightarrow> nat \<Rightarrow> string"

definition count_lines :: "string list \<Rightarrow> nat list \<Rightarrow> string" where
  "count_lines labels ns = concat (map2 (\<lambda>l n. l @ dec n @ newline) labels ns)"

definition whale_text :: "'t out_env \<Rightarrow> 't whale_stats \<Rightarrow> string" where
  "whale_text env s =
     newline @ newline @
     count_lines [''Total Whales: '', ''Total Males: '', ''Total Females: '', ''Total MatchMakers: '', ''Total Matches: '',
       ''Total # Copulations: ''] (whale_printStats s) @
     ''Average Time To Mate: '' @ show_ratio env (total_time_to_mate s) (2 * num_mated s) @ newline"

definition atom_text :: "'t out_env \<Rightarrow> 't atom_stats \<Rightarrow> string" where
  "atom_text env s =
     newline @ newline @
     count_lines [''Total Atoms: '', ''Total H: '', ''Total O: '', ''Total Water Molecules: ''] (atom_printStats s) @
     ''Average Time To Water: '' @ show_ratio env (total_time_to_water s) (num_water s) @ newline"

definition phil_times :: "'t out_env \<Rightarrow> 't list \<Rightarrow> string" where
  "phil_times env ts =
     concat (map (\<lambda>i. ''philosopher '' @ dec i @ '': '' @ show_float env (ts ! i) @ newline) [0..<length ts])"

definition phil_text :: "'t out_env \<Rightarrow> 't phil_stats \<Rightarrow> string" where
  "phil_text env s =
     newline @ newline @ ''Total Thinking Times: '' @ newline @ phil_times env (thinkingTimes s) @
     newline @ newline @ ''Total Hungry Times: '' @ newline @ phil_times env (hungryTimes s) @
     newline @ newline @ ''Total Eating Times: '' @ newline @ phil_times env (eatingTimes s)"

section \<open>The loop that reads and echoes\<close>

text \<open>The output so far and the counts; no counts after an exception.\<close>

primrec echo_lines ::
  "'t stats_env \<Rightarrow> ('s \<Rightarrow> 't \<Rightarrow> int \<Rightarrow> string \<Rightarrow> 's option) \<Rightarrow> bool \<Rightarrow> string list \<Rightarrow> string \<Rightarrow> 's \<Rightarrow> string \<times> 's option" where
  "echo_lines env entry_step showOutput [] out s = (out, Some s)"
| "echo_lines env entry_step showOutput (line # ls) out s =
     (let out' = out @ (if showOutput then line @ newline else []) in
      case parse_line env line of
        None \<Rightarrow> (out', None)
      | Some No_Entry \<Rightarrow> echo_lines env entry_step showOutput ls out' s
      | Some (Entry t i action) \<Rightarrow>
          (case entry_step s t i action of
             None \<Rightarrow> (out', None)
           | Some s' \<Rightarrow> echo_lines env entry_step showOutput ls out' s'))"

text \<open>\<open>main\<close> with its stream: \<open>readStream\<close>, then \<open>printStats\<close>; whether it ends without an exception.\<close>

definition stats_output ::
  "'t stats_env \<Rightarrow> ('s \<Rightarrow> 't \<Rightarrow> int \<Rightarrow> string \<Rightarrow> 's option) \<Rightarrow> ('s \<Rightarrow> string) \<Rightarrow> bool \<Rightarrow> 's \<Rightarrow> string \<Rightarrow> string \<times> bool" where
  "stats_output env entry_step printStats showOutput s fin =
     (case echo_lines env entry_step showOutput (stream_lines fin) [] s of
        (out, None) \<Rightarrow> (out, False)
      | (out, Some s') \<Rightarrow> (out @ printStats s', True))"

section \<open>Lemmas\<close>

lemma echo_lines_append:
  "echo_lines env f sh (ls @ ms) out s =
     (case echo_lines env f sh ls out s of (out', None) \<Rightarrow> (out', None) | (out', Some s') \<Rightarrow> echo_lines env f sh ms out' s')"
  by (induction ls arbitrary: out s) (auto simp: Let_def split: option.splits entry.splits)

text \<open>The counts do not depend on the option, and the option only adds the lines.\<close>

lemma echo_lines_read:
  "snd (echo_lines env f sh ls out s) = read_lines env f s ls"
  by (induction ls arbitrary: out s) (auto simp: Let_def split: option.splits entry.splits)

lemma echo_lines_text:
  "read_lines env f s ls = Some s' \<Longrightarrow>
    echo_lines env f sh ls out s = (out @ (if sh then concat (map (\<lambda>l. l @ newline) ls) else []), Some s')"
  by (induction ls arbitrary: out s) (auto simp: Let_def split: option.splits entry.splits)

lemma stream_lines_no_newline: "l \<in> set (stream_lines fin) \<Longrightarrow> CHR 0x0A \<notin> set l"
  by (induction fin arbitrary: l rule: stream_lines.induct) (auto split: if_splits list.splits)

lemma parse_empty [simp]: "parse_line env [] = Some No_Entry"
  by (simp add: parse_line_def)

section \<open>The text of a run\<close>

definition unlines :: "string list \<Rightarrow> string" where
  "unlines ls = concat (map (\<lambda>l. l @ newline) ls)"

lemma stats_output_text:
  assumes "readStream env f s fin = Some s'"
  shows "stats_output env f p sh s fin = ((if sh then unlines (stream_lines fin) else []) @ p s', True)"
  using echo_lines_text [of env f s "stream_lines fin" s' sh "[]"] assms
  by (simp add: stats_output_def readStream_def unlines_def)

text \<open>The three programs.\<close>

definition whale_stats_output :: "'t stats_env \<Rightarrow> 't out_env \<Rightarrow> bool \<Rightarrow> string \<Rightarrow> string \<times> bool" where
  "whale_stats_output env oenv showOutput = stats_output env (whale_entry env) (whale_text oenv) showOutput (whale_stats0 env)"

definition atom_stats_output :: "'t stats_env \<Rightarrow> 't out_env \<Rightarrow> bool \<Rightarrow> string \<Rightarrow> string \<times> bool" where
  "atom_stats_output env oenv showOutput = stats_output env (atom_entry env) (atom_text oenv) showOutput (atom_stats0 env)"

definition phil_stats_output :: "'t stats_env \<Rightarrow> 't out_env \<Rightarrow> bool \<Rightarrow> string \<Rightarrow> string \<times> bool" where
  "phil_stats_output env oenv showOutput = stats_output env (phil_entry env) (phil_text oenv) showOutput phil_stats0"

text \<open>What they print at the end of the standard input are the counts of their \<open>main\<close>.\<close>

lemma stats_reads_stdin:
  "stats_main (readStream env f) s files stdin args = Stats s' \<Longrightarrow> scan_args args False = Some False \<Longrightarrow>
    readStream env f s stdin = Some s'"
  by (auto simp: stats_main_def split: option.splits)

lemma stats_outputs:
  assumes "scan_args args False = Some False"
  shows "whale_stats_main env files stdin args = Stats w \<Longrightarrow>
      whale_stats_output env oenv sh stdin = ((if sh then unlines (stream_lines stdin) else []) @ whale_text oenv w, True)"
    and "atom_stats_main env files stdin args = Stats a \<Longrightarrow>
      atom_stats_output env oenv sh stdin = ((if sh then unlines (stream_lines stdin) else []) @ atom_text oenv a, True)"
    and "phil_stats_main env files stdin args = Stats p \<Longrightarrow>
      phil_stats_output env oenv sh stdin = ((if sh then unlines (stream_lines stdin) else []) @ phil_text oenv p, True)"
  unfolding whale_stats_main_def whale_readStream_def whale_stats_output_def atom_stats_main_def atom_readStream_def
    atom_stats_output_def phil_stats_main_def phil_readStream_def phil_stats_output_def
  by (rule stats_output_text, erule stats_reads_stdin [OF _ assms])+

text \<open>The lines of a log are echoed as they are, and an empty one for the end of the input.\<close>

lemma unlines_log:
  assumes "log_ok ts ls"
  shows "unlines (stream_lines (log_text ts ls)) = log_text ts ls @ newline"
  using stream_lines_log [OF assms] by (simp add: unlines_def log_text_def newline_def)

end
