(* ===== verification/Whales.thy ===== *)
theory Whales imports HeapPath begin

text \<open>
  The whales of Asmt_5 (whales.c): each is a thread. A whale that finds a pair becomes its
  matchmaker; one that finds a whale of the other sex mates with it; any other waits.

  The queues are linked lists on the heap that start with a dummy node; \<open>maleQ\<close> and \<open>femaleQ\<close>
  point to the dummy, whose \<open>tail\<close> is the last node. A field that was never written is \<open>None\<close>.
  \<open>main\<close> sleeps before it creates the next whale, so what a whale does before its first
  \<open>sem_wait\<close> is one step, and its number is the one that \<open>main\<close> passed on; afterwards the
  whales take their steps in any order. The times in the output are left out.
\<close>

section \<open>State\<close>

record whale_t =
  whale_id :: int
  whale_next :: "ptr option"
  whale_tail :: "ptr option"

datatype action = Male_Created | Female_Created | Found_Mate | Became_MatchMaker | Mated

datatype whale_pc = Wait_Female | Wait_Male | Wait_Maker | Whale_End

record whales =
  whale_heap :: "nat \<rightharpoonup> whale_t"
  maleQ :: ptr
  femaleQ :: ptr
  male_avail :: nat
  fem_avail :: nat
  maker_avail :: nat
  male :: int
  female :: int
  whale_threads :: "(int \<times> whale_pc) list"
  printout :: "(int \<times> action) list"

type_synonym whale_malloc = "(nat \<rightharpoonup> whale_t) \<Rightarrow> ptr"

definition printed :: "int \<Rightarrow> action \<Rightarrow> whales \<Rightarrow> whales" where
  "printed wid a s = s\<lparr>printout := printout s @ [(wid, a)]\<rparr>"

text \<open>A field that is read must have been written.\<close>

definition written :: "'a option \<Rightarrow> 'a res" where
  "written f = (case f of None \<Rightarrow> Inl Uninit_Read | Some v \<Rightarrow> Inr v)"

section \<open>Operations\<close>

definition new_queue :: "whale_malloc \<Rightarrow> (nat \<rightharpoonup> whale_t) \<Rightarrow> (ptr \<times> (nat \<rightharpoonup> whale_t)) res" where
  "new_queue malloc h = (case malloc h of
     None \<Rightarrow> Inl Null_Deref
   | Some a \<Rightarrow> Inr (Some a, h(a \<mapsto> \<lparr>whale_id = 0, whale_next = Some None, whale_tail = Some (Some a)\<rparr>)))"

definition whaleInit :: "whale_malloc \<Rightarrow> whales res" where
  "whaleInit malloc =
     bindr (new_queue malloc Map.empty) (\<lambda>(m, h1).
     bindr (new_queue malloc h1) (\<lambda>(f, h2).
     Inr \<lparr>whale_heap = h2, maleQ = m, femaleQ = f, male_avail = 0, fem_avail = 0, maker_avail = 0,
       male = 0, female = 0, whale_threads = [], printout = []\<rparr>))"

text \<open>\<open>temp\<close> is allocated and put behind the tail of the queue \<open>q\<close>.\<close>

definition append_whale ::
  "whale_malloc \<Rightarrow> (nat \<rightharpoonup> whale_t) \<Rightarrow> ptr \<Rightarrow> int \<Rightarrow> (nat \<rightharpoonup> whale_t) res" where
  "append_whale malloc h q wid = (case malloc h of
     None \<Rightarrow> Inl Null_Deref
   | Some temp \<Rightarrow>
       let h1 = h(temp \<mapsto> \<lparr>whale_id = wid, whale_next = None, whale_tail = None\<rparr>) in
       bindr (load h1 q) (\<lambda>w.
       bindr (written (whale_tail w)) (\<lambda>t.
       bindr (store h1 t (\<lambda>w. w\<lparr>whale_next := Some (Some temp)\<rparr>)) (\<lambda>h2.
       bindr (store h2 q (\<lambda>w. w\<lparr>whale_tail := Some (Some temp)\<rparr>)) (\<lambda>h3.
       bindr (load h3 q) (\<lambda>w.
       bindr (written (whale_tail w)) (\<lambda>t.
       store h3 t (\<lambda>w. w\<lparr>whale_next := Some None\<rparr>))))))))"

text \<open>\<open>q->next->tail = q->tail; q = q->next\<close>.\<close>

definition advance_queue :: "(nat \<rightharpoonup> whale_t) \<Rightarrow> ptr \<Rightarrow> (ptr \<times> (nat \<rightharpoonup> whale_t)) res" where
  "advance_queue h q =
     bindr (load h q) (\<lambda>w.
     bindr (written (whale_next w)) (\<lambda>n.
     bindr (written (whale_tail w)) (\<lambda>t.
     bindr (store h n (\<lambda>w. w\<lparr>whale_tail := Some t\<rparr>)) (\<lambda>h1. Inr (n, h1)))))"

definition queue_next :: "(nat \<rightharpoonup> whale_t) \<Rightarrow> ptr \<Rightarrow> ptr res" where
  "queue_next h q = bindr (load h q) (\<lambda>w. written (whale_next w))"

text \<open>The branch of the matchmaker, the same text in \<open>create_male\<close> and \<open>create_female\<close>.\<close>

definition match_pair :: "int \<Rightarrow> whales \<Rightarrow> whales res" where
  "match_pair wid s =
     (let s1 = printed wid Mated (printed wid Became_MatchMaker (s\<lparr>maker_avail := maker_avail s + 1\<rparr>)) in
      bindr (queue_next (whale_heap s) (maleQ s)) (\<lambda>m.
      bindr (if m = None then Inr None else queue_next (whale_heap s) (femaleQ s)) (\<lambda>f.
      bindr (if m \<noteq> None \<and> f \<noteq> None
             then bindr (advance_queue (whale_heap s) (maleQ s)) (\<lambda>(mq, h1).
                  bindr (advance_queue h1 (femaleQ s)) (\<lambda>(fq, h2).
                  Inr (s1\<lparr>whale_heap := h2, maleQ := mq, femaleQ := fq\<rparr>)))
             else Inr (s1\<lparr>maleQ := None, femaleQ := None\<rparr>)) (\<lambda>s2.
      bindr (c_int (male s2 - 1)) (\<lambda>nm.
      bindr (c_int (female s2 - 1)) (\<lambda>nf.
      Inr (s2\<lparr>male := nm, female := nf, whale_threads := whale_threads s2 @ [(wid, Whale_End)]\<rparr>)))))))"

text \<open>The parts of \<open>create_male\<close> and \<open>create_female\<close> up to their first \<open>sem_wait\<close>.\<close>

definition create_male :: "whale_malloc \<Rightarrow> int \<Rightarrow> whales \<Rightarrow> whales res" where
  "create_male malloc wid s0 =
     (let s = printed wid Male_Created s0 in
      if male s > 0 \<and> female s > 0 then match_pair wid s
      else if female s > 0 then
        bindr (load (whale_heap s) (femaleQ s)) (\<lambda>w.
        bindr (c_int (male s + 1)) (\<lambda>n.
        bindr (append_whale malloc (whale_heap s) (maleQ s) wid) (\<lambda>h.
        Inr ((printed (whale_id w) Found_Mate (printed wid Found_Mate s))
          \<lparr>male := n, whale_heap := h, male_avail := male_avail s + 1,
           whale_threads := whale_threads s @ [(wid, Wait_Maker)]\<rparr>))))
      else
        bindr (append_whale malloc (whale_heap s) (maleQ s) wid) (\<lambda>h.
        bindr (c_int (male s + 1)) (\<lambda>n.
        Inr (s\<lparr>male := n, whale_heap := h, male_avail := male_avail s + 1,
               whale_threads := whale_threads s @ [(wid, Wait_Female)]\<rparr>))))"

definition create_female :: "whale_malloc \<Rightarrow> int \<Rightarrow> whales \<Rightarrow> whales res" where
  "create_female malloc wid s0 =
     (let s = printed wid Female_Created s0 in
      if male s > 0 \<and> female s > 0 then match_pair wid s
      else if male s > 0 then
        bindr (load (whale_heap s) (maleQ s)) (\<lambda>w.
        bindr (append_whale malloc (whale_heap s) (femaleQ s) wid) (\<lambda>h.
        bindr (c_int (female s + 1)) (\<lambda>n.
        Inr ((printed wid Found_Mate (printed (whale_id w) Found_Mate s))
          \<lparr>female := n, whale_heap := h, fem_avail := fem_avail s + 1,
           whale_threads := whale_threads s @ [(wid, Wait_Maker)]\<rparr>))))
      else
        bindr (append_whale malloc (whale_heap s) (femaleQ s) wid) (\<lambda>h.
        bindr (c_int (female s + 1)) (\<lambda>n.
        Inr (s\<lparr>female := n, whale_heap := h, fem_avail := fem_avail s + 1,
               whale_threads := whale_threads s @ [(wid, Wait_Male)]\<rparr>))))"

text \<open>\<open>rand\<close> decides about the sex.\<close>

definition create_whale :: "whale_malloc \<Rightarrow> bool \<Rightarrow> int \<Rightarrow> whales \<Rightarrow> whales res" where
  "create_whale malloc is_male wid s = (if is_male then create_male malloc wid s else create_female malloc wid s)"

text \<open>The \<open>sem_wait\<close> that thread \<open>i\<close> has come to; \<open>None\<close> when it is blocked or has ended.\<close>

definition whale_step :: "whales \<Rightarrow> nat \<Rightarrow> whales option" where
  "whale_step s i =
     (if i < length (whale_threads s)
      then case whale_threads s ! i of
          (wid, Wait_Female) \<Rightarrow>
            if fem_avail s > 0
            then Some (s\<lparr>fem_avail := fem_avail s - 1, whale_threads := (whale_threads s)[i := (wid, Wait_Maker)]\<rparr>)
            else None
        | (wid, Wait_Male) \<Rightarrow>
            if male_avail s > 0
            then Some (s\<lparr>male_avail := male_avail s - 1, whale_threads := (whale_threads s)[i := (wid, Wait_Maker)]\<rparr>)
            else None
        | (wid, Wait_Maker) \<Rightarrow>
            if maker_avail s > 0
            then Some (s\<lparr>maker_avail := maker_avail s - 1, whale_threads := (whale_threads s)[i := (wid, Whale_End)]\<rparr>)
            else None
        | (wid, Whale_End) \<Rightarrow> None
      else None)"

text \<open>
  The states after the creation of the whales \<open>xs\<close> and steps of their threads in between. A creation is one step:
  these are the runs in which each whale reaches its first \<open>sem_wait\<close> before the next is created. Nothing
  but the sleep in \<open>main\<close> makes it so; WhaleRace has the other runs.
\<close>

inductive whales_reachable :: "whale_malloc \<Rightarrow> (bool \<times> int) list \<Rightarrow> whales \<Rightarrow> bool" for malloc where
  start: "whaleInit malloc = Inr s \<Longrightarrow> whales_reachable malloc [] s"
| create: "whales_reachable malloc xs s \<Longrightarrow> create_whale malloc is_male wid s = Inr s' \<Longrightarrow>
    whales_reachable malloc (xs @ [(is_male, wid)]) s'"
| act: "whales_reachable malloc xs s \<Longrightarrow> whale_step s i = Some s' \<Longrightarrow> whales_reachable malloc xs s'"

section \<open>The queues on the heap\<close>

definition whale_nx :: "(nat \<rightharpoonup> whale_t) \<Rightarrow> nat \<Rightarrow> ptr option" where
  "whale_nx h a = (case h a of None \<Rightarrow> None | Some w \<Rightarrow> whale_next w)"

text \<open>The nodes \<open>as\<close> are a queue: a dummy and the nodes behind it, whose numbers are \<open>ids\<close>.\<close>

definition whale_queue :: "(nat \<rightharpoonup> whale_t) \<Rightarrow> ptr \<Rightarrow> nat list \<Rightarrow> int list \<Rightarrow> bool" where
  "whale_queue h q as ids \<longleftrightarrow> as \<noteq> [] \<and> distinct as \<and> path (whale_nx h) q as None \<and>
     map (\<lambda>a. map_option whale_id (h a)) as = map Some ids \<and>
     map_option whale_tail (h (hd as)) = Some (Some (Some (last as)))"

lemma whale_queue_cong:
  assumes "whale_queue h q as ids" and "\<And>a. a \<in> set as \<Longrightarrow> h' a = h a"
  shows "whale_queue h' q as ids"
proof -
  have "path (whale_nx h') q as None \<longleftrightarrow> path (whale_nx h) q as None"
    by (rule path_cong) (simp add: whale_nx_def assms(2))
  moreover have "map (\<lambda>a. map_option whale_id (h' a)) as = map (\<lambda>a. map_option whale_id (h a)) as"
    using assms(2) by simp
  moreover have "h' (hd as) = h (hd as)" if "as \<noteq> []" using that assms(2) by simp
  ultimately show ?thesis using assms(1) by (simp only: whale_queue_def simp_thms)
qed

lemma whale_queue_length: "whale_queue h q as ids \<Longrightarrow> length as = length ids"
  unfolding whale_queue_def by (metis length_map)

lemma whale_queue_live: "whale_queue h q as ids \<Longrightarrow> a \<in> set as \<Longrightarrow> h a \<noteq> None"
  unfolding whale_queue_def by (metis path_live whale_nx_def option.simps(4))


definition whale_malloc_good :: "whale_malloc \<Rightarrow> bool" where
  "whale_malloc_good malloc \<longleftrightarrow> (\<forall>h. finite (dom h) \<longrightarrow> (\<exists>a. malloc h = Some a \<and> h a = None))"

lemma append_whale_spec:
  assumes q: "whale_queue h q as ids" and good: "whale_malloc_good malloc" and fin: "finite (dom h)"
  shows "\<exists>h' t. append_whale malloc h q wid = Inr h' \<and> h t = None \<and> whale_queue h' q (as @ [t]) (ids @ [wid]) \<and>
    (\<forall>a. a \<notin> set as \<longrightarrow> a \<noteq> t \<longrightarrow> h' a = h a) \<and> finite (dom h')"
proof -
  obtain t where t: "malloc h = Some t" "h t = None" using good fin by (auto simp: whale_malloc_good_def)
  have "as \<noteq> []" "distinct as" and pth: "path (whale_nx h) q as None" using q by (auto simp: whale_queue_def)
  obtain us l where as: "as = us @ [l]" using \<open>as \<noteq> []\<close> by (cases as rule: rev_cases) auto
  define a where "a = hd as"
  have qa: "q = Some a" using path_nonempty [OF pth \<open>as \<noteq> []\<close>] by (simp add: a_def)
  obtain w lw where w: "h a = Some w" and lw: "h l = Some lw"
    using whale_queue_live [OF q hd_in_set [OF \<open>as \<noteq> []\<close>]] whale_queue_live [OF q, of l] as
    by (auto simp: a_def simp del: hd_append2)
  have tail: "whale_tail w = Some (Some l)" using q w as by (simp add: whale_queue_def a_def)
  have tas: "t \<notin> set as" using whale_queue_live [OF q] t(2) by blast
  moreover have "a \<in> set as" using hd_in_set [OF \<open>as \<noteq> []\<close>] by (simp add: a_def)
  ultimately have neq: "t \<noteq> a" "t \<noteq> l" "a \<in> set as" using as by auto
  define nw where "nw = (if a = l then lw\<lparr>whale_next := Some (Some t)\<rparr> else w)"
  define h' where "h' = h(t \<mapsto> \<lparr>whale_id = wid, whale_next = Some None, whale_tail = None\<rparr>,
    l \<mapsto> lw\<lparr>whale_next := Some (Some t)\<rparr>, a \<mapsto> nw\<lparr>whale_tail := Some (Some t)\<rparr>)"
  have "append_whale malloc h q wid = Inr h'"
    using t w lw tail neq
    by (auto simp: append_whale_def qa Let_def written_def h'_def nw_def fun_upd_twist [of t] split: if_splits)
  moreover have "whale_queue h' q (as @ [t]) (ids @ [wid])"
  proof -
    have nx: "whale_nx h' = (whale_nx h)(l := Some (Some t), t := Some None)"
      using w lw neq by (auto simp: whale_nx_def h'_def nw_def)
    have "path (whale_nx h) q us (Some l)" using pth as by auto
    then have "path (whale_nx h') q (as @ [t]) None"
      using \<open>distinct as\<close> tas by (simp add: nx as)
    moreover have "map_option whale_id (h' b) = map_option whale_id (h b)" if "b \<in> set as" for b
      using that tas w lw by (auto simp: h'_def nw_def)
    then have "map (\<lambda>b. map_option whale_id (h' b)) as = map (\<lambda>b. map_option whale_id (h b)) as"
      by (rule map_cong [OF refl])
    then have "map (\<lambda>b. map_option whale_id (h' b)) as = map Some ids" using q by (simp only: whale_queue_def)
    moreover have "map_option whale_id (h' t) = Some wid" using neq by (simp add: h'_def)
    moreover have "map_option whale_tail (h' a) = Some (Some (Some t))" by (simp add: h'_def)
    moreover have "hd (as @ [t]) = a" using \<open>as \<noteq> []\<close> by (simp add: a_def)
    ultimately show ?thesis using \<open>distinct as\<close> tas by (simp add: whale_queue_def)
  qed
  moreover have "\<forall>b. b \<notin> set as \<longrightarrow> b \<noteq> t \<longrightarrow> h' b = h b" using as neq by (auto simp: h'_def)
  moreover have "finite (dom h')" using fin by (simp add: h'_def)
  ultimately show ?thesis using t(2) by blast
qed

lemma queue_next_spec: "whale_queue h q (a # b # as) ids \<Longrightarrow> queue_next h q = Inr (Some b)"
  by (auto simp: whale_queue_def queue_next_def written_def whale_nx_def split: option.splits)

lemma advance_queue_spec:
  assumes q: "whale_queue h q (a # b # as) (i # ids)" and fin: "finite (dom h)"
  shows "\<exists>h'. advance_queue h q = Inr (Some b, h') \<and> whale_queue h' (Some b) (b # as) ids \<and>
    (\<forall>c. c \<notin> set (b # as) \<longrightarrow> h' c = h c) \<and> finite (dom h')"
proof -
  have "q = Some a" and pth: "path (whale_nx h) (Some b) (b # as) None" and "distinct (a # b # as)"
    using q by (auto simp: whale_queue_def)
  obtain w bw where w: "h a = Some w" and bw: "h b = Some bw"
    using whale_queue_live [OF q, of a] whale_queue_live [OF q, of b] by auto
  have nt: "whale_next w = Some (Some b)" "whale_tail w = Some (Some (last (b # as)))"
    using q w by (auto simp: whale_queue_def whale_nx_def)
  define h' where "h' = h(b \<mapsto> bw\<lparr>whale_tail := Some (Some (last (b # as)))\<rparr>)"
  have "advance_queue h q = Inr (Some b, h')"
    using w bw nt by (simp add: advance_queue_def written_def \<open>q = Some a\<close> h'_def)
  moreover have "whale_nx h' = whale_nx h" using bw by (auto simp: whale_nx_def h'_def)
  then have "path (whale_nx h') (Some b) (b # as) None" using pth by simp
  moreover have "map_option whale_id (h' c) = map_option whale_id (h c)" for c using bw by (simp add: h'_def)
  then have "map (\<lambda>c. map_option whale_id (h' c)) (b # as) = map Some ids" using q by (simp add: whale_queue_def)
  ultimately show ?thesis using \<open>distinct (a # b # as)\<close> fin
    by (intro exI [of _ h']) (simp add: whale_queue_def h'_def)
qed

lemma load_queue: "whale_queue h q as (i # ids) \<Longrightarrow> \<exists>w. load h q = Inr w \<and> whale_id w = i"
  by (cases as) (auto simp: whale_queue_def)

end
