(* ===== verification/WhaleProps.thy ===== *)
theory WhaleProps imports Whales begin

text \<open>
  The properties of the whales. The abstract pool has the numbers of the males and of the females
  in the queues, and of those that left them last, at first 0; what is printed depends on
  nothing else.
\<close>

section \<open>The pool\<close>

record pool =
  last_male :: int
  males :: "int list"
  last_female :: int
  females :: "int list"

definition pool0 :: pool where
  "pool0 = \<lparr>last_male = 0, males = [], last_female = 0, females = []\<rparr>"

definition pool_create :: "bool \<Rightarrow> int \<Rightarrow> pool \<Rightarrow> pool" where
  "pool_create is_male wid p =
     (if males p \<noteq> [] \<and> females p \<noteq> []
      then \<lparr>last_male = hd (males p), males = tl (males p), last_female = hd (females p), females = tl (females p)\<rparr>
      else if is_male then p\<lparr>males := males p @ [wid]\<rparr> else p\<lparr>females := females p @ [wid]\<rparr>)"

definition pool_lines :: "bool \<Rightarrow> int \<Rightarrow> pool \<Rightarrow> (int \<times> action) list" where
  "pool_lines is_male wid p = (wid, if is_male then Male_Created else Female_Created) #
     (if males p \<noteq> [] \<and> females p \<noteq> [] then [(wid, Became_MatchMaker), (wid, Mated)]
      else if is_male \<and> females p \<noteq> [] then [(wid, Found_Mate), (last_female p, Found_Mate)]
      else if \<not> is_male \<and> males p \<noteq> [] then [(last_male p, Found_Mate), (wid, Found_Mate)]
      else [])"

definition pool_of :: "(bool \<times> int) list \<Rightarrow> pool" where
  "pool_of xs = foldl (\<lambda>p (is_male, wid). pool_create is_male wid p) pool0 xs"

primrec lines_from :: "pool \<Rightarrow> (bool \<times> int) list \<Rightarrow> (int \<times> action) list" where
  "lines_from p [] = []"
| "lines_from p (x # xs) = pool_lines (fst x) (snd x) p @ lines_from (pool_create (fst x) (snd x) p) xs"

lemma pool_of_simps [simp]:
  "pool_of [] = pool0" "pool_of (xs @ [(m, i)]) = pool_create m i (pool_of xs)"
  by (simp_all add: pool_of_def)

lemma lines_from_snoc [simp]:
  "lines_from p (xs @ [(m, i)]) =
    lines_from p xs @ pool_lines m i (foldl (\<lambda>p (is_male, wid). pool_create is_male wid p) p xs)"
  by (induction xs arbitrary: p) (auto simp: case_prod_unfold)

definition lines_of :: "(bool \<times> int) list \<Rightarrow> (int \<times> action) list" where
  "lines_of xs = lines_from pool0 xs"

lemma lines_of_simps [simp]:
  "lines_of [] = []" "lines_of (xs @ [(m, i)]) = lines_of xs @ pool_lines m i (pool_of xs)"
  by (simp_all add: lines_of_def pool_of_def)

section \<open>The program implements the pool\<close>

definition two_queues :: "(nat \<rightharpoonup> whale_t) \<Rightarrow> ptr \<Rightarrow> int list \<Rightarrow> ptr \<Rightarrow> int list \<Rightarrow> bool" where
  "two_queues h q ids q' ids' \<longleftrightarrow> finite (dom h) \<and>
     (\<exists>as bs. whale_queue h q as ids \<and> whale_queue h q' bs ids' \<and> set as \<inter> set bs = {})"

lemma two_queues_swap: "two_queues h q ids q' ids' \<Longrightarrow> two_queues h q' ids' q ids"
  unfolding two_queues_def by (metis inf_commute)

lemma two_queues_append:
  assumes "two_queues h q ids q' ids'" and "whale_malloc_good malloc"
  shows "\<exists>h'. append_whale malloc h q wid = Inr h' \<and> two_queues h' q (ids @ [wid]) q' ids'"
proof -
  obtain as bs where q: "whale_queue h q as ids" "whale_queue h q' bs ids'" "set as \<inter> set bs = {}"
    and fin: "finite (dom h)" using assms(1) by (auto simp: two_queues_def)
  obtain h' t where h: "append_whale malloc h q wid = Inr h'" "h t = None" "whale_queue h' q (as @ [t]) (ids @ [wid])"
    "\<forall>a. a \<notin> set as \<longrightarrow> a \<noteq> t \<longrightarrow> h' a = h a" "finite (dom h')"
    using append_whale_spec [OF q(1) assms(2) fin] by blast
  have t: "t \<notin> set bs" using whale_queue_live [OF q(2)] h(2) by blast
  have "whale_queue h' q' bs ids'" by (rule whale_queue_cong [OF q(2)]) (use h(4) q(3) t in auto)
  moreover have "set (as @ [t]) \<inter> set bs = {}" using q(3) t by simp
  ultimately show ?thesis using h(1,3,5) unfolding two_queues_def by blast
qed

lemma two_queues_next:
  assumes "two_queues h q (i # ids) q' ids'"
  shows "\<exists>n. queue_next h q = Inr n \<and> (n = None \<longleftrightarrow> ids = [])"
proof -
  obtain as where q: "whale_queue h q as (i # ids)" using assms by (auto simp: two_queues_def)
  then show ?thesis
  proof (cases as rule: remdups_adj.cases)
    case (3 a b as')
    with q show ?thesis using queue_next_spec [of h q a b as'] whale_queue_length [OF q] by auto
  qed (auto simp: whale_queue_def queue_next_def written_def whale_nx_def split: option.splits)
qed

lemma two_queues_advance:
  assumes "two_queues h q (i # j # ids) q' ids'"
  shows "\<exists>n h'. advance_queue h q = Inr (n, h') \<and> two_queues h' n (j # ids) q' ids'"
proof -
  obtain as bs where q: "whale_queue h q as (i # j # ids)" "whale_queue h q' bs ids'" "set as \<inter> set bs = {}"
    and fin: "finite (dom h)" using assms(1) by (auto simp: two_queues_def)
  obtain a b as' where as: "as = a # b # as'"
    using whale_queue_length [OF q(1)] by (cases as rule: remdups_adj.cases) auto
  obtain h' where h: "advance_queue h q = Inr (Some b, h')" "whale_queue h' (Some b) (b # as') (j # ids)"
    "\<forall>c. c \<notin> set (b # as') \<longrightarrow> h' c = h c" "finite (dom h')"
    using advance_queue_spec [OF q(1) [unfolded as] fin] by blast
  have "whale_queue h' q' bs ids'" by (rule whale_queue_cong [OF q(2)]) (use h(3) q(3) as in auto)
  moreover have "set (b # as') \<inter> set bs = {}" using q(3) as by auto
  ultimately show ?thesis using h(1,2,4) unfolding two_queues_def by blast
qed

lemma two_queues_load:
  assumes "two_queues h q (i # ids) q' ids'"
  shows "\<exists>w. load h q = Inr w \<and> whale_id w = i"
proof -
  obtain as where "whale_queue h q as (i # ids)" using assms by (auto simp: two_queues_def)
  then show ?thesis by (rule load_queue)
qed

definition represents :: "whales \<Rightarrow> pool \<Rightarrow> bool" where
  "represents s p \<longleftrightarrow>
     two_queues (whale_heap s) (maleQ s) (last_male p # males p) (femaleQ s) (last_female p # females p) \<and>
     male s = int (length (males p)) \<and> female s = int (length (females p))"

lemma represents_init:
  assumes "whale_malloc_good malloc"
  shows "\<exists>s. whaleInit malloc = Inr s \<and> represents s pool0 \<and> printout s = [] \<and> whale_threads s = [] \<and> maker_avail s = 0"
proof -
  have good: "\<exists>a. malloc h = Some a \<and> h a = None" if "finite (dom h)" for h
    using assms that by (simp add: whale_malloc_good_def)
  obtain a where a: "malloc Map.empty = Some a" using good [of Map.empty] by auto
  let ?h = "[a \<mapsto> \<lparr>whale_id = 0, whale_next = Some None, whale_tail = Some (Some a)\<rparr>]"
  obtain b where b: "malloc ?h = Some b" "b \<noteq> a" using good [of ?h] by (auto split: if_splits)
  let ?h2 = "?h(b \<mapsto> \<lparr>whale_id = 0, whale_next = Some None, whale_tail = Some (Some b)\<rparr>)"
  have "whale_queue ?h2 (Some a) [a] [0]" "whale_queue ?h2 (Some b) [b] [0]"
    using b(2) by (simp_all add: whale_queue_def whale_nx_def)
  then have "two_queues ?h2 (Some a) [0] (Some b) [0]"
    using b(2) unfolding two_queues_def by (intro conjI exI [of _ "[a]"] exI [of _ "[b]"]) simp_all
  then show ?thesis using a b by (simp add: whaleInit_def new_queue_def represents_def pool0_def)
qed

text \<open>One creation, with the count of the pairs that were mated.\<close>

definition matches :: "(int \<times> action) list \<Rightarrow> nat" where
  "matches ls = length (filter (\<lambda>l. snd l = Mated) ls)"

definition waiting :: "whales \<Rightarrow> nat" where
  "waiting s = length (filter (\<lambda>t. snd t \<noteq> Whale_End) (whale_threads s))"

lemma match_pair_spec:
  assumes "represents s p" and "males p \<noteq> []" and "females p \<noteq> []"
    and "length (males p) < 2 ^ 31" and "length (females p) < 2 ^ 31"
  shows "\<exists>s'. match_pair wid s = Inr s' \<and>
    represents s' \<lparr>last_male = hd (males p), males = tl (males p), last_female = hd (females p), females = tl (females p)\<rparr> \<and>
    printout s' = printout s @ [(wid, Became_MatchMaker), (wid, Mated)] \<and> waiting s' = waiting s \<and>
    maker_avail s' = maker_avail s + 1"
proof -
  obtain i ms j js where p: "males p = i # ms" "females p = j # js" using assms(2,3) by (metis list.exhaust)
  note q = assms(1) [unfolded represents_def p]
  obtain m where m: "queue_next (whale_heap s) (maleQ s) = Inr m" "m \<noteq> None"
    using two_queues_next q by blast
  obtain f where f: "queue_next (whale_heap s) (femaleQ s) = Inr f" "f \<noteq> None"
    using two_queues_next two_queues_swap q by blast
  obtain mq h1 where h1: "advance_queue (whale_heap s) (maleQ s) = Inr (mq, h1)"
    "two_queues h1 mq (i # ms) (femaleQ s) (last_female p # j # js)"
    using two_queues_advance q by blast
  obtain fq h2 where h2: "advance_queue h1 (femaleQ s) = Inr (fq, h2)" "two_queues h2 fq (j # js) mq (i # ms)"
    using two_queues_advance [OF two_queues_swap [OF h1(2)]] by blast
  have "c_int (male s - 1) = Inr (int (length ms))" "c_int (female s - 1) = Inr (int (length js))"
    using q assms(4,5) p by (simp_all add: c_int_def int32_ok_def)
  then show ?thesis using m f h1(1) h2(1) two_queues_swap [OF h2(2)] p
    by (auto simp: match_pair_def Let_def printed_def represents_def waiting_def)
qed

lemma create_whale_spec:
  assumes "represents s p" and good: "whale_malloc_good malloc"
    and "length (males p) + 1 < 2 ^ 31" and "length (females p) + 1 < 2 ^ 31"
  shows "\<exists>s'. create_whale malloc is_male wid s = Inr s' \<and> represents s' (pool_create is_male wid p) \<and>
    printout s' = printout s @ pool_lines is_male wid p \<and>
    waiting s' = waiting s + (if males p \<noteq> [] \<and> females p \<noteq> [] then 0 else 1) \<and>
    maker_avail s' = maker_avail s + (if males p \<noteq> [] \<and> females p \<noteq> [] then 1 else 0)"
proof -
  let ?s = "printed wid (if is_male then Male_Created else Female_Created) s"
  have s: "represents ?s p" using assms(1) by (simp add: represents_def printed_def)
  have n: "male s > 0 \<longleftrightarrow> males p \<noteq> []" "female s > 0 \<longleftrightarrow> females p \<noteq> []"
    "c_int (male s + 1) = Inr (male s + 1)" "c_int (female s + 1) = Inr (female s + 1)"
    using assms(1,3,4) by (auto simp: represents_def c_int_def int32_ok_def)
  note q = assms(1) [unfolded represents_def]
  show ?thesis
  proof (cases "males p \<noteq> [] \<and> females p \<noteq> []")
    case True
    with match_pair_spec [OF s, of wid] assms(3,4) n show ?thesis
      by (cases is_male) (auto simp: create_whale_def create_male_def create_female_def Let_def pool_create_def
        pool_lines_def printed_def waiting_def)
  next
    case False
    obtain wm where wm: "load (whale_heap s) (maleQ s) = Inr wm" "whale_id wm = last_male p"
      using two_queues_load q by blast
    obtain wf where wf: "load (whale_heap s) (femaleQ s) = Inr wf" "whale_id wf = last_female p"
      using two_queues_load two_queues_swap q by blast
    show ?thesis
    proof (cases is_male)
      case True
      obtain h where h: "append_whale malloc (whale_heap s) (maleQ s) wid = Inr h"
        "two_queues h (maleQ s) ((last_male p # males p) @ [wid]) (femaleQ s) (last_female p # females p)"
        using two_queues_append [OF _ good] q by blast
      show ?thesis using False True n h wf q
        by (auto simp: create_whale_def create_male_def Let_def pool_create_def pool_lines_def printed_def
          waiting_def represents_def)
    next
      case f: False
      obtain h where h: "append_whale malloc (whale_heap s) (femaleQ s) wid = Inr h"
        "two_queues h (femaleQ s) ((last_female p # females p) @ [wid]) (maleQ s) (last_male p # males p)"
        using two_queues_append [OF _ good] two_queues_swap q by blast
      show ?thesis using False f n h(1) two_queues_swap [OF h(2)] wm q
        by (auto simp: create_whale_def create_female_def Let_def pool_create_def pool_lines_def printed_def
          waiting_def represents_def)
    qed
  qed
qed

text \<open>The steps of the threads.\<close>

lemma whale_step_spec:
  assumes "whale_step s i = Some s'"
  shows "represents s' p = represents s p \<and> printout s' = printout s \<and>
    waiting s' + maker_avail s = waiting s + maker_avail s' \<and> length (whale_threads s') = length (whale_threads s)"
proof -
  have i: "i < length (whale_threads s)" using assms by (auto simp: whale_step_def split: if_splits)
  obtain wid pc where t: "whale_threads s ! i = (wid, pc)" by (cases "whale_threads s ! i") auto
  have "length (filter (\<lambda>t. snd t \<noteq> Whale_End) ((whale_threads s)[i := (wid, pc')])) + (if pc \<noteq> Whale_End then 1 else 0) =
      length (filter (\<lambda>t. snd t \<noteq> Whale_End) (whale_threads s)) + (if pc' \<noteq> Whale_End then 1 else 0)" for pc'
    using filter_update [OF i, of "\<lambda>t. snd t \<noteq> Whale_End" "(wid, pc')"] by (simp add: t)
  note count = this [of Wait_Maker] this [of Whale_End]
  show ?thesis
    using assms i t count
    by (cases pc) (auto simp: whale_step_def represents_def waiting_def split: if_splits)
qed

section \<open>What holds in every state\<close>

text \<open>The pairs and the matchmakers so far, and the length of the queues.\<close>

lemma matches_simps [simp]:
  "matches [] = 0" "matches (ls @ ls') = matches ls + matches ls'"
  by (simp_all add: matches_def)

lemma pool_lengths:
  "length (males (pool_of xs)) + length (females (pool_of xs)) + 3 * matches (lines_of xs) = length xs \<and>
   \<not> (length (males (pool_of xs)) \<ge> 2 \<and> length (females (pool_of xs)) \<ge> 2)"
proof (induction xs rule: rev_induct)
  case (snoc x xs)
  obtain m wid where x: "x = (m, wid)" by (cases x)
  have "matches (pool_lines m wid p) = (if males p \<noteq> [] \<and> females p \<noteq> [] then 1 else 0)" for p
    by (auto simp: matches_def pool_lines_def)
  with snoc show ?case
    by (cases "males (pool_of xs)"; cases "females (pool_of xs)") (auto simp: x pool_create_def)
qed (simp add: pool0_def)

lemma whales_reachable_spec:
  assumes "whales_reachable malloc xs s" and "whale_malloc_good malloc" and "length xs < 2 ^ 31"
  shows "represents s (pool_of xs) \<and> printout s = lines_of xs \<and>
    waiting s = length (males (pool_of xs)) + length (females (pool_of xs)) + matches (lines_of xs) + maker_avail s"
  using assms
proof (induction rule: whales_reachable.induct)
  case (start s)
  with represents_init [of malloc] show ?case by (auto simp: pool0_def waiting_def)
next
  case (create xs s is_male wid s')
  have xs: "length xs < 2 ^ 31" "length xs + 1 < 2 ^ 31" using create.prems by simp_all
  then have bounds: "length (males (pool_of xs)) + 1 < 2 ^ 31" "length (females (pool_of xs)) + 1 < 2 ^ 31"
    using pool_lengths [of xs] by linarith+
  have ih: "represents s (pool_of xs)" "printout s = lines_of xs"
    "waiting s = length (males (pool_of xs)) + length (females (pool_of xs)) + matches (lines_of xs) + maker_avail s"
    using create.IH create.prems(1) xs by auto
  from create_whale_spec [OF ih(1) create.prems(1) bounds, of is_male wid] create.hyps(2) ih(2,3)
  show ?case
    by (cases "males (pool_of xs) \<noteq> [] \<and> females (pool_of xs) \<noteq> []")
      (auto simp: pool_create_def pool_lines_def matches_def)
next
  case (act xs s i s')
  then show ?case using whale_step_spec [OF act.hyps(2)] by auto
qed

section \<open>An example\<close>

text \<open>
  Whale 1 waits, whale 2 mates with it, whale 3 becomes their matchmaker, and whale 4 comes, takes
  the permit for a male that whale 1 left and then the one of the matchmaker.
\<close>

definition whale_event :: "whale_malloc \<Rightarrow> (bool \<times> int) + nat \<Rightarrow> whales \<Rightarrow> whales res" where
  "whale_event malloc e s = (case e of
     Inl (is_male, wid) \<Rightarrow> create_whale malloc is_male wid s
   | Inr i \<Rightarrow> (case whale_step s i of None \<Rightarrow> Inr s | Some s' \<Rightarrow> Inr s'))"

primrec whale_events :: "whale_malloc \<Rightarrow> ((bool \<times> int) + nat) list \<Rightarrow> whales \<Rightarrow> whales res" where
  "whale_events malloc [] s = Inr s"
| "whale_events malloc (e # es) s = bindr (whale_event malloc e s) (whale_events malloc es)"

definition ex_whales :: "whales res" where
  "ex_whales = bindr (whaleInit fresh_address) (whale_events fresh_address
     [Inl (True, 1), Inl (False, 2), Inr 0, Inl (True, 3), Inl (False, 4), Inr 3, Inr 3])"

lemma ex_whales_value:
  "\<exists>s. ex_whales = Inr s \<and> maker_avail s = 0 \<and>
    whale_threads s = [(1, Wait_Maker), (2, Wait_Maker), (3, Whale_End), (4, Whale_End)] \<and>
    printout s = [(1, Male_Created), (2, Female_Created), (0, Found_Mate), (2, Found_Mate),
      (3, Male_Created), (3, Became_MatchMaker), (3, Mated), (4, Female_Created)]"
  by (simp add: ex_whales_def whaleInit_def new_queue_def fresh_address_def whale_event_def create_whale_def
    create_male_def create_female_def append_whale_def written_def Let_def printed_def match_pair_def queue_next_def
    advance_queue_def whale_step_def c_int_def int32_ok_def)

text \<open>A list of events keeps a state reachable.\<close>

definition created :: "((bool \<times> int) + nat) list \<Rightarrow> (bool \<times> int) list" where
  "created es = concat (map (case_sum (\<lambda>x. [x]) (\<lambda>i. [])) es)"

lemma whale_events_reachable:
  "whales_reachable malloc xs s \<Longrightarrow> whale_events malloc es s = Inr s' \<Longrightarrow>
    whales_reachable malloc (xs @ created es) s'"
proof (induction es arbitrary: xs s)
  case (Cons e es)
  then obtain s1 where s1: "whale_event malloc e s = Inr s1" "whale_events malloc es s1 = Inr s'"
    by (auto simp: res_simps)
  show ?case
  proof (cases e)
    case (Inl x)
    then have "whales_reachable malloc (xs @ [x]) s1"
      using whales_reachable.create [OF Cons.prems(1)] s1(1) by (cases x) (simp add: whale_event_def)
    from Cons.IH [OF this s1(2)] Inl show ?thesis by (simp add: created_def)
  next
    case (Inr i)
    then have "whales_reachable malloc xs s1"
      using whales_reachable.act [OF Cons.prems(1)] s1(1) Cons.prems(1)
      by (auto simp: whale_event_def split: option.splits)
    from Cons.IH [OF this s1(2)] Inr show ?thesis by (simp add: created_def)
  qed
qed (simp add: created_def)

lemma fresh_whales_good: "whale_malloc_good fresh_address"
  by (simp add: whale_malloc_good_def fresh_address_free)

abbreviation ex_created :: "(bool \<times> int) list" where
  "ex_created \<equiv> [(True, 1), (False, 2), (True, 3), (False, 4)]"

lemma ex_whales_reachable: "ex_whales = Inr s \<Longrightarrow> whales_reachable fresh_address ex_created s"
  unfolding ex_whales_def bindr_eq_Inr
  using whale_events_reachable [OF whales_reachable.start] by (fastforce simp: created_def)

section \<open>Properties\<close>

text \<open>
  C39. The program implements the pool, when each whale reaches its first \<open>sem_wait\<close> before \<open>main\<close> creates the
  next, as the sleep in \<open>main\<close> is meant to ensure, and \<open>malloc\<close> never returns NULL (that the program fails when two whales
  run at once is shown in WhaleRace.thy): in every state reached after the creation of the whales \<open>xs\<close>,
  whatever steps their threads took in between, the two queues on the heap are disjoint lists of
  the numbers that the pool has, the counters are their lengths, the output is that of the
  pool, at most one of the queues has two whales or more, and the creation of a next whale does
  not fail. The pool shows that the number printed for the waiting whale that \<open>Found_Mate\<close> is not
  its own but that of the last of its sex that was mated, or 0.
\<close>

theorem whales_refine:
  assumes "whales_reachable malloc xs s" and "whale_malloc_good malloc" and "length xs + 1 < 2 ^ 31"
  shows "represents s (pool_of xs) \<and> printout s = lines_of xs \<and>
    \<not> (2 \<le> length (males (pool_of xs)) \<and> 2 \<le> length (females (pool_of xs))) \<and>
    (\<exists>s'. create_whale malloc is_male wid s = Inr s')"
proof (intro conjI)
  have "length xs < 2 ^ 31" using assms(3) by simp
  note spec = whales_reachable_spec [OF assms(1,2) this]
  then show "represents s (pool_of xs)" "printout s = lines_of xs" by blast+
  show "\<not> (2 \<le> length (males (pool_of xs)) \<and> 2 \<le> length (females (pool_of xs)))"
    using pool_lengths [of xs] by blast
  have "length (males (pool_of xs)) + 1 < 2 ^ 31" "length (females (pool_of xs)) + 1 < 2 ^ 31"
    using pool_lengths [of xs] assms(3) by linarith+
  with create_whale_spec [OF _ assms(2)] spec show "\<exists>s'. create_whale malloc is_male wid s = Inr s'" by blast
qed

theorem whales_refine_witness:
  "\<exists>s. ex_whales = Inr s \<and> printout s = lines_of ex_created \<and> male s = 0 \<and> female s = 1"
proof -
  obtain s where s: "ex_whales = Inr s" using ex_whales_value by blast
  have "length (males (pool_of ex_created)) = 0" "length (females (pool_of ex_created)) = 1"
    by (simp_all add: pool_of_def pool0_def pool_create_def)
  with whales_refine [OF ex_whales_reachable [OF s] fresh_whales_good] s show ?thesis
    by (intro exI [of _ s]) (simp add: represents_def)
qed

text \<open>
  A whale is left behind for each pair: a pair that is mated waits at two places, but its
  matchmaker posts one permit. In every reachable state the threads that have not ended are those of the
  whales in the queues, one more for each pair that was mated, and one for each permit not yet
  taken. (In the example the permit goes to a whale that never found a mate, and both mated
  whales wait.)
\<close>

theorem whales_left_behind:
  assumes "whales_reachable malloc xs s" and "whale_malloc_good malloc" and "length xs < 2 ^ 31"
  shows "length (filter (\<lambda>t. snd t \<noteq> Whale_End) (whale_threads s)) =
      length (males (pool_of xs)) + length (females (pool_of xs)) + matches (printout s) + maker_avail s \<and>
    length xs = length (males (pool_of xs)) + length (females (pool_of xs)) + 3 * matches (printout s)"
  using whales_reachable_spec [OF assms] pool_lengths [of xs] by (simp add: waiting_def)

theorem whales_left_behind_witness:
  "\<exists>s. ex_whales = Inr s \<and> length (filter (\<lambda>t. snd t \<noteq> Whale_End) (whale_threads s)) = 1 + matches (printout s) \<and>
    (4, Whale_End) \<in> set (whale_threads s) \<and> (4, Found_Mate) \<notin> set (printout s) \<and> (\<forall>i. whale_step s i = None)"
proof -
  obtain s where s: "ex_whales = Inr s" "maker_avail s = 0"
    "whale_threads s = [(1, Wait_Maker), (2, Wait_Maker), (3, Whale_End), (4, Whale_End)]"
    "printout s = [(1, Male_Created), (2, Female_Created), (0, Found_Mate), (2, Found_Mate),
      (3, Male_Created), (3, Became_MatchMaker), (3, Mated), (4, Female_Created)]"
    using ex_whales_value by blast
  have "length (males (pool_of ex_created)) = 0" "length (females (pool_of ex_created)) = 1"
    by (simp_all add: pool_of_def pool0_def pool_create_def)
  then have "length (filter (\<lambda>t. snd t \<noteq> Whale_End) (whale_threads s)) = 1 + matches (printout s)"
    using whales_left_behind [OF ex_whales_reachable [OF s(1)] fresh_whales_good] s(2) by simp
  moreover have "whale_step s i = None" for i
    using s(2,3) by (auto simp: whale_step_def less_Suc_eq numeral_3_eq_3)
  ultimately show ?thesis using s(1,3,4) by (intro exI [of _ s]) simp
qed

end
