(* ===== verification/StatsProps.thy ===== *)
theory StatsProps imports StatsOutput WhaleProps begin

text \<open>
  What whales_stats.cc prints about the output of whales.c: the lines that one prints are taken apart
  by the other, whatever the times are.
\<close>

section \<open>The log of the whales\<close>

definition action_text :: "action \<Rightarrow> string" where
  "action_text a = (case a of Male_Created \<Rightarrow> ''Male Created'' | Female_Created \<Rightarrow> ''Female Created''
     | Found_Mate \<Rightarrow> ''Found Mate'' | Became_MatchMaker \<Rightarrow> ''Became MatchMaker'' | Mated \<Rightarrow> ''Mated'')"

definition whale_log :: "(int \<times> action) list \<Rightarrow> (int \<times> string) list" where
  "whale_log ls = map (\<lambda>l. (fst l, action_text (snd l))) ls"

definition times_printed :: "(int \<times> action) list \<Rightarrow> action \<Rightarrow> nat" where
  "times_printed ls a = length (filter (\<lambda>l. snd l = a) ls)"

lemma action_text_inject: "action_text a = action_text b \<longleftrightarrow> a = b"
  by (cases a; cases b) (simp_all add: action_text_def)

lemma whale_log_count:
  assumes "length ts = length (whale_log ls)"
  shows "entry_count (log_entries env ts (whale_log ls)) (action_text a) = times_printed ls a"
  using assms by (simp add: whale_log_def times_printed_def filter_map comp_def action_text_inject)

lemma whale_log_ok:
  assumes "length ts = length ls" and "\<forall>t \<in> set ts. time_text t" and "ids_ok (fst ` set ls)"
  shows "log_ok ts (whale_log ls)"
proof -
  have "CHR 0x0A \<notin> set (action_text a)" for a by (cases a) (simp_all add: action_text_def)
  with assms show ?thesis by (auto simp: log_ok_def whale_log_def image_image)
qed

text \<open>The counts after the entries \<open>es\<close> when they were \<open>s\<close> before.\<close>

definition counted :: "'t stats_env \<Rightarrow> 't whale_stats \<Rightarrow> ('t \<times> int \<times> string) list \<Rightarrow> 't whale_stats \<Rightarrow> bool" where
  "counted env s es s' \<longleftrightarrow>
     num_males s' = num_males s + entry_count es (action_text Male_Created) \<and>
     num_females s' = num_females s + entry_count es (action_text Female_Created) \<and>
     num_whales s' = num_whales s + entry_count es (action_text Male_Created) +
       entry_count es (action_text Female_Created) \<and>
     num_matches s' = num_matches s + entry_count es (action_text Found_Mate) \<and>
     num_matchmakers s' = num_matchmakers s + entry_count es (action_text Became_MatchMaker) \<and>
     num_mated s' = num_mated s + entry_count es (action_text Mated)"

interpretation whales: entry_reader whale_entry counted
proof unfold_locales
  fix env :: "'t stats_env" and s :: "'t whale_stats" and t and i :: int and action
  assume "stats_env_good env" "0 \<le> i" "i < 2 ^ 31"
  then obtain v where "grow env (whale_times s) i = Some v" using grow_ok by blast
  then show "\<exists>s'. whale_entry env s t i action = Some s' \<and> counted env s [(t, i, action)] s'"
    by (simp add: whale_entry_def action_text_def counted_def entry_count_def)
qed (simp_all add: counted_def entry_count_def)

text \<open>What the pool prints, counted.\<close>

lemma times_printed_simps [simp]:
  "times_printed [] a = 0" "times_printed (ls @ ls') a = times_printed ls a + times_printed ls' a"
  "times_printed (l # ls) a = (if snd l = a then 1 else 0) + times_printed ls a"
  by (simp_all add: times_printed_def)

lemma times_printed_Mated: "times_printed ls Mated = matches ls"
  by (simp add: times_printed_def matches_def)

definition pair_waits :: "pool \<Rightarrow> nat" where
  "pair_waits p = (if males p \<noteq> [] \<and> females p \<noteq> [] then 1 else 0)"

lemma lines_of_counts:
  "times_printed (lines_of xs) Male_Created = length (filter fst xs) \<and>
   times_printed (lines_of xs) Female_Created = length (filter (\<lambda>x. \<not> fst x) xs) \<and>
   times_printed (lines_of xs) Became_MatchMaker = matches (lines_of xs) \<and>
   times_printed (lines_of xs) Found_Mate = 2 * (matches (lines_of xs) + pair_waits (pool_of xs))"
proof (induction xs rule: rev_induct)
  case Nil
  then show ?case by (simp add: pair_waits_def pool0_def)
next
  case (snoc x xs)
  obtain m i where x: "x = (m, i)" by (cases x)
  have small: "tl (males (pool_of xs)) = [] \<or> tl (females (pool_of xs)) = []"
    using pool_lengths [of xs] by (cases "males (pool_of xs)"; cases "females (pool_of xs)") (auto simp: Suc_le_eq)
  show ?case
  proof (cases "males (pool_of xs) = [] \<or> females (pool_of xs) = []")
    case True
    with snoc show ?thesis by (auto simp: x pool_lines_def pool_create_def matches_def pair_waits_def)
  next
    case False
    with snoc small show ?thesis by (auto simp: x pool_lines_def pool_create_def matches_def pair_waits_def)
  qed
qed

definition pool_ids :: "pool \<Rightarrow> int set" where
  "pool_ids p = {last_male p, last_female p} \<union> set (males p) \<union> set (females p)"

lemma pool_create_ids:
  assumes "ids_ok (pool_ids p)" and "0 \<le> i" and "i < 2 ^ 31"
  shows "ids_ok (pool_ids (pool_create m i p)) \<and> ids_ok (fst ` set (pool_lines m i p))"
  using assms
  by (cases "males p"; cases "females p"; cases m) (simp_all add: pool_ids_def pool_create_def pool_lines_def)

lemma lines_of_ids:
  assumes "ids_ok (snd ` set xs)"
  shows "ids_ok (fst ` set (lines_of xs)) \<and> ids_ok (pool_ids (pool_of xs))"
  using assms
proof (induction xs rule: rev_induct)
  case Nil
  then show ?case by (simp add: pool_ids_def pool0_def)
next
  case (snoc x xs)
  obtain m i where x: "x = (m, i)" by (cases x)
  with snoc pool_create_ids [of "pool_of xs" i m] show ?case by (simp add: image_Un)
qed

section \<open>The time to mate\<close>

text \<open>When whale \<open>w\<close> was created, as far as the entries tell: the last such entry counts.\<close>

definition created_at :: "'t stats_env \<Rightarrow> ('t \<times> int \<times> string) list \<Rightarrow> int \<Rightarrow> 't" where
  "created_at env es w =
     (case filter (\<lambda>(t, i, a). i = w \<and> (a = ''Male Created'' \<or> a = ''Female Created'')) (rev es) of
        [] \<Rightarrow> fzero env | e # _ \<Rightarrow> fst e)"

text \<open>The sum, over the entries of matings, of the time since the whale that mates was created.\<close>

definition mating_time :: "'t stats_env \<Rightarrow> ('t \<times> int \<times> string) list \<Rightarrow> 't" where
  "mating_time env es = foldl (\<lambda>sum k. case es ! k of (t, i, a) \<Rightarrow>
     if a = ''Mated'' then fadd env sum (fsub env t (created_at env (take k es) i)) else sum) (fzero env) [0..<length es]"

lemma mating_time_Nil [simp]: "mating_time env [] = fzero env"
  by (simp add: mating_time_def)

lemma foldl_cong_set: "(\<And>x acc. x \<in> set xs \<Longrightarrow> f acc x = g acc x) \<Longrightarrow> foldl f a xs = foldl g a xs"
  by (induction xs arbitrary: a) auto

lemma mating_time_snoc:
  "mating_time env (es @ [(t, i, a)]) = (if a = ''Mated''
     then fadd env (mating_time env es) (fsub env t (created_at env es i)) else mating_time env es)"
proof -
  let ?f = "\<lambda>es sum k. case es ! k of (t, i, a) \<Rightarrow>
    if a = ''Mated'' then fadd env sum (fsub env t (created_at env (take k es) i)) else sum"
  have "foldl (?f (es @ [(t, i, a)])) (fzero env) [0..<length es] = foldl (?f es) (fzero env) [0..<length es]"
    by (rule foldl_cong_set) (simp add: nth_append split: prod.split)
  then show ?thesis by (simp add: mating_time_def)
qed

lemma created_at_Nil [simp]: "created_at env [] w = fzero env"
  by (simp add: created_at_def)

lemma created_at_snoc:
  "created_at env (es @ [(t, i, a)]) w =
     (if i = w \<and> (a = ''Male Created'' \<or> a = ''Female Created'') then t else created_at env es w)"
  by (auto simp: created_at_def)

text \<open>The program keeps both: a time that was not yet stored is 0.\<close>

definition time_of :: "'t stats_env \<Rightarrow> 't list \<Rightarrow> nat \<Rightarrow> 't" where
  "time_of env v w = (if w < length v then v ! w else fzero env)"

definition times_kept :: "'t stats_env \<Rightarrow> ('t \<times> int \<times> string) list \<Rightarrow> 't whale_stats \<Rightarrow> bool" where
  "times_kept env es s \<longleftrightarrow> total_time_to_mate s = mating_time env es \<and>
     (\<forall>w. time_of env (whale_times s) w = created_at env es (int w))"

lemma grow_times:
  assumes "grow env v i = Some v'"
  shows "0 \<le> i \<and> nat i < length v' \<and> time_of env v' w = time_of env v w"
  using assms by (auto simp: grow_def time_of_def nth_append split: if_splits)

lemma times_kept_entry:
  assumes "times_kept env es s" and "whale_entry env s t i a = Some s'"
  shows "times_kept env (es @ [(t, i, a)]) s'"
proof -
  obtain v where v: "grow env (whale_times s) i = Some v" using assms(2) by (auto simp: whale_entry_def)
  note g = grow_times [OF v]
  have kept: "time_of env v w = created_at env es (int w)" for w
    using g [of w] assms(1) by (simp add: times_kept_def)
  have upd: "time_of env (v[nat i := t]) w = (if int w = i then t else time_of env v w)" for w
    using g [of w] by (auto simp: time_of_def)
  have at: "v ! nat i = created_at env es i" using kept [of "nat i"] g [of 0] by (simp add: time_of_def)
  show ?thesis using assms v kept upd at
    by (auto simp: times_kept_def whale_entry_def mating_time_snoc created_at_snoc)
qed

lemma read_lines_append:
  "read_lines env f s (ls @ ms) = Option.bind (read_lines env f s ls) (\<lambda>s'. read_lines env f s' ms)"
  by (induction ls arbitrary: s) (auto split: option.splits entry.splits)

lemma line_entries_append:
  "line_entries env (ls @ ms) =
    Option.bind (line_entries env ls) (\<lambda>es. map_option ((@) es) (line_entries env ms))"
proof (induction ls)
  case Nil
  then show ?case by (cases "line_entries env ms") simp_all
next
  case (Cons l ls)
  then show ?case
    by (cases "line_entries env ls"; cases "line_entries env ms") (auto split: option.splits entry.splits)
qed

lemma times_kept_read:
  assumes "line_entries env ls = Some es" and "read_lines env (whale_entry env) (whale_stats0 env) ls = Some s"
  shows "times_kept env es s"
  using assms
proof (induction ls arbitrary: es s rule: rev_induct)
  case Nil
  then show ?case by (auto simp: times_kept_def whale_stats0_def time_of_def)
next
  case (snoc l ls)
  obtain es1 s1 where one: "line_entries env ls = Some es1"
    "read_lines env (whale_entry env) (whale_stats0 env) ls = Some s1"
    using snoc.prems by (auto simp: line_entries_append read_lines_append Option.bind_eq_Some_conv)
  note kept = snoc.IH [OF one]
  show ?case using snoc.prems one kept times_kept_entry [OF kept]
    by (auto simp: line_entries_append read_lines_append split: option.splits entry.splits)
qed

section \<open>Properties\<close>

text \<open>
  C38. What the checker prints about the whales: given the output of the simulation in any reachable state, with
  any times, on its standard input, it reads every line, echoes them with the option -o (and an empty line for the end of
  the input), and prints the numbers of whales, of males and of females that were created, the
  number of matchmakers, that of the pairs that were found, which is one more if a pair is
  waiting, as copulations half the number of the matchmakers (rounded down), as it expects
  both mates to print what only the matchmaker does, and as the average time to mate the sum, over the
  matchmakers, of the time from their creation to their mating, divided by twice their number.
\<close>

theorem whale_stats_printed:
  assumes "whales_reachable malloc xs s" and "whale_malloc_good malloc" and "length xs < 2 ^ 31"
    and "ids_ok (snd ` set xs)" and "stats_env_good env"
    and "length ts = length (printout s)" and "\<forall>t \<in> set ts. time_text t"
  shows "whale_stats_output env oenv showOutput (log_text ts (whale_log (printout s))) =
    ((if showOutput then log_text ts (whale_log (printout s)) @ newline else []) @ newline @ newline @
     ''Total Whales: '' @ dec (length xs) @ newline @
     ''Total Males: '' @ dec (length (filter fst xs)) @ newline @
     ''Total Females: '' @ dec (length (filter (\<lambda>x. \<not> fst x) xs)) @ newline @
     ''Total MatchMakers: '' @ dec (matches (printout s)) @ newline @
     ''Total Matches: '' @ dec (matches (printout s) + (if male s > 0 \<and> female s > 0 then 1 else 0)) @ newline @
     ''Total # Copulations: '' @ dec (matches (printout s) div 2) @ newline @
     ''Average Time To Mate: '' @ show_ratio oenv (mating_time env (log_entries env ts (whale_log (printout s))))
       (2 * matches (printout s)) @ newline, True)"
proof -
  let ?L = "whale_log (printout s)"
  have spec: "represents s (pool_of xs)" "printout s = lines_of xs"
    using whales_reachable_spec [OF assms(1-3)] by blast+
  have len: "length ts = length ?L" using assms(6) by (simp add: whale_log_def)
  have ok: "log_ok ts ?L"
    using whale_log_ok [OF assms(6,7)] lines_of_ids [OF assms(4)] spec(2) by simp
  obtain st where st: "readStream env (whale_entry env) (whale_stats0 env) (log_text ts ?L) = Some st"
    "counted env (whale_stats0 env) (log_entries env ts ?L) st"
    using whales.reads_log [OF assms(5) ok] by blast
  note n = st(2) [unfolded counted_def, unfolded whale_log_count [OF len] times_printed_Mated]
  have "pair_waits (pool_of xs) = (if male s > 0 \<and> female s > 0 then 1 else 0)"
    using spec(1) by (auto simp: pair_waits_def represents_def)
  moreover have "length (filter fst xs) + length (filter (\<lambda>x. \<not> fst x) xs) = length xs" by (rule sum_length_filter_compl)
  ultimately have "whale_printStats st = [length xs, length (filter fst xs), length (filter (\<lambda>x. \<not> fst x) xs),
      matches (printout s), matches (printout s) + (if male s > 0 \<and> female s > 0 then 1 else 0),
      matches (printout s) div 2]"
    using n lines_of_counts [of xs] spec(2) by (simp add: whale_printStats_def whale_stats0_def)
  moreover have "num_mated st = matches (printout s)" using n by (simp add: whale_stats0_def)
  moreover have "total_time_to_mate st = mating_time env (log_entries env ts ?L)"
    using times_kept_read [OF line_entries_log [OF ok] st(1) [unfolded readStream_def]] by (simp add: times_kept_def)
  ultimately show ?thesis
    using stats_output_text [OF st(1), of "whale_text oenv" showOutput] unlines_log [OF ok]
    by (simp add: whale_stats_output_def whale_text_def count_lines_def)
qed

text \<open>Whole numbers for times, of whales one of which mates two seconds after it was created.\<close>

definition int_env :: "int stats_env" where
  "int_env = \<lparr>atof = atoi, fadd = (+), fsub = (-), fzero = 0, vector_ok = (\<lambda>n. True)\<rparr>"

definition int_out :: "int out_env" where
  "int_out = \<lparr>show_float = dec_int, show_ratio = (\<lambda>t n. dec_int t @ ''/'' @ dec n)\<rparr>"

definition ex_times :: "string list" where
  "ex_times = [''1'', ''2'', ''3'', ''4'', ''5'', ''6'', ''7'', ''8'']"

definition ex_log :: "(int \<times> string) list" where
  "ex_log = whale_log [(1, Male_Created), (2, Female_Created), (0, Found_Mate), (2, Found_Mate), (3, Male_Created),
     (3, Became_MatchMaker), (3, Mated), (4, Female_Created)]"

lemma ex_mating_time: "mating_time int_env (log_entries int_env ex_times ex_log) = 2"
  by code_simp

theorem whale_stats_printed_witness:
  "\<exists>s. ex_whales = Inr s \<and>
    whale_stats_output int_env int_out False (log_text ex_times (whale_log (printout s))) =
     (newline @ newline @ ''Total Whales: 4'' @ newline @ ''Total Males: 2'' @ newline @ ''Total Females: 2'' @ newline @
      ''Total MatchMakers: 1'' @ newline @ ''Total Matches: 1'' @ newline @ ''Total # Copulations: 0'' @ newline @
      ''Average Time To Mate: 2/2'' @ newline, True)"
proof -
  obtain s where s: "ex_whales = Inr s" "printout s = [(1, Male_Created), (2, Female_Created), (0, Found_Mate),
      (2, Found_Mate), (3, Male_Created), (3, Became_MatchMaker), (3, Mated), (4, Female_Created)]"
    using ex_whales_value by blast
  have "length (males (pool_of ex_created)) = 0"
    by (simp add: pool_of_def pool0_def pool_create_def)
  then have "male s = 0"
    using whales_reachable_spec [OF ex_whales_reachable [OF s(1)] fresh_whales_good] by (simp add: represents_def)
  moreover have "matches (printout s) = 1" by (simp add: s(2) matches_def)
  moreover have "whale_log (printout s) = ex_log" by (simp add: ex_log_def s(2))
  moreover have "dec 0 = ''0''" "dec 1 = ''1''" "dec (Suc (Suc 0)) = ''2''" "dec (Suc (Suc (Suc (Suc 0)))) = ''4''"
    by code_simp+
  moreover have "show_ratio int_out 2 2 = ''2/2''" by code_simp
  moreover have "ids_ok (snd ` set ex_created)" "length ex_times = length (printout s)"
    "\<forall>t \<in> set ex_times. time_text t" "stats_env_good int_env"
    by (simp_all add: ids_ok_def s(2) ex_times_def time_text_def stats_env_good_def int_env_def)
  ultimately show ?thesis
    using whale_stats_printed [OF ex_whales_reachable [OF s(1)] fresh_whales_good, of int_env ex_times int_out False] s(1)
    by (intro exI [of _ s]) (simp add: ex_mating_time)
qed

end
