(* ===== verification/WhaleRace.thy ===== *)
theory WhaleRace imports WhaleProps begin

text \<open>
  The whales when \<open>main\<close> does not wait long enough between two of them: \<open>create_male\<close> and \<open>create_female\<close> are cut
  between the tests of the counters, which no lock protects, and the branch that the tests chose, so that another
  whale may run in between.
\<close>

section \<open>The parts of create_male and create_female\<close>

datatype whale_branch = Be_Matchmaker | Find_Mate | Wait_Mate

definition whale_announce :: "bool \<Rightarrow> int \<Rightarrow> whales \<Rightarrow> whales" where
  "whale_announce is_male wid s = printed wid (if is_male then Male_Created else Female_Created) s"

definition whale_test :: "bool \<Rightarrow> whales \<Rightarrow> whale_branch" where
  "whale_test is_male s =
     (if male s > 0 \<and> female s > 0 then Be_Matchmaker
      else if (if is_male then female s else male s) > 0 then Find_Mate
      else Wait_Mate)"

definition male_branch :: "whale_malloc \<Rightarrow> int \<Rightarrow> whale_branch \<Rightarrow> whales \<Rightarrow> whales res" where
  "male_branch malloc wid b s = (case b of
     Be_Matchmaker \<Rightarrow> match_pair wid s
   | Find_Mate \<Rightarrow>
       bindr (load (whale_heap s) (femaleQ s)) (\<lambda>w.
       bindr (c_int (male s + 1)) (\<lambda>n.
       bindr (append_whale malloc (whale_heap s) (maleQ s) wid) (\<lambda>h.
       Inr ((printed (whale_id w) Found_Mate (printed wid Found_Mate s))
         \<lparr>male := n, whale_heap := h, male_avail := male_avail s + 1,
          whale_threads := whale_threads s @ [(wid, Wait_Maker)]\<rparr>))))
   | Wait_Mate \<Rightarrow>
       bindr (append_whale malloc (whale_heap s) (maleQ s) wid) (\<lambda>h.
       bindr (c_int (male s + 1)) (\<lambda>n.
       Inr (s\<lparr>male := n, whale_heap := h, male_avail := male_avail s + 1,
              whale_threads := whale_threads s @ [(wid, Wait_Female)]\<rparr>))))"

definition female_branch :: "whale_malloc \<Rightarrow> int \<Rightarrow> whale_branch \<Rightarrow> whales \<Rightarrow> whales res" where
  "female_branch malloc wid b s = (case b of
     Be_Matchmaker \<Rightarrow> match_pair wid s
   | Find_Mate \<Rightarrow>
       bindr (load (whale_heap s) (maleQ s)) (\<lambda>w.
       bindr (append_whale malloc (whale_heap s) (femaleQ s) wid) (\<lambda>h.
       bindr (c_int (female s + 1)) (\<lambda>n.
       Inr ((printed wid Found_Mate (printed (whale_id w) Found_Mate s))
         \<lparr>female := n, whale_heap := h, fem_avail := fem_avail s + 1,
          whale_threads := whale_threads s @ [(wid, Wait_Maker)]\<rparr>))))
   | Wait_Mate \<Rightarrow>
       bindr (append_whale malloc (whale_heap s) (femaleQ s) wid) (\<lambda>h.
       bindr (c_int (female s + 1)) (\<lambda>n.
       Inr (s\<lparr>female := n, whale_heap := h, fem_avail := fem_avail s + 1,
              whale_threads := whale_threads s @ [(wid, Wait_Male)]\<rparr>))))"

definition whale_act :: "whale_malloc \<Rightarrow> bool \<Rightarrow> int \<Rightarrow> whale_branch \<Rightarrow> whales \<Rightarrow> whales res" where
  "whale_act malloc is_male = (if is_male then male_branch malloc else female_branch malloc)"

text \<open>Without an interruption the parts are \<open>create_whale\<close>.\<close>

lemma create_whale_parts:
  "create_whale malloc is_male wid s =
    (let s1 = whale_announce is_male wid s in whale_act malloc is_male wid (whale_test is_male s1) s1)"
  by (simp add: create_whale_def create_male_def create_female_def whale_announce_def whale_test_def whale_act_def
      male_branch_def female_branch_def Let_def printed_def)

lemma announce_keeps [simp]:
  "represents (whale_announce m wid s) p \<longleftrightarrow> represents s p"
  "whale_test m' (whale_announce m wid s) = whale_test m' s"
  "printout (whale_announce m wid s) = printout s @ [(wid, if m then Male_Created else Female_Created)]"
  by (simp_all add: whale_announce_def represents_def whale_test_def printed_def)

section \<open>Two matchmakers of one pair\<close>

text \<open>A matchmaker that comes when one of the queues has only its dummy takes both of them away.\<close>

lemma match_pair_empty:
  assumes "represents s p" and "males p = [] \<or> females p = []"
    and "length (males p) < 2 ^ 31" and "length (females p) < 2 ^ 31"
  shows "\<exists>u. match_pair wid s = Inr u \<and> maleQ u = None \<and> femaleQ u = None \<and>
    male u = int (length (males p)) - 1 \<and> female u = int (length (females p)) - 1 \<and>
    printout u = printout s @ [(wid, Became_MatchMaker), (wid, Mated)] \<and> maker_avail u = maker_avail s + 1 \<and>
    finite (dom (whale_heap u))"
proof -
  note q = assms(1) [unfolded represents_def]
  obtain m where m: "queue_next (whale_heap s) (maleQ s) = Inr m" "m = None \<longleftrightarrow> males p = []"
    using two_queues_next q by blast
  obtain f where f: "queue_next (whale_heap s) (femaleQ s) = Inr f" "f = None \<longleftrightarrow> females p = []"
    using two_queues_next two_queues_swap q by blast
  have "c_int (male s - 1) = Inr (male s - 1)" "c_int (female s - 1) = Inr (female s - 1)"
    using q assms(3,4) by (simp_all add: c_int_def int32_ok_def)
  then show ?thesis using m f assms(2) q by (auto simp: match_pair_def Let_def printed_def two_queues_def)
qed

text \<open>After that no whale can be created, as both queues are NULL and one of the counters is not positive.\<close>

lemma no_queue_crashes:
  assumes "maleQ u = None" and "femaleQ u = None" and "\<not> (male u > 0 \<and> female u > 0)"
    and "male u < 2 ^ 31 - 1" and "- (2 ^ 31) \<le> male u + 1"
    and "whale_malloc_good malloc" and "finite (dom (whale_heap u))"
  shows "create_whale malloc is_male wid u = Inl Null_Deref"
proof -
  obtain a where "malloc (whale_heap u) = Some a" using assms(6,7) by (auto simp: whale_malloc_good_def)
  moreover have "c_int (male u + 1) = Inr (male u + 1)" using assms(4,5) by (simp add: c_int_def int32_ok_def)
  ultimately show ?thesis using assms(1-3)
    by (auto simp: create_whale_def create_male_def create_female_def append_whale_def printed_def Let_def)
qed

text \<open>Two males that both find the one female that waits.\<close>

lemma mates_race:
  assumes "represents s p" and "males p = []" and "females p = [f]" and "whale_malloc_good malloc"
  shows "whale_test True (whale_announce True w1 s) = Find_Mate \<and>
    whale_test True (whale_announce True w2 (whale_announce True w1 s)) = Find_Mate \<and>
    (\<exists>t u. whale_act malloc True w1 Find_Mate (whale_announce True w2 (whale_announce True w1 s)) = Inr t \<and>
      whale_act malloc True w2 Find_Mate t = Inr u \<and> male u = 2 \<and> female u = 1 \<and>
      printout u = printout s @ [(w1, Male_Created), (w2, Male_Created), (w1, Found_Mate), (last_female p, Found_Mate),
        (w2, Found_Mate), (last_female p, Found_Mate)])"
proof -
  let ?s = "whale_announce True w2 (whale_announce True w1 s)"
  have step: "\<exists>t. whale_act malloc True wid Find_Mate s = Inr t \<and> represents t (p\<lparr>males := males p @ [wid]\<rparr>) \<and>
      printout t = printout s @ [(wid, Found_Mate), (last_female p, Found_Mate)]"
    if "represents s p" "length (males p) + 1 < 2 ^ 31" for s p wid
  proof -
    note q = that(1) [unfolded represents_def]
    obtain wf where wf: "load (whale_heap s) (femaleQ s) = Inr wf" "whale_id wf = last_female p"
      using two_queues_load two_queues_swap q by blast
    obtain h where h: "append_whale malloc (whale_heap s) (maleQ s) wid = Inr h"
      "two_queues h (maleQ s) ((last_male p # males p) @ [wid]) (femaleQ s) (last_female p # females p)"
      using two_queues_append [OF _ assms(4)] q by blast
    have "c_int (male s + 1) = Inr (male s + 1)" using q that(2) by (simp add: c_int_def int32_ok_def)
    then show ?thesis using wf h q
      by (auto simp: whale_act_def male_branch_def printed_def represents_def)
  qed
  have "represents ?s p" using assms(1) by simp
  from step [OF this, of w1] assms(2) obtain t where t: "whale_act malloc True w1 Find_Mate ?s = Inr t"
    "represents t (p\<lparr>males := [w1]\<rparr>)" "printout t = printout ?s @ [(w1, Found_Mate), (last_female p, Found_Mate)]" by auto
  from step [OF t(2), of w2] obtain u where u: "whale_act malloc True w2 Find_Mate t = Inr u"
    "represents u (p\<lparr>males := [w1, w2]\<rparr>)" "printout u = printout t @ [(w2, Found_Mate), (last_female p, Found_Mate)]" by auto
  have "whale_test True s = Find_Mate" using assms(1-3) by (simp add: whale_test_def represents_def)
  moreover have "male u = 2" "female u = 1" using u(2) assms(3) by (simp_all add: represents_def)
  ultimately show ?thesis using t u by auto
qed

section \<open>The property\<close>

text \<open>
  C40. The counters of the whales must not be tested by two whales at once, but nothing prevents it: in every
  reachable state in which a male and a female wait, two new whales that both run their tests before either goes on
  both become matchmaker of the same pair. The second one finds only the dummy in one of the queues, takes both
  queues away and leaves a counter negative; two pairs are reported as mated, and the creation of any further
  whale follows a NULL pointer.
\<close>

theorem whales_race:
  assumes "whales_reachable malloc xs s" and "whale_malloc_good malloc" and "length xs < 2 ^ 31"
    and "males (pool_of xs) \<noteq> []" and "females (pool_of xs) \<noteq> []"
    and s2: "s2 = whale_announce m2 w2 (whale_announce m1 w1 s)"
  shows "whale_test m1 (whale_announce m1 w1 s) = Be_Matchmaker \<and> whale_test m2 s2 = Be_Matchmaker \<and>
    (\<exists>t u. whale_act malloc m1 w1 Be_Matchmaker s2 = Inr t \<and> whale_act malloc m2 w2 Be_Matchmaker t = Inr u \<and>
      matches (printout u) = matches (printout s) + 2 \<and> (male u < 0 \<or> female u < 0) \<and>
      (\<forall>is_male wid. create_whale malloc is_male wid u = Inl Null_Deref))"
proof -
  let ?p = "pool_of xs"
  let ?q = "\<lparr>last_male = hd (males ?p), males = tl (males ?p), last_female = hd (females ?p), females = tl (females ?p)\<rparr>"
  have R: "represents s ?p" using whales_reachable_spec [OF assms(1-3)] by blast
  then have test: "whale_test m s = Be_Matchmaker" for m
    using assms(4,5) by (simp add: whale_test_def represents_def)
  have len: "length (males ?p) < 2 ^ 31" "length (females ?p) < 2 ^ 31"
    and one: "\<not> (2 \<le> length (males ?p) \<and> 2 \<le> length (females ?p))"
    using pool_lengths [of xs] assms(3) by linarith+
  have R2: "represents s2 ?p" using R by (simp add: s2)
  from match_pair_spec [OF R2 assms(4,5) len, of w1] obtain t where
    t: "match_pair w1 s2 = Inr t" "represents t ?q" "printout t = printout s2 @ [(w1, Became_MatchMaker), (w1, Mated)]" by blast
  have empty: "males ?q = [] \<or> females ?q = []" using one assms(4,5) by (cases "males ?p"; cases "females ?p") (auto simp: Suc_le_eq)
  moreover have "length (males ?q) < 2 ^ 31" "length (females ?q) < 2 ^ 31" using len by auto
  ultimately obtain u where
    u: "match_pair w2 t = Inr u" "maleQ u = None" "femaleQ u = None"
      "male u = int (length (males ?q)) - 1" "female u = int (length (females ?q)) - 1"
      "printout u = printout t @ [(w2, Became_MatchMaker), (w2, Mated)]" "finite (dom (whale_heap u))"
    using match_pair_empty [OF t(2), of w2] by blast
  from empty have neg: "male u < 0 \<or> female u < 0"
  proof
    assume "males ?q = []" then show ?thesis unfolding u(4) by simp
  next
    assume "females ?q = []" then show ?thesis unfolding u(5) by simp
  qed
  have "create_whale malloc is_male wid u = Inl Null_Deref" for is_male wid
    by (rule no_queue_crashes [OF u(2,3) _ _ _ assms(2) u(7)]) (use neg u(4) len in auto)
  moreover have "whale_act malloc m w Be_Matchmaker = match_pair w" for m w
    by (simp add: fun_eq_iff whale_act_def male_branch_def female_branch_def)
  moreover have "matches (printout u) = matches (printout s) + 2"
    using t(3) u(6) by (simp add: s2 matches_def)
  ultimately show ?thesis using test t(1) u(1) neg by (auto simp: s2)
qed

text \<open>The male 1 and the female 2 wait; 3 and 4 both match them.\<close>

theorem whales_race_witness:
  "\<exists>s t u. whales_reachable fresh_address [(True, 1), (False, 2)] s \<and>
    whale_act fresh_address True 3 Be_Matchmaker (whale_announce True 4 (whale_announce True 3 s)) = Inr t \<and>
    whale_act fresh_address True 4 Be_Matchmaker t = Inr u \<and> matches (printout u) = 2 \<and>
    create_whale fresh_address False 5 u = Inl Null_Deref"
proof -
  obtain s0 where s0: "whaleInit fresh_address = Inr s0" using represents_init [OF fresh_whales_good] by blast
  have "males (pool_of []) = []" "females (pool_of []) = []" by (simp_all add: pool0_def)
  note r0 = whales_reachable.start [OF s0]
  from whales_reachable_spec [OF r0 fresh_whales_good] have "represents s0 (pool_of [])" by simp
  from create_whale_spec [OF this fresh_whales_good, of True 1] obtain s1 where
    s1: "create_whale fresh_address True 1 s0 = Inr s1" by (auto simp: pool0_def)
  note r1 = whales_reachable.create [OF r0 s1, unfolded append_Nil]
  from whales_reachable_spec [OF r1 fresh_whales_good] have "represents s1 (pool_of [(True, 1)])" by simp
  from create_whale_spec [OF this fresh_whales_good, of False 2] obtain s where
    s: "create_whale fresh_address False 2 s1 = Inr s" by (auto simp: pool_of_def pool_create_def pool0_def)
  note r = whales_reachable.create [OF r1 s]
  have p: "males (pool_of ([(True, 1)] @ [(False, 2)])) \<noteq> []" "females (pool_of ([(True, 1)] @ [(False, 2)])) \<noteq> []"
    by (simp_all add: pool_of_def pool_create_def pool0_def)
  have "printout s = lines_of ([(True, 1)] @ [(False, 2)])"
    using whales_reachable_spec [OF r fresh_whales_good] by simp
  then have "matches (printout s) = 0"
    by (simp add: lines_of_def pool_lines_def pool_create_def pool0_def matches_def)
  with whales_race [OF r fresh_whales_good _ p refl, of True 3 True 4] r show ?thesis by fastforce
qed

end
