(* ===== verification/WhalesNew.thy ===== *)
theory WhalesNew imports WhaleProps begin

text \<open>
  An earlier version of the whales (whalesnew.c), with counters in place of queues and semaphores, and that
  it would match the same whales. Its threads do not wait for each other; as in Whales each runs
  before the next is created.
\<close>

section \<open>The program\<close>

record whales_new =
  new_male :: int
  new_female :: int
  matepresent :: int
  new_output :: "(int \<times> action) list"

definition whales_new0 :: whales_new where
  "whales_new0 = \<lparr>new_male = 0, new_female = 0, matepresent = 0, new_output = []\<rparr>"

definition new_printed :: "int \<Rightarrow> action \<Rightarrow> whales_new \<Rightarrow> whales_new" where
  "new_printed wid a s = s\<lparr>new_output := new_output s @ [(wid, a)]\<rparr>"

definition new_create_male :: "int \<Rightarrow> whales_new \<Rightarrow> whales_new res" where
  "new_create_male wid s0 =
     (let s = new_printed wid Male_Created s0 in
      if matepresent s = 1
      then Inr ((new_printed wid Mated (new_printed wid Became_MatchMaker s))\<lparr>matepresent := 0\<rparr>)
      else if new_female s > 0
      then bindr (c_int (new_female s - 1)) (\<lambda>n.
           Inr (new_printed wid Found_Mate (s\<lparr>new_female := n, matepresent := 1\<rparr>)))
      else bindr (c_int (new_male s + 1)) (\<lambda>n. Inr (s\<lparr>new_male := n\<rparr>)))"

definition new_create_female :: "int \<Rightarrow> whales_new \<Rightarrow> whales_new res" where
  "new_create_female wid s0 =
     (let s = new_printed wid Female_Created s0 in
      if matepresent s = 1
      then Inr ((new_printed wid Mated (new_printed wid Became_MatchMaker s))\<lparr>matepresent := 0\<rparr>)
      else if new_male s > 0
      then bindr (c_int (new_male s - 1)) (\<lambda>n.
           Inr ((new_printed wid Found_Mate (s\<lparr>new_male := n\<rparr>))\<lparr>matepresent := 1\<rparr>))
      else bindr (c_int (new_female s + 1)) (\<lambda>n. Inr (s\<lparr>new_female := n\<rparr>)))"

definition new_create_whale :: "bool \<Rightarrow> int \<Rightarrow> whales_new \<Rightarrow> whales_new res" where
  "new_create_whale is_male wid s = (if is_male then new_create_male wid s else new_create_female wid s)"

text \<open>The loop of \<open>main\<close>, with the outcomes of \<open>rand\<close>.\<close>

primrec new_create_whales :: "(bool \<times> int) list \<Rightarrow> whales_new \<Rightarrow> whales_new res" where
  "new_create_whales [] s = Inr s"
| "new_create_whales (x # xs) s = bindr (new_create_whale (fst x) (snd x) s) (new_create_whales xs)"

text \<open>\<open>main\<close> does its work when \<open>sem_init\<close> returns an error.\<close>

definition whales_new_main :: "int \<Rightarrow> nat \<Rightarrow> (bool \<times> int) list \<Rightarrow> whales_new res" where
  "whales_new_main sem_init_result argc xs =
     (if sem_init_result \<noteq> 0
      then if argc \<noteq> 3 then Inl (Exit (-1)) else new_create_whales xs whales_new0
      else Inr whales_new0)"

section \<open>The same matches\<close>

definition new_represents :: "whales_new \<Rightarrow> pool \<Rightarrow> bool" where
  "new_represents s p \<longleftrightarrow>
     matepresent s = (if males p \<noteq> [] \<and> females p \<noteq> [] then 1 else 0) \<and>
     new_male s = int (length (males p)) - matepresent s \<and> new_female s = int (length (females p)) - matepresent s \<and>
     (tl (males p) = [] \<or> tl (females p) = [])"

definition not_found :: "(int \<times> action) list \<Rightarrow> (int \<times> action) list" where
  "not_found ls = filter (\<lambda>l. snd l \<noteq> Found_Mate) ls"

lemma new_create_spec:
  assumes "new_represents s p" and "length (males p) + 1 < 2 ^ 31" and "length (females p) + 1 < 2 ^ 31"
  shows "\<exists>s'. new_create_whale is_male wid s = Inr s' \<and> new_represents s' (pool_create is_male wid p) \<and>
    not_found (new_output s') = not_found (new_output s) @ not_found (pool_lines is_male wid p)"
  using assms
  by (cases "males p"; cases "females p"; cases is_male)
    (auto simp: new_represents_def new_create_whale_def new_create_male_def new_create_female_def Let_def
      new_printed_def pool_create_def pool_lines_def not_found_def c_int_def int32_ok_def)

lemma new_create_whales_snoc:
  "new_create_whales (xs @ [x]) s = bindr (new_create_whales xs s) (new_create_whale (fst x) (snd x))"
proof (induction xs arbitrary: s)
  case Nil
  then show ?case by (cases "new_create_whale (fst x) (snd x) s") simp_all
next
  case (Cons y ys)
  then show ?case by (cases "new_create_whale (fst y) (snd y) s") simp_all
qed

text \<open>
  Leaving aside the lines \<open>Found Mate\<close>, the loop prints for the same whales the same lines as
  whales.c: the same whales become matchmakers. As written it runs only when \<open>sem_init\<close> fails.
\<close>

lemma whales_new_same_matches:
  assumes "length xs < 2 ^ 31"
  shows "\<exists>s. new_create_whales xs whales_new0 = Inr s \<and> new_represents s (pool_of xs) \<and>
    not_found (new_output s) = not_found (lines_of xs)"
  using assms
proof (induction xs rule: rev_induct)
  case Nil
  then show ?case by (simp add: whales_new0_def new_represents_def pool0_def not_found_def)
next
  case (snoc x xs)
  obtain m i where x: "x = (m, i)" by (cases x)
  obtain s where s: "new_create_whales xs whales_new0 = Inr s" "new_represents s (pool_of xs)"
    "not_found (new_output s) = not_found (lines_of xs)" using snoc by auto
  have "length xs + 1 < 2 ^ 31" using snoc.prems by simp
  then have "length (males (pool_of xs)) + 1 < 2 ^ 31" "length (females (pool_of xs)) + 1 < 2 ^ 31"
    using pool_lengths [of xs] by linarith+
  from new_create_spec [OF s(2) this, of m i] s(1,3) show ?case
    by (auto simp: x new_create_whales_snoc not_found_def)
qed

lemma whales_new_main_idle: "whales_new_main 0 argc xs = Inr whales_new0"
  by (simp add: whales_new_main_def)

end
