(* ===== verification/Spec2Isabelle.thy ===== *)
theory Spec2Isabelle imports RecProps RecPrint UThreadProps UThreadRace YieldRace UThreadTest UMutexProps MutexTest ListProps ListTyped CoClientProps HarnessProps PhilProps PhilStats ShellProps ProdConProps ProdConCv ProdConScreen WaterProps WaterStats StatsProps StatsOutput WhaleRace WhalesNew begin

text \<open>
  Verification library for the C and C++ programs of the operating systems course repository:
  a recovery tool for a disk image (Asmt_6), user level threads with priorities and mutexes
  (Asmt_4), cooperative threads on a linked list (Asmt_3), the list and its test harness (Asmt_1,
  Asmt_3), a shell (Asmt_2), and simulations with POSIX threads (Asmt_5).

  \<^bold>\<open>Conventions.\<close> A step that can go wrong returns \<open>c_error + 'a\<close> (Prelude): \<open>Inl\<close> of the
  undefined behaviour or of \<open>Exit n\<close>, \<open>Inr\<close> of the result; \<open>bindr\<close> sequences such steps. A
  signed \<open>int\<close> is an \<open>int\<close> and \<open>c_int\<close> checks its range; an \<open>unsigned int\<close> is a \<open>32 word\<close> and
  wraps. A pointer is \<open>None\<close> (NULL) or an address, a heap is a map from the addresses of the
  live objects of one type; \<open>free\<close> takes an address out. A loop on heap pointers, or one fed by
  input, that may never end is a \<open>partial_function (option)\<close> with value \<open>None\<close> for not ending, and
  the theorems say when it ends; no definition has fuel. Records whose names end in \<open>env\<close> or
  \<open>sys\<close> stand for \<open>malloc\<close>, \<open>qsort\<close>, system calls and memory that was never written; the
  hypotheses about them are the definitions whose names end in \<open>good\<close> or \<open>ok\<close>, each met by an
  example in a witness. They say that nothing is refused (\<open>malloc\<close> finds a free address, \<open>fwrite\<close> and
  the system calls succeed) and nothing of what fresh memory contains: where the code reads such
  memory, its contents are arbitrary and appear in the theorem. \<open>qsort\<close> is any function that permutes and sorts when the comparison is
  consistent (Qsort: \<open>qsort_ok\<close>), so results hold for every such sort, stable or not.

  \<^bold>\<open>Recovery (Asmt_6/recover.c, recover.h).\<close> RecImage has the image as a list of bytes, \<open>struct
  inode\<close> read from it, \<open>find_inode\<close> and \<open>check_inode\<close>; RecCopy has \<open>copy_dblock\<close>, \<open>unwind_iblock\<close>
  and \<open>copy_i1block\<close> with their error codes and the array of used blocks; RecExtract has the four
  stages of \<open>main\<close> that copy the blocks of one inode, and what they write as a function of the
  image; RecExt has \<open>guess_file_extension\<close> with its uninitialised buffer; RecMain has the arguments,
  the search loop, the renaming and the counts; \<open>recover_main\<close> returns the files written, also when it ends in an
  error, and the result. The read of \<open>block_buffer[256]\<close> after 256 valid entries is the error \<open>Out_Of_Bounds\<close>, and the locales
  \<open>block_copier\<close> and \<open>copy_loop\<close> carry the pointers that lead to it. RecProps shows that a file is extracted exactly up
  to the doubly indirect blocks, or ends in that read, and what happens beyond, that only checked inodes of the owner are
  written, and which undefined behaviours \<open>main\<close> can end in. RecPrint has \<open>print_inode\<close>
  and that an inode can be read back from what it prints.

  \<^bold>\<open>Threads (Asmt_4/uthread.c, uthread.h).\<close> UThread has the scheduler on a heap of thread structs
  linked in a circle (\<open>uthread_init\<close>, \<open>_create\<close>, \<open>_yield\<close>, \<open>_exit\<close>, the timer handler) and shows
  that every operation keeps the circle; USched has the policy \<open>next_run\<close> and what follows for
  fairness, by the locale \<open>cyclic_yield\<close> of the Prelude; UMutex has the mutex with its sorted queue of
  wait records, and UMutexSys threads that share a mutex as a step relation. MutexTest has the test
  program of the mutexes (mutex_test.c), statement by statement on this model, with the timer between any
  two steps; UThreadTest does the same for the test program of the threads (uthread_test.c) and shows what it prints
  and when its \<open>main\<close> runs. The properties are in UThreadProps, UMutexProps, MutexTest and UThreadTest. Contexts are not executed: a
  state says which thread runs. Each call is one step, as the timer is blocked in the mutex functions;
  \<open>uthread_create\<close> and \<open>uthread_exit\<close> do not block it, and UThreadRace cuts \<open>uthread_create\<close> in
  three parts and shows what happens when other threads run between them; \<open>uthread_yield\<close> does not block it either
  when a thread calls it, and YieldRace cuts it before its switch, with contexts that say whose code they hold.

  \<^bold>\<open>List and cooperative threads (Asmt_1, Asmt_3).\<close> HeapPath has linked paths and circles; ListT has
  list_t.c and list_item_t.c over the function pointers of the list; CoThread has thread_t.c and
  uthread.c of Asmt_3, and CoClient the programs that run on it: a program is a list of prints and calls
  for each thread, and the three test programs of Asmt_3 are such programs. CoClientProps shows that the
  library runs every program like a queue of coroutines, and what the test programs print. CString has
  C strings and \<open>strcmp\<close>; Harness has harness.c from the bytes of its input to its output, and HarnessWords the words of a file, read into
  buffers of any contents and not terminated, with the locale \<open>word_insertion\<close> that
  both ways of insertion satisfy. ListProps and HarnessProps show that the list is a queue (the locale \<open>queue\<close> of ListT), also in
  what it allocates and frees, what
  sorted insertion does and which link it breaks, round robin, and what each option prints. ListTyped
  has a typing of the programs that use the list, by who owns the objects, and shows it sound.

  \<^bold>\<open>Shell (Asmt_2/shell.c).\<close> Shell has the program: \<open>read_input\<close> the input buffer that grows, \<open>strtok\<close>
  and \<open>tokenise\<close> the tokens as offsets into it, \<open>run_child\<close> the arguments and redirections of the
  child, \<open>shell_loop\<close> and \<open>shell_main\<close> the whole session. ShellTokens relates \<open>tokenise\<close> to the words of a
  line, ShellRuns a line to the command it runs, and ShellProps states a session, the round trip of
  words, the limits of lines and the end of the input. No NUL is stored behind a line: \<open>leftover\<close> is what
  the buffer holds behind it and the shell reads as well, which is what \<open>malloc\<close> left there for the first line.

  \<^bold>\<open>Simulations (Asmt_5).\<close> Philosophers (philosophers.c), ProdCon (prodcon_sem.cpp, prodcon_cv.cpp),
  Water (h2o_sem.cpp) and Whales (whales.c) have the threads as step relations: a thread is at a
  point of its function, and a semaphore operation or a section under a mutex is one step.
  Reachable states are inductive predicates, with an invariant each. ProdConCv has the invariant of the
  buffer of prodcon_cv.cpp and the runs that leave it; ProdConScreen has what both programs draw, from their
  arguments on, and that the picture on the terminal is the buffer, with the locale \<open>drawn_buffer\<close>. PhilProps, ProdConProps,
  WaterProps and WhaleProps show mutual exclusion, progress, lost signals, buffer bounds, that
  atoms are matched properly, and which threads never end. In Whales a thread runs up to
  its first \<open>sem_wait\<close> in one step, as \<open>main\<close> sleeps between two creations: its states are those of the runs in
  which no two whales are created at once; WhaleRace cuts it at the tests
  of the counters and shows what happens when that sleep is too short. Stats has the programs that
  count the output of a simulation (whales_stats.cc, h2o_stats.cpp, philosophers_stats.cc), and StatsLines
  that the lines of a simulation are read as they were printed, with the locale \<open>entry_reader\<close> for what
  a program keeps of them. StatsProps, WaterStats and PhilStats compose each simulation with its program: what
  is printed about the whales, that no molecule is counted that was not made, and that the times
  of the philosophers are those that they spent in each state; StatsOutput has the text that they print. WhalesNew has an earlier version of the
  whales (whalesnew.c) and that it matches the same whales; Decimal has \<open>%d\<close> and \<open>atoi\<close>.

  \<^bold>\<open>Not modelled.\<close> What is printed for people (prompts, messages, usage) where no property
  is about it; sleeping, elapsed time and random numbers, of which every outcome
  is allowed; floats, which are a parameter; the handler of SIGINT of the programs that count, which can interrupt
  them in the middle of a line;
  the first version of the whales (ajrwhales.c), which passes semaphores to \<open>signal\<close> and \<open>wait\<close> and is no
  valid program; hello_world.c; and the end of the \<open>main\<close> of uthread_test.c, behind a loop that never ends.
\<close>

end
